(* ===== verification/Prelude.thy ===== *)
theory Prelude
  imports Main "HOL-Library.Word"
begin

text \<open>
  Shared vocabulary of the GNU OS development: the C integer types as words, bounded table
  scans, NUL-terminated strings, and the generic facts about words, lists and functions that
  the component theories rely on.

  \<^item> \<open>u8\<close>, \<open>u16\<close>, \<open>u32\<close>, \<open>u64\<close> are the \<^verbatim>\<open>uintN_t\<close> types; arithmetic wraps.
  \<^item> A C \<^verbatim>\<open>int\<close> status is an \<open>int\<close>.
  \<^item> A pointer argument that may be NULL is an \<open>option\<close>; an address that is only stored and
    compared is a \<open>u64\<close>, with 0 for NULL.
  \<^item> A fixed-size array is a list of that length, or a total function on the index type where
    the array has tens of thousands of entries.
\<close>

unbundle bit_operations_syntax

type_synonym u8 = "8 word"
type_synonym u16 = "16 word"
type_synonym u32 = "32 word"
type_synonym u64 = "64 word"

named_theorems kinv "preservation of component invariants"
named_theorems kframe "fields that an operation leaves alone"

abbreviation UINT64_MAX :: u64 where
  "UINT64_MAX \<equiv> - 1"

definition MM_PAGE_SIZE :: u64 where
  "MM_PAGE_SIZE = 4096"

section \<open>Table scans\<close>

text \<open>
  The source scans its fixed tables with \<^verbatim>\<open>for (index = 0; index < MAX; index++)\<close> and leaves at
  the first entry that satisfies a test.
\<close>

fun first_index :: "('a \<Rightarrow> bool) \<Rightarrow> 'a list \<Rightarrow> nat option" where
  "first_index P [] = None"
| "first_index P (x # xs) = (if P x then Some 0 else map_option Suc (first_index P xs))"

section \<open>C strings\<close>

text \<open>
  A NUL-terminated string is the list of its characters before the terminator; reading at the
  terminator gives NUL.
\<close>

definition cchar :: "string \<Rightarrow> nat \<Rightarrow> char" where
  "cchar s i = (if i < length s then s ! i else CHR 0x00)"

definition cstring :: "string \<Rightarrow> bool" where
  "cstring s \<longleftrightarrow> CHR 0x00 \<notin> set s"

section \<open>Facts about table scans\<close>

lemma first_index_SomeD:
  "first_index P xs = Some i \<Longrightarrow> i < length xs \<and> P (xs ! i) \<and> (\<forall>j<i. \<not> P (xs ! j))"
proof (induction xs arbitrary: i)
  case (Cons x xs)
  show ?case
  proof (cases "P x")
    case False
    with Cons.prems obtain k where k: "first_index P xs = Some k" "i = Suc k" by auto
    from Cons.IH [OF k(1)] k(2) False show ?thesis
      by (auto simp: nth_Cons split: nat.splits)
  qed (use Cons.prems in auto)
qed simp

lemma first_index_None [simp]: "first_index P xs = None \<longleftrightarrow> (\<forall>x\<in>set xs. \<not> P x)"
  by (induction xs) auto

lemma first_index_SomeI:
  assumes "i < length xs" "P (xs ! i)" "\<And>j. j < i \<Longrightarrow> \<not> P (xs ! j)"
  shows "first_index P xs = Some i"
proof (cases "first_index P xs")
  case None
  with assms show ?thesis by auto
next
  case (Some k)
  from first_index_SomeD [OF Some] assms show ?thesis
    using Some by (metis linorder_neqE_nat)
qed

lemma first_index_Some_iff:
  "first_index P xs = Some i \<longleftrightarrow> i < length xs \<and> P (xs ! i) \<and> (\<forall>j<i. \<not> P (xs ! j))"
  by (metis first_index_SomeD first_index_SomeI)

lemma first_index_Some_length: "first_index P xs = Some i \<Longrightarrow> i < length xs"
  by (simp add: first_index_Some_iff)

lemma first_index_cong: "(\<And>x. x \<in> set xs \<Longrightarrow> P x = Q x) \<Longrightarrow> first_index P xs = first_index Q xs"
  by (induction xs) auto

lemma first_index_map: "first_index P (map f xs) = first_index (\<lambda>x. P (f x)) xs"
  by (induction xs) auto

lemma first_index_upt: "first_index (\<lambda>i. P (xs ! i)) [0..<length xs] = first_index P xs"
  using first_index_map [of P "(!) xs" "[0..<length xs]"] by (simp add: map_nth)

section \<open>Facts about words\<close>

lemma unat_add_small:
  fixes a b :: "'a::len word"
  assumes "unat a + unat b < 2 ^ LENGTH('a)"
  shows "unat (a + b) = unat a + unat b"
  using assms by (simp add: unat_word_ariths)

lemma unat_Suc_small:
  fixes a :: "'a::len word"
  assumes "unat a + 1 < 2 ^ LENGTH('a)"
  shows "unat (a + 1) = unat a + 1"
  using assms by (cases "LENGTH('a) = 1") (auto simp: unat_word_ariths)

lemma unat_Suc_less:
  fixes a b :: "'a::len word"
  assumes "a < b"
  shows "unat (a + 1) = unat a + 1"
proof -
  have "unat a < unat b" "unat b < 2 ^ LENGTH('a)" using assms by (simp_all add: word_less_nat_alt)
  then show ?thesis by (intro unat_Suc_small) linarith
qed

lemma unat_diff_le:
  fixes a b :: "'a::len word"
  shows "b \<le> a \<Longrightarrow> unat (a - b) = unat a - unat b"
  by (simp add: unat_sub)

lemma unat_mult_small:
  fixes a b :: "'a::len word"
  assumes "unat a * unat b < 2 ^ LENGTH('a)"
  shows "unat (a * b) = unat a * unat b"
  using assms by (simp add: unat_word_ariths)

lemma word_le_unat: "(a::'a::len word) \<le> b \<longleftrightarrow> unat a \<le> unat b"
  by (simp add: word_le_nat_alt)

lemma word_less_unat: "(a::'a::len word) < b \<longleftrightarrow> unat a < unat b"
  by (simp add: word_less_nat_alt)

lemma word_eq_unat: "(a::'a::len word) = b \<longleftrightarrow> unat a = unat b"
  by (simp add: word_unat_eq_iff)

lemma unat_ucast_up:
  fixes x :: "'a::len word"
  assumes "LENGTH('a) \<le> LENGTH('b::len)"
  shows "unat (ucast x :: 'b word) = unat x"
proof -
  have "unat x < 2 ^ LENGTH('a)" by (rule unsigned_less)
  also have "(2::nat) ^ LENGTH('a) \<le> 2 ^ LENGTH('b)" using assms by simp
  finally show ?thesis by (simp add: unsigned_ucast_eq take_bit_nat_eq_self)
qed

lemma unat_ucast_small:
  fixes x :: "'a::len word"
  assumes "unat x < 2 ^ LENGTH('b::len)"
  shows "unat (ucast x :: 'b word) = unat x"
  using assms by (simp add: unsigned_ucast_eq take_bit_nat_eq_self)

lemma unat_2p:
  assumes "k < LENGTH('a::len)"
  shows "unat ((2::'a word) ^ k) = 2 ^ k"
proof -
  have "(2::'a word) ^ k = of_nat (2 ^ k)" by simp
  then have "unat ((2::'a word) ^ k) = take_bit LENGTH('a) (2 ^ k)"
    by (simp only: unsigned_of_nat of_nat_id)
  with assms show ?thesis by (simp add: take_bit_nat_eq_self)
qed

lemma unat_push_bit_1:
  assumes "k < LENGTH('a::len)"
  shows "unat (push_bit k 1 :: 'a word) = 2 ^ k"
  using unat_2p [OF assms] by simp

lemma unat_page_align: "unat ((x :: u64) AND NOT (MM_PAGE_SIZE - 1)) = 4096 * (unat x div 4096)"
proof -
  have m: "MM_PAGE_SIZE - 1 = mask 12" by (simp add: MM_PAGE_SIZE_def mask_eq_exp_minus_1)
  have "x AND NOT (mask 12) = push_bit 12 (drop_bit 12 x)"
    by (rule bit_word_eqI) (auto simp: bit_push_bit_iff bit_drop_bit_eq bit_and_iff bit_not_iff bit_mask_iff)
  also have "\<dots> = (x div 4096) * 4096" by (simp add: push_bit_eq_mult drop_bit_eq_div)
  finally have e: "x AND NOT (MM_PAGE_SIZE - 1) = (x div 4096) * 4096" by (simp add: m)
  have d: "unat (x div 4096) = unat x div 4096" by (simp add: unat_div)
  have "unat x < 2 ^ 64" using unsigned_less [of x] by simp
  then have "unat x div 4096 * 4096 < 2 ^ 64" by (meson div_times_less_eq_dividend le_less_trans)
  then show ?thesis unfolding e using d by (subst unat_mult_small) simp_all
qed

section \<open>Facts about cardinalities of index sets\<close>

lemma card_update_list_gain:
  assumes "i < length xs" "\<not> P (xs ! i)" "P y"
  shows "card {j. j < length xs \<and> P (xs[i := y] ! j)} = Suc (card {j. j < length xs \<and> P (xs ! j)})"
proof -
  have "{j. j < length xs \<and> P (xs[i := y] ! j)} = insert i {j. j < length xs \<and> P (xs ! j)}"
    using assms by (auto simp: nth_list_update)
  moreover have "i \<notin> {j. j < length xs \<and> P (xs ! j)}" using assms by simp
  moreover have "finite {j. j < length xs \<and> P (xs ! j)}" by simp
  ultimately show ?thesis by simp
qed

lemma card_update_list_same:
  assumes "i < length xs" "P (xs ! i) = P y"
  shows "card {j. j < length xs \<and> P (xs[i := y] ! j)} = card {j. j < length xs \<and> P (xs ! j)}"
proof -
  have "{j. j < length xs \<and> P (xs[i := y] ! j)} = {j. j < length xs \<and> P (xs ! j)}"
    using assms by (auto simp: nth_list_update)
  then show ?thesis by simp
qed

lemma card_full_iff:
  "card {j. j < length xs \<and> P (xs ! j)} = length xs \<longleftrightarrow> (\<forall>j<length xs. P (xs ! j))"
proof -
  have "{j. j < length xs \<and> P (xs ! j)} \<subseteq> {..<length xs}" by auto
  moreover have "card {..<length xs} = length xs" by simp
  ultimately have "card {j. j < length xs \<and> P (xs ! j)} = length xs \<longleftrightarrow>
      {j. j < length xs \<and> P (xs ! j)} = {..<length xs}"
    by (metis card_subset_eq finite_lessThan)
  also have "\<dots> \<longleftrightarrow> (\<forall>j<length xs. P (xs ! j))" by auto
  finally show ?thesis .
qed

end
