(* ===== verification/Fifo.thy ===== *)
theory Fifo
  imports Prelude
begin

text \<open>
  Bounded first-in first-out queues.  The scheduler's ready queue and wait queues
  (kernel/sched/sched.c), the work queues (kernel/sched/workqueue.c), the IPC channels
  (kernel/ipc/ipc.c) and the keyboard buffer (kernel/drivers/char/ps2_keyboard.c) are all ring
  buffers over a fixed array.  This theory holds the ring arithmetic they share, the abstract
  queue they implement, and the interface \<open>bounded_fifo\<close> with what its clients get from it:
  every sequence of operations produces the outputs of the abstract bounded list.
\<close>

section \<open>Ring arithmetic\<close>

text \<open>
  \<^verbatim>\<open>(uint16_t)((tail + 1U) % CAPACITY)\<close>: the operand is promoted to 32 bits, incremented,
  reduced and truncated.
\<close>

definition ring_next :: "u16 \<Rightarrow> u32 \<Rightarrow> u16" where
  "ring_next i capacity = ucast ((ucast i + 1) mod capacity)"

text \<open>The entries of a ring, from the head on.\<close>

definition ring_list :: "'a list \<Rightarrow> nat \<Rightarrow> nat \<Rightarrow> 'a list" where
  "ring_list buf h n = map (\<lambda>i. buf ! ((h + i) mod length buf)) [0..<n]"

definition ring_ok :: "'a list \<Rightarrow> nat \<Rightarrow> nat \<Rightarrow> nat \<Rightarrow> bool" where
  "ring_ok buf h t n \<longleftrightarrow>
     h < length buf \<and> t < length buf \<and> n \<le> length buf \<and> t = (h + n) mod length buf"

section \<open>The abstract bounded queue\<close>

datatype 'a fifo_op = Enq 'a | Deq

datatype 'a fifo_out = Accepted | Refused | Got 'a | Empty

fun fifo_spec_step :: "nat \<Rightarrow> 'a list \<Rightarrow> 'a fifo_op \<Rightarrow> 'a fifo_out \<times> 'a list" where
  "fifo_spec_step cap xs (Enq x) =
     (if length xs < cap then (Accepted, xs @ [x]) else (Refused, xs))"
| "fifo_spec_step cap [] Deq = (Empty, [])"
| "fifo_spec_step cap (x # xs) Deq = (Got x, xs)"

fun fifo_spec_run :: "nat \<Rightarrow> 'a list \<Rightarrow> 'a fifo_op list \<Rightarrow> 'a fifo_out list" where
  "fifo_spec_run cap xs [] = []"
| "fifo_spec_run cap xs (op # ops) =
     (let (out, xs') = fifo_spec_step cap xs op in out # fifo_spec_run cap xs' ops)"

text \<open>
  The same run on an implementation, given by an enqueue that fails when full and a dequeue that
  fails when empty.
\<close>

fun fifo_step :: "('a \<Rightarrow> 'q \<Rightarrow> 'q option) \<Rightarrow> ('q \<Rightarrow> ('a \<times> 'q) option) \<Rightarrow> 'q \<Rightarrow> 'a fifo_op \<Rightarrow>
    'a fifo_out \<times> 'q" where
  "fifo_step enq deq q (Enq x) = (case enq x q of None \<Rightarrow> (Refused, q) | Some q' \<Rightarrow> (Accepted, q'))"
| "fifo_step enq deq q Deq = (case deq q of None \<Rightarrow> (Empty, q) | Some (x, q') \<Rightarrow> (Got x, q'))"

fun fifo_run :: "('a \<Rightarrow> 'q \<Rightarrow> 'q option) \<Rightarrow> ('q \<Rightarrow> ('a \<times> 'q) option) \<Rightarrow> 'q \<Rightarrow> 'a fifo_op list \<Rightarrow>
    'a fifo_out list" where
  "fifo_run enq deq q [] = []"
| "fifo_run enq deq q (op # ops) =
     (let (out, q') = fifo_step enq deq q op in out # fifo_run enq deq q' ops)"

section \<open>Facts about rings\<close>

lemma unat_ring_next:
  assumes "0 < capacity" "capacity \<le> 65536"
  shows "unat (ring_next i capacity) = (unat i + 1) mod unat capacity"
proof -
  have i: "unat i < 65536" using unsigned_less [of i] by simp
  have "unat ((ucast i :: u32) + 1) = unat i + 1"
    using i by (subst unat_Suc_small) (simp_all add: unat_ucast_up)
  then have m: "unat (((ucast i :: u32) + 1) mod capacity) = (unat i + 1) mod unat capacity"
    by (simp add: unat_mod)
  have "(unat i + 1) mod unat capacity < unat capacity"
    using assms(1) by (simp add: word_less_unat)
  also have "unat capacity \<le> 65536" using assms(2) by (simp add: word_le_unat)
  finally have "(unat i + 1) mod unat capacity < 65536" .
  with m show ?thesis
    by (simp add: ring_next_def unat_ucast_small)
qed

lemma length_ring_list [simp]: "length (ring_list buf h n) = n"
  by (simp add: ring_list_def)

lemma ring_list_0 [simp]: "ring_list buf h 0 = []"
  by (simp add: ring_list_def)

lemma ring_list_Nil_iff [simp]: "ring_list buf h n = [] \<longleftrightarrow> n = 0"
  by (simp add: ring_list_def)

lemma nth_ring_list: "i < n \<Longrightarrow> ring_list buf h n ! i = buf ! ((h + i) mod length buf)"
  by (simp add: ring_list_def)

lemma mod_add_inj_le:
  fixes h i j m :: nat
  assumes "i \<le> j" "j < m" "(h + i) mod m = (h + j) mod m"
  shows "i = j"
proof -
  have "m dvd (h + j) - (h + i)"
    using assms by (subst mod_eq_dvd_iff_nat [symmetric]) simp_all
  then have "m dvd j - i" by simp
  moreover have "j - i < m" using assms by simp
  ultimately show ?thesis using assms(1) by (metis diff_is_0_eq le_antisym nat_dvd_not_less neq0_conv)
qed

lemma mod_add_inj_less:
  fixes h i j m :: nat
  assumes "i < m" "j < m" "(h + i) mod m = (h + j) mod m"
  shows "i = j"
  using assms mod_add_inj_le [of i j m h] mod_add_inj_le [of j i m h] by linarith

lemma ring_list_Suc: "ring_list buf h (Suc n) = ring_list buf h n @ [buf ! ((h + n) mod length buf)]"
  by (simp add: ring_list_def)

lemma ring_list_update_tail:
  assumes "ring_ok buf h t n" "n < length buf"
  shows "ring_list (buf[t := x]) h n = ring_list buf h n"
proof (rule nth_equalityI)
  fix i
  assume "i < length (ring_list (buf[t := x]) h n)"
  then have i: "i < n" by simp
  with assms have "(h + i) mod length buf \<noteq> t"
    using mod_add_inj_less [of i "length buf" n h] by (auto simp: ring_ok_def)
  with i show "ring_list (buf[t := x]) h n ! i = ring_list buf h n ! i"
    by (simp add: nth_ring_list)
qed simp

lemma ring_push_list:
  assumes "ring_ok buf h t n" "n < length buf"
  shows "ring_list (buf[t := x]) h (Suc n) = ring_list buf h n @ [x]"
proof -
  from assms have "buf[t := x] ! ((h + n) mod length buf) = x" by (simp add: ring_ok_def)
  with ring_list_update_tail [OF assms] show ?thesis by (simp add: ring_list_Suc)
qed

lemma ring_push_ok:
  assumes "ring_ok buf h t n" "n < length buf"
  shows "ring_ok (buf[t := x]) h ((t + 1) mod length buf) (Suc n)"
proof -
  from assms have "0 < length buf" by auto
  with assms show ?thesis by (simp add: ring_ok_def mod_simps)
qed

lemma ring_pop_list:
  assumes "ring_ok buf h t n" "0 < n"
  shows "ring_list buf h n = buf ! h # ring_list buf ((h + 1) mod length buf) (n - 1)"
proof (rule nth_equalityI)
  fix i
  assume "i < length (ring_list buf h n)"
  then have i: "i < n" by simp
  show "ring_list buf h n ! i =
      (buf ! h # ring_list buf ((h + 1) mod length buf) (n - 1)) ! i"
  proof (cases i)
    case 0
    with assms show ?thesis by (simp add: nth_ring_list ring_ok_def)
  next
    case (Suc k)
    with i have "k < n - 1" by simp
    with Suc i show ?thesis by (simp add: nth_ring_list mod_simps)
  qed
qed (use assms in simp)

lemma ring_pop_ok:
  assumes "ring_ok buf h t n" "0 < n"
  shows "ring_ok buf ((h + 1) mod length buf) t (n - 1)"
proof -
  from assms obtain k where k: "n = Suc k" by (cases n) auto
  from assms have "0 < length buf" by (auto simp: ring_ok_def)
  with assms k show ?thesis by (simp add: ring_ok_def mod_simps)
qed

text \<open>The same steps on the words a C ring keeps: head, tail and size as \<^verbatim>\<open>uint16_t\<close>.\<close>

lemma ring_enq_words:
  fixes h t n :: u16 and capacity :: u32
  assumes ok: "ring_ok buf (unat h) (unat t) (unat n)" and len: "length buf = unat capacity"
    and cap: "unat capacity < 65536" and n: "unat n < unat capacity"
  shows "ring_ok (buf[unat t := x]) (unat h) (unat (ring_next t capacity)) (unat (n + 1))"
    "ring_list (buf[unat t := x]) (unat h) (unat (n + 1)) = ring_list buf (unat h) (unat n) @ [x]"
    "unat (n + 1) = unat n + 1"
proof -
  have n1: "unat (n + 1) = Suc (unat n)" using n cap by (subst unat_Suc_small) simp_all
  then show "unat (n + 1) = unat n + 1" by simp
  have "0 < capacity" "capacity \<le> 65536" using n cap by (simp_all add: word_less_unat word_le_unat)
  then have t1: "unat (ring_next t capacity) = (unat t + 1) mod length buf" using len by (simp add: unat_ring_next)
  have n': "unat n < length buf" using n len by simp
  show "ring_ok (buf[unat t := x]) (unat h) (unat (ring_next t capacity)) (unat (n + 1))"
    unfolding n1 t1 by (rule ring_push_ok [OF ok n'])
  show "ring_list (buf[unat t := x]) (unat h) (unat (n + 1)) = ring_list buf (unat h) (unat n) @ [x]"
    unfolding n1 by (rule ring_push_list [OF ok n'])
qed

lemma ring_deq_words:
  fixes h t n :: u16 and capacity :: u32
  assumes ok: "ring_ok buf (unat h) (unat t) (unat n)" and len: "length buf = unat capacity"
    and cap: "unat capacity < 65536" and n: "n \<noteq> 0"
  shows "ring_ok buf (unat (ring_next h capacity)) (unat t) (unat (n - 1))"
    "ring_list buf (unat h) (unat n) = buf ! unat h # ring_list buf (unat (ring_next h capacity)) (unat (n - 1))"
    "unat (n - 1) = unat n - 1"
proof -
  have n': "0 < unat n" using n by (simp add: unat_gt_0)
  then have n1: "unat (n - 1) = unat n - 1" by (subst unat_diff_le) (simp_all add: word_le_unat)
  then show "unat (n - 1) = unat n - 1" .
  have "0 < unat capacity" using ok len by (auto simp: ring_ok_def)
  then have "0 < capacity" "capacity \<le> 65536" using cap by (simp_all add: word_less_unat word_le_unat)
  then have h1: "unat (ring_next h capacity) = (unat h + 1) mod length buf" using len by (simp add: unat_ring_next)
  show "ring_ok buf (unat (ring_next h capacity)) (unat t) (unat (n - 1))"
    unfolding n1 h1 by (rule ring_pop_ok [OF ok n'])
  show "ring_list buf (unat h) (unat n) = buf ! unat h # ring_list buf (unat (ring_next h capacity)) (unat (n - 1))"
    unfolding n1 h1 by (rule ring_pop_list [OF ok n'])
qed

section \<open>The queue interface\<close>

text \<open>
  What a queue promises its clients.  \<open>contents\<close> is the list of the queued values in order of
  arrival and \<open>wf\<close> the representation invariant.
\<close>

locale bounded_fifo =
  fixes wf :: "'q \<Rightarrow> bool"
    and contents :: "'q \<Rightarrow> 'a list"
    and enq :: "'a \<Rightarrow> 'q \<Rightarrow> 'q option"
    and deq :: "'q \<Rightarrow> ('a \<times> 'q) option"
    and cap :: nat
  assumes bounded: "wf q \<Longrightarrow> length (contents q) \<le> cap"
    and enq_None: "wf q \<Longrightarrow> enq x q = None \<longleftrightarrow> length (contents q) = cap"
    and enq_Some: "wf q \<Longrightarrow> enq x q = Some q' \<Longrightarrow> wf q' \<and> contents q' = contents q @ [x]"
    and deq_None: "wf q \<Longrightarrow> deq q = None \<longleftrightarrow> contents q = []"
    and deq_Some: "wf q \<Longrightarrow> deq q = Some (x, q') \<Longrightarrow> wf q' \<and> contents q = x # contents q'"
begin

lemma step_refines:
  assumes "wf q" "fifo_step enq deq q op = (out, q')"
  shows "wf q' \<and> fifo_spec_step cap (contents q) op = (out, contents q')"
proof (cases op)
  case (Enq x)
  show ?thesis
  proof (cases "enq x q")
    case None
    with Enq assms enq_None show ?thesis by auto
  next
    case (Some q1)
    then have "length (contents q) \<noteq> cap" using assms(1) enq_None [of q x] by auto
    with bounded [OF assms(1)] have "length (contents q) < cap" by simp
    with Enq Some assms enq_Some [OF assms(1) Some] show ?thesis by auto
  qed
next
  case Deq
  show ?thesis
  proof (cases "deq q")
    case None
    with Deq assms deq_None show ?thesis by auto
  next
    case (Some r)
    obtain x q1 where r: "r = (x, q1)" by (cases r)
    with Deq Some assms deq_Some [of q x q1] show ?thesis by auto
  qed
qed

theorem run_refines: "wf q \<Longrightarrow> fifo_run enq deq q ops = fifo_spec_run cap (contents q) ops"
proof (induction ops arbitrary: q)
  case (Cons op ops)
  obtain out q' where st: "fifo_step enq deq q op = (out, q')"
    by (cases "fifo_step enq deq q op")
  from step_refines [OF Cons.prems st] Cons.IH [of q'] st show ?case by simp
qed simp

end

end
