(* ===== verification/Locks.thy ===== *)
theory Locks
  imports Prelude
begin

text \<open>
  The busy-waiting locks of kernel/lib: \<^verbatim>\<open>spinlock.c\<close>, \<^verbatim>\<open>mutex.c\<close> and \<^verbatim>\<open>rwlock.c\<close>.

  A lock is the record of its atomic words; a lock pointer is an option, since every operation
  checks for NULL.  The waiting loops are modelled twice: as \<open>partial_function\<close>s, where a loop
  that never leaves is \<open>None\<close>, and as step relations in which any number of threads interleave
  their atomic accesses, one access per step.  The interface \<open>exclusive_lock\<close> is the contract of
  a test-and-set lock; both the spinlock and the mutex implement it, and mutual exclusion is
  proved once from the contract.  The reader-writer lock has its own step relation.
\<close>

section \<open>Spinlocks\<close>

record spinlock_t =
  sl_state :: u32

definition spinlock_init :: "spinlock_t option \<Rightarrow> spinlock_t option" where
  "spinlock_init lock = (case lock of None \<Rightarrow> None | Some l \<Rightarrow> Some (l\<lparr>sl_state := 0\<rparr>))"

definition spinlock_try_lock :: "spinlock_t option \<Rightarrow> bool \<times> spinlock_t option" where
  "spinlock_try_lock lock =
     (case lock of
        None \<Rightarrow> (False, None)
      | Some l \<Rightarrow> (let old = sl_state l in (old = 0, Some (l\<lparr>sl_state := 1\<rparr>))))"

partial_function (option) spinlock_lock :: "spinlock_t option \<Rightarrow> spinlock_t option option" where
  "spinlock_lock lock =
     (if lock = None then Some None
      else let (got, lock') = spinlock_try_lock lock in
           if got then Some lock' else spinlock_lock lock')"

definition spinlock_unlock :: "spinlock_t option \<Rightarrow> spinlock_t option" where
  "spinlock_unlock lock = (case lock of None \<Rightarrow> None | Some l \<Rightarrow> Some (l\<lparr>sl_state := 0\<rparr>))"

section \<open>Mutexes\<close>

record mutex_t =
  mx_state :: u32

definition mutex_init :: "mutex_t option \<Rightarrow> mutex_t option" where
  "mutex_init lock = (case lock of None \<Rightarrow> None | Some l \<Rightarrow> Some (l\<lparr>mx_state := 0\<rparr>))"

definition mutex_try_lock :: "mutex_t option \<Rightarrow> bool \<times> mutex_t option" where
  "mutex_try_lock lock =
     (case lock of
        None \<Rightarrow> (False, None)
      | Some l \<Rightarrow> (let old = mx_state l in (old = 0, Some (l\<lparr>mx_state := 1\<rparr>))))"

partial_function (option) mutex_lock :: "mutex_t option \<Rightarrow> mutex_t option option" where
  "mutex_lock lock =
     (if lock = None then Some None
      else let (got, lock') = mutex_try_lock lock in
           if got then Some lock' else mutex_lock lock')"

definition mutex_unlock :: "mutex_t option \<Rightarrow> mutex_t option" where
  "mutex_unlock lock = (case lock of None \<Rightarrow> None | Some l \<Rightarrow> Some (l\<lparr>mx_state := 0\<rparr>))"

section \<open>Threads contending for one lock\<close>

datatype lock_pc = Idle | Trying | Critical

record 'l lock_sys =
  the_lock :: 'l
  lock_pcs :: "nat \<Rightarrow> lock_pc"

text \<open>
  A thread outside calls the lock operation, retries the atomic exchange until it succeeds, and
  releases the lock when its critical section is done.
\<close>

inductive lock_step :: "('l \<Rightarrow> bool \<times> 'l) \<Rightarrow> ('l \<Rightarrow> 'l) \<Rightarrow> 'l lock_sys \<Rightarrow> 'l lock_sys \<Rightarrow> bool"
  for acquire :: "'l \<Rightarrow> bool \<times> 'l" and unlock :: "'l \<Rightarrow> 'l"
where
  lk_call: "lock_pcs s i = Idle \<Longrightarrow>
     lock_step acquire unlock s (s\<lparr>lock_pcs := (lock_pcs s)(i := Trying)\<rparr>)"
| lk_spin: "lock_pcs s i = Trying \<Longrightarrow> acquire (the_lock s) = (False, l) \<Longrightarrow>
     lock_step acquire unlock s (s\<lparr>the_lock := l\<rparr>)"
| lk_take: "lock_pcs s i = Trying \<Longrightarrow> acquire (the_lock s) = (True, l) \<Longrightarrow>
     lock_step acquire unlock s (s\<lparr>the_lock := l, lock_pcs := (lock_pcs s)(i := Critical)\<rparr>)"
| lk_release: "lock_pcs s i = Critical \<Longrightarrow>
     lock_step acquire unlock s
       (s\<lparr>the_lock := unlock (the_lock s), lock_pcs := (lock_pcs s)(i := Idle)\<rparr>)"

inductive lock_reachable :: "('l \<Rightarrow> bool \<times> 'l) \<Rightarrow> ('l \<Rightarrow> 'l) \<Rightarrow> 'l \<Rightarrow> 'l lock_sys \<Rightarrow> bool"
  for acquire :: "'l \<Rightarrow> bool \<times> 'l" and unlock :: "'l \<Rightarrow> 'l" and start :: 'l
where
  lk_start: "lock_reachable acquire unlock start \<lparr>the_lock = start, lock_pcs = (\<lambda>_. Idle)\<rparr>"
| lk_next: "lock_reachable acquire unlock start s \<Longrightarrow> lock_step acquire unlock s t \<Longrightarrow>
     lock_reachable acquire unlock start t"

section \<open>Reader-writer locks\<close>

record rwlock_t =
  rw_readers :: u32
  rw_writer :: u32

definition rwlock_init :: "rwlock_t option \<Rightarrow> rwlock_t option" where
  "rwlock_init lock =
     (case lock of None \<Rightarrow> None | Some l \<Rightarrow> Some (l\<lparr>rw_readers := 0, rw_writer := 0\<rparr>))"

text \<open>The atomic accesses of the two locking loops and of the two unlock operations.\<close>

definition rw_readers_inc :: "rwlock_t \<Rightarrow> rwlock_t" where
  "rw_readers_inc l = l\<lparr>rw_readers := rw_readers l + 1\<rparr>"

definition rw_readers_dec :: "rwlock_t \<Rightarrow> rwlock_t" where
  "rw_readers_dec l = l\<lparr>rw_readers := rw_readers l - 1\<rparr>"

definition rwlock_read_unlock :: "rwlock_t option \<Rightarrow> rwlock_t option" where
  "rwlock_read_unlock lock = map_option rw_readers_dec lock"

definition rwlock_write_unlock :: "rwlock_t option \<Rightarrow> rwlock_t option" where
  "rwlock_write_unlock lock = map_option (\<lambda>l. l\<lparr>rw_writer := 0\<rparr>) lock"

text \<open>
  Program points of a thread: \<open>RdSpin\<close> waits for the writer flag to clear, \<open>RdInc\<close> is about to
  count itself, \<open>RdCheck\<close> has counted itself and looks at the flag again, \<open>RdUndo\<close> must back
  out; \<open>WrSpin\<close> tries to raise the flag, \<open>WrDrain\<close> has raised it and waits for the readers.
\<close>

datatype rw_pc = RwIdle | RdSpin | RdInc | RdCheck | RdUndo | RdHeld | WrSpin | WrDrain | WrHeld

record rw_sys =
  rw_lock :: rwlock_t
  rw_pcs :: "nat \<Rightarrow> rw_pc"

definition rw_goto :: "nat \<Rightarrow> rw_pc \<Rightarrow> rw_sys \<Rightarrow> rw_sys" where
  "rw_goto i p s = s\<lparr>rw_pcs := (rw_pcs s)(i := p)\<rparr>"

inductive rw_step :: "nat \<Rightarrow> rw_sys \<Rightarrow> rw_sys \<Rightarrow> bool" for n :: nat where
  rd_call: "i < n \<Longrightarrow> rw_pcs s i = RwIdle \<Longrightarrow> rw_step n s (rw_goto i RdSpin s)"
| rd_pause: "i < n \<Longrightarrow> rw_pcs s i = RdSpin \<Longrightarrow> rw_writer (rw_lock s) \<noteq> 0 \<Longrightarrow> rw_step n s s"
| rd_clear: "i < n \<Longrightarrow> rw_pcs s i = RdSpin \<Longrightarrow> rw_writer (rw_lock s) = 0 \<Longrightarrow>
     rw_step n s (rw_goto i RdInc s)"
| rd_count: "i < n \<Longrightarrow> rw_pcs s i = RdInc \<Longrightarrow>
     rw_step n s (rw_goto i RdCheck (s\<lparr>rw_lock := rw_readers_inc (rw_lock s)\<rparr>))"
| rd_enter: "i < n \<Longrightarrow> rw_pcs s i = RdCheck \<Longrightarrow> rw_writer (rw_lock s) = 0 \<Longrightarrow>
     rw_step n s (rw_goto i RdHeld s)"
| rd_lost: "i < n \<Longrightarrow> rw_pcs s i = RdCheck \<Longrightarrow> rw_writer (rw_lock s) \<noteq> 0 \<Longrightarrow>
     rw_step n s (rw_goto i RdUndo s)"
| rd_uncount: "i < n \<Longrightarrow> rw_pcs s i = RdUndo \<Longrightarrow>
     rw_step n s (rw_goto i RdSpin (s\<lparr>rw_lock := rw_readers_dec (rw_lock s)\<rparr>))"
| rd_unlock: "i < n \<Longrightarrow> rw_pcs s i = RdHeld \<Longrightarrow>
     rwlock_read_unlock (Some (rw_lock s)) = Some l \<Longrightarrow>
     rw_step n s (rw_goto i RwIdle (s\<lparr>rw_lock := l\<rparr>))"
| wr_call: "i < n \<Longrightarrow> rw_pcs s i = RwIdle \<Longrightarrow> rw_step n s (rw_goto i WrSpin s)"
| wr_pause: "i < n \<Longrightarrow> rw_pcs s i = WrSpin \<Longrightarrow> rw_writer (rw_lock s) \<noteq> 0 \<Longrightarrow>
     rw_step n s (s\<lparr>rw_lock := (rw_lock s)\<lparr>rw_writer := 1\<rparr>\<rparr>)"
| wr_raise: "i < n \<Longrightarrow> rw_pcs s i = WrSpin \<Longrightarrow> rw_writer (rw_lock s) = 0 \<Longrightarrow>
     rw_step n s (rw_goto i WrDrain (s\<lparr>rw_lock := (rw_lock s)\<lparr>rw_writer := 1\<rparr>\<rparr>))"
| wr_wait: "i < n \<Longrightarrow> rw_pcs s i = WrDrain \<Longrightarrow> rw_readers (rw_lock s) \<noteq> 0 \<Longrightarrow> rw_step n s s"
| wr_enter: "i < n \<Longrightarrow> rw_pcs s i = WrDrain \<Longrightarrow> rw_readers (rw_lock s) = 0 \<Longrightarrow>
     rw_step n s (rw_goto i WrHeld s)"
| wr_unlock: "i < n \<Longrightarrow> rw_pcs s i = WrHeld \<Longrightarrow>
     rwlock_write_unlock (Some (rw_lock s)) = Some l \<Longrightarrow>
     rw_step n s (rw_goto i RwIdle (s\<lparr>rw_lock := l\<rparr>))"

inductive rw_reachable :: "nat \<Rightarrow> rw_sys \<Rightarrow> bool" for n :: nat where
  rw_start: "rwlock_init (Some l) = Some l' \<Longrightarrow>
     rw_reachable n \<lparr>rw_lock = l', rw_pcs = (\<lambda>_. RwIdle)\<rparr>"
| rw_next: "rw_reachable n s \<Longrightarrow> rw_step n s t \<Longrightarrow> rw_reachable n t"

text \<open>The threads that the reader count covers, and the one the writer flag stands for.\<close>

definition rw_counted :: "rw_pc \<Rightarrow> bool" where
  "rw_counted p \<longleftrightarrow> p \<in> {RdCheck, RdUndo, RdHeld}"

definition rw_claims :: "rw_pc \<Rightarrow> bool" where
  "rw_claims p \<longleftrightarrow> p \<in> {WrDrain, WrHeld}"

definition rw_inv :: "nat \<Rightarrow> rw_sys \<Rightarrow> bool" where
  "rw_inv n s \<longleftrightarrow>
     (\<forall>i. n \<le> i \<longrightarrow> rw_pcs s i = RwIdle) \<and>
     unat (rw_readers (rw_lock s)) = card {i. i < n \<and> rw_counted (rw_pcs s i)} \<and>
     (rw_writer (rw_lock s) = 0 \<longleftrightarrow> (\<forall>i. \<not> rw_claims (rw_pcs s i))) \<and>
     (\<forall>i j. rw_claims (rw_pcs s i) \<longrightarrow> rw_claims (rw_pcs s j) \<longrightarrow> i = j) \<and>
     (\<forall>i j. rw_pcs s i = WrHeld \<longrightarrow> rw_pcs s j \<noteq> RdHeld)"

section \<open>The test-and-set contract\<close>

locale exclusive_lock =
  fixes valid :: "'l \<Rightarrow> bool"
    and start :: 'l
    and acquire :: "'l \<Rightarrow> bool \<times> 'l"
    and unlock :: "'l \<Rightarrow> 'l"
    and held :: "'l \<Rightarrow> bool"
  assumes start_free: "valid start \<and> \<not> held start"
    and try_result: "valid l \<Longrightarrow> acquire l = (got, l') \<Longrightarrow> got = (\<not> held l) \<and> valid l' \<and> held l'"
    and unlock_frees: "valid l \<Longrightarrow> valid (unlock l) \<and> \<not> held (unlock l)"
begin

lemma reachable_inv:
  "lock_reachable acquire unlock start s \<Longrightarrow>
     valid (the_lock s) \<and>
     (held (the_lock s) \<longleftrightarrow> (\<exists>i. lock_pcs s i = Critical)) \<and>
     (\<forall>i j. lock_pcs s i = Critical \<longrightarrow> lock_pcs s j = Critical \<longrightarrow> i = j)"
proof (induction rule: lock_reachable.induct)
  case lk_start
  show ?case by (simp add: start_free)
next
  case (lk_next s t)
  from lk_next.hyps(2) lk_next.IH show ?case
  proof cases
    case (lk_call i)
    then have "lock_pcs t j = Critical \<longleftrightarrow> lock_pcs s j = Critical" for j by simp
    with lk_call(1) lk_next.IH show ?thesis by simp
  next
    case (lk_spin i l)
    with lk_next.IH try_result [OF _ lk_spin(3)] show ?thesis by auto
  next
    case (lk_take i l)
    with lk_next.IH try_result [OF _ lk_take(3)] show ?thesis by auto
  next
    case (lk_release i)
    with lk_next.IH show ?thesis by (auto simp: unlock_frees split: if_splits)
  qed
qed

theorem mutual_exclusion:
  assumes "lock_reachable acquire unlock start s" "lock_pcs s i = Critical" "lock_pcs s j = Critical"
  shows "i = j"
  using reachable_inv [OF assms(1)] assms(2,3) by blast

theorem free_lock_is_taken:
  assumes "lock_reachable acquire unlock start s" "\<forall>j. lock_pcs s j \<noteq> Critical" "lock_pcs s i = Trying"
  shows "\<exists>l. lock_step acquire unlock s (s\<lparr>the_lock := l, lock_pcs := (lock_pcs s)(i := Critical)\<rparr>)"
proof -
  from reachable_inv [OF assms(1)] assms(2) have "valid (the_lock s)" "\<not> held (the_lock s)"
    by blast+
  then have "fst (acquire (the_lock s))"
    by (metis prod.collapse try_result)
  then have "acquire (the_lock s) = (True, snd (acquire (the_lock s)))" by (metis prod.collapse)
  with assms(3) show ?thesis by (blast intro: lk_take)
qed

end

interpretation spinlock: exclusive_lock "\<lambda>lock. lock \<noteq> None" "Some \<lparr>sl_state = 0\<rparr>"
  spinlock_try_lock spinlock_unlock "\<lambda>lock. \<exists>l. lock = Some l \<and> sl_state l \<noteq> 0"
  by unfold_locales
    (auto simp: spinlock_try_lock_def spinlock_unlock_def Let_def split: option.splits)

interpretation mutex: exclusive_lock "\<lambda>lock. lock \<noteq> None" "Some \<lparr>mx_state = 0\<rparr>"
  mutex_try_lock mutex_unlock "\<lambda>lock. \<exists>l. lock = Some l \<and> mx_state l \<noteq> 0"
  by unfold_locales
    (auto simp: mutex_try_lock_def mutex_unlock_def Let_def split: option.splits)

section \<open>The waiting loops\<close>

lemma spinlock_lock_free: "sl_state l = 0 \<Longrightarrow> spinlock_lock (Some l) = Some (Some (l\<lparr>sl_state := 1\<rparr>))"
  by (subst spinlock_lock.simps) (simp add: spinlock_try_lock_def)

lemma spinlock_lock_result:
  assumes "spinlock_lock lock = Some r"
  shows "lock = None \<and> r = None \<or> (\<exists>l. lock = Some l \<and> sl_state l = 0 \<and> r = Some (l\<lparr>sl_state := 1\<rparr>))"
proof (rule spinlock_lock.raw_induct [OF _ assms])
  fix f lock r
  assume IH: "\<And>lock r. f lock = Some r \<Longrightarrow>
      lock = None \<and> r = None \<or> (\<exists>l. lock = Some l \<and> sl_state l = 0 \<and> r = Some (l\<lparr>sl_state := 1\<rparr>))"
    and eq: "(if lock = None then Some None
      else let (got, lock') = spinlock_try_lock lock in if got then Some lock' else f lock') = Some r"
  show "lock = None \<and> r = None \<or>
      (\<exists>l. lock = Some l \<and> sl_state l = 0 \<and> r = Some (l\<lparr>sl_state := 1\<rparr>))"
  proof (cases lock)
    case (Some l)
    show ?thesis
    proof (cases "sl_state l = 0")
      case False
      with eq Some have "f (Some (l\<lparr>sl_state := 1\<rparr>)) = Some r"
        by (simp add: spinlock_try_lock_def)
      from IH [OF this] show ?thesis by simp
    qed (use eq Some in \<open>simp add: spinlock_try_lock_def\<close>)
  qed (use eq in simp)
qed

section \<open>Reader-writer exclusion\<close>

lemma rw_goto_simps [simp]:
  "rw_pcs (rw_goto i p s) = (rw_pcs s)(i := p)"
  "rw_lock (rw_goto i p s) = rw_lock s"
  by (simp_all add: rw_goto_def)

lemma rw_lock_simps [simp]:
  "rw_writer (rw_readers_inc l) = rw_writer l"
  "rw_readers (rw_readers_inc l) = rw_readers l + 1"
  "rw_writer (rw_readers_dec l) = rw_writer l"
  "rw_readers (rw_readers_dec l) = rw_readers l - 1"
  by (simp_all add: rw_readers_inc_def rw_readers_dec_def)

lemma card_counted_same:
  fixes n i :: nat
  assumes "rw_counted p = rw_counted (f i)"
  shows "card {j. j < n \<and> rw_counted ((f(i := p)) j)} = card {j. j < n \<and> rw_counted (f j)}"
proof -
  have "{j. j < n \<and> rw_counted ((f(i := p)) j)} = {j. j < n \<and> rw_counted (f j)}"
    using assms by auto
  then show ?thesis by simp
qed

lemma card_counted_gain:
  fixes n i :: nat
  assumes "i < n" "rw_counted p" "\<not> rw_counted (f i)"
  shows "card {j. j < n \<and> rw_counted ((f(i := p)) j)} = Suc (card {j. j < n \<and> rw_counted (f j)})"
proof -
  have "{j. j < n \<and> rw_counted ((f(i := p)) j)} = insert i {j. j < n \<and> rw_counted (f j)}"
    using assms by auto
  with assms(3) show ?thesis by simp
qed

lemma card_counted_loss:
  fixes n i :: nat
  assumes "i < n" "\<not> rw_counted p" "rw_counted (f i)"
  shows "Suc (card {j. j < n \<and> rw_counted ((f(i := p)) j)}) = card {j. j < n \<and> rw_counted (f j)}"
proof -
  have "{j. j < n \<and> rw_counted (f j)} = insert i {j. j < n \<and> rw_counted ((f(i := p)) j)}"
    using assms by auto
  with assms(2) show ?thesis by simp
qed

lemma card_counted_bound:
  fixes n i :: nat
  assumes "i < n" "\<not> rw_counted (f i)"
  shows "card {j. j < n \<and> rw_counted (f j)} < n"
proof -
  have "{j. j < n \<and> rw_counted (f j)} \<subset> {..<n}" using assms by auto
  from psubset_card_mono [OF _ this] show ?thesis by simp
qed

lemma rw_inv_claim: "rw_inv n s \<Longrightarrow> rw_claims (rw_pcs s i) \<Longrightarrow> rw_claims (rw_pcs s j) \<Longrightarrow> j = i"
  unfolding rw_inv_def by blast

lemma rw_inv_held: "rw_inv n s \<Longrightarrow> rw_pcs s i = WrHeld \<Longrightarrow> rw_pcs s j \<noteq> RdHeld"
  unfolding rw_inv_def by blast

lemma rw_inv_count:
  "rw_inv n s \<Longrightarrow> unat (rw_readers (rw_lock s)) = card {j. j < n \<and> rw_counted (rw_pcs s j)}"
  unfolding rw_inv_def by blast

lemma rw_inv_idle: "rw_inv n s \<Longrightarrow> n \<le> i \<Longrightarrow> rw_pcs s i = RwIdle"
  unfolding rw_inv_def by blast

lemma rw_inv_writer:
  assumes "rw_inv n s"
  shows "rw_writer (rw_lock s) = 0 \<longleftrightarrow>
    \<not> rw_claims (rw_pcs s i) \<and> (\<forall>j. j \<noteq> i \<longrightarrow> \<not> rw_claims (rw_pcs s j))"
proof -
  from assms have "rw_writer (rw_lock s) = 0 \<longleftrightarrow> (\<forall>j. \<not> rw_claims (rw_pcs s j))"
    unfolding rw_inv_def by blast
  then show ?thesis by (metis (full_types))
qed

text \<open>The invariant of a state that differs from \<open>s\<close> at one thread and in the lock words.\<close>

lemma rw_inv_goto:
  assumes inv: "rw_inv n s" and i: "i < n"
    and count: "unat (rw_readers l) = card {j. j < n \<and> rw_counted (((rw_pcs s)(i := p)) j)}"
    and writer: "rw_writer l = 0 \<longleftrightarrow> \<not> rw_claims p \<and> (\<forall>j. j \<noteq> i \<longrightarrow> \<not> rw_claims (rw_pcs s j))"
    and claim: "\<And>j. rw_claims p \<Longrightarrow> rw_claims (rw_pcs s j) \<Longrightarrow> j = i"
    and rheld: "\<And>j. p = RdHeld \<Longrightarrow> rw_pcs s j \<noteq> WrHeld"
    and wheld: "\<And>j. p = WrHeld \<Longrightarrow> rw_pcs s j \<noteq> RdHeld"
  shows "rw_inv n (rw_goto i p (s\<lparr>rw_lock := l\<rparr>))"
proof -
  let ?f = "(rw_pcs s)(i := p)"
  have idle: "?f j = RwIdle" if "n \<le> j" for j
    using that i rw_inv_idle [OF inv that] by simp
  have one: "j = k" if "rw_claims (?f j)" "rw_claims (?f k)" for j k
  proof (cases "j = i \<or> k = i")
    case True
    with that claim show ?thesis by (auto split: if_splits)
  next
    case False
    with that rw_inv_claim [OF inv] show ?thesis by simp
  qed
  have excl: "?f k \<noteq> RdHeld" if "?f j = WrHeld" for j k
  proof (cases "j = i \<or> k = i")
    case True
    with that rheld wheld show ?thesis by (auto split: if_splits)
  next
    case False
    with that rw_inv_held [OF inv] show ?thesis by simp
  qed
  have flag: "rw_writer l = 0 \<longleftrightarrow> (\<forall>j. \<not> rw_claims (?f j))"
    using writer by (metis fun_upd_other fun_upd_same)
  have eqs: "rw_pcs (rw_goto i p (s\<lparr>rw_lock := l\<rparr>)) = ?f" "rw_lock (rw_goto i p (s\<lparr>rw_lock := l\<rparr>)) = l"
    by simp_all
  show ?thesis
    unfolding rw_inv_def eqs using idle one excl flag count by blast
qed

lemma rw_inv_move:
  assumes inv: "rw_inv n s" and i: "i < n"
    and count: "rw_counted p = rw_counted (rw_pcs s i)"
    and claim: "rw_claims p = rw_claims (rw_pcs s i)"
    and rheld: "\<And>j. p = RdHeld \<Longrightarrow> rw_pcs s j \<noteq> WrHeld"
    and wheld: "\<And>j. p = WrHeld \<Longrightarrow> rw_pcs s j \<noteq> RdHeld"
  shows "rw_inv n (rw_goto i p s)"
proof -
  have "rw_inv n (rw_goto i p (s\<lparr>rw_lock := rw_lock s\<rparr>))"
  proof (rule rw_inv_goto [OF inv i])
    show "unat (rw_readers (rw_lock s)) = card {j. j < n \<and> rw_counted (((rw_pcs s)(i := p)) j)}"
      using inv card_counted_same [of p "rw_pcs s" i n] count by (simp add: rw_inv_def)
    show "rw_writer (rw_lock s) = 0 \<longleftrightarrow>
        \<not> rw_claims p \<and> (\<forall>j. j \<noteq> i \<longrightarrow> \<not> rw_claims (rw_pcs s j))"
      using rw_inv_writer [OF inv, of i] claim by simp
    show "j = i" if "rw_claims p" "rw_claims (rw_pcs s j)" for j
      using that claim rw_inv_claim [OF inv] by simp
  qed (use rheld wheld in auto)
  then show ?thesis by simp
qed

lemma rw_inv_count_gain:
  assumes inv: "rw_inv n s" and n: "n < 2 ^ 32" and i: "i < n" and pc: "rw_pcs s i = RdInc"
  shows "rw_inv n (rw_goto i RdCheck (s\<lparr>rw_lock := rw_readers_inc (rw_lock s)\<rparr>))"
proof (rule rw_inv_goto [OF inv i])
  have nc: "\<not> rw_counted (rw_pcs s i)" using pc by (simp add: rw_counted_def)
  note r = rw_inv_count [OF inv]
  with card_counted_bound [of i n "rw_pcs s"] i nc n
  have "unat (rw_readers (rw_lock s) + 1) = unat (rw_readers (rw_lock s)) + 1"
    by (intro unat_Suc_small) simp
  moreover have "card {j. j < n \<and> rw_counted (((rw_pcs s)(i := RdCheck)) j)} =
      Suc (card {j. j < n \<and> rw_counted (rw_pcs s j)})"
    using i nc by (intro card_counted_gain) (simp_all add: rw_counted_def)
  ultimately show "unat (rw_readers (rw_readers_inc (rw_lock s))) =
      card {j. j < n \<and> rw_counted (((rw_pcs s)(i := RdCheck)) j)}"
    using r by simp
  have "\<not> rw_claims (rw_pcs s i)" using pc by (simp add: rw_claims_def)
  then show "rw_writer (rw_readers_inc (rw_lock s)) = 0 \<longleftrightarrow>
      \<not> rw_claims RdCheck \<and> (\<forall>j. j \<noteq> i \<longrightarrow> \<not> rw_claims (rw_pcs s j))"
    using rw_inv_writer [OF inv, of i] by (simp add: rw_claims_def [of RdCheck])
qed (simp_all add: rw_claims_def)

lemma rw_inv_count_loss:
  assumes inv: "rw_inv n s" and i: "i < n" and pc: "rw_counted (rw_pcs s i)"
    and p: "p \<in> {RwIdle, RdSpin}"
  shows "rw_inv n (rw_goto i p (s\<lparr>rw_lock := rw_readers_dec (rw_lock s)\<rparr>))"
proof (rule rw_inv_goto [OF inv i])
  have cl: "\<not> rw_claims (rw_pcs s i)" "\<not> rw_claims p"
    using pc p by (auto simp: rw_counted_def rw_claims_def)
  note r = rw_inv_count [OF inv]
  have "Suc (card {j. j < n \<and> rw_counted (((rw_pcs s)(i := p)) j)}) =
      card {j. j < n \<and> rw_counted (rw_pcs s j)}"
    using i pc p by (intro card_counted_loss) (auto simp: rw_counted_def)
  with r show "unat (rw_readers (rw_readers_dec (rw_lock s))) =
      card {j. j < n \<and> rw_counted (((rw_pcs s)(i := p)) j)}"
    by (simp add: unat_diff_le word_le_unat del: fun_upd_apply)
  show "rw_writer (rw_readers_dec (rw_lock s)) = 0 \<longleftrightarrow>
      \<not> rw_claims p \<and> (\<forall>j. j \<noteq> i \<longrightarrow> \<not> rw_claims (rw_pcs s j))"
    using rw_inv_writer [OF inv, of i] cl by simp
  show "j = i" if "rw_claims p" for j using that cl by simp
qed (use p in auto)

lemma rw_inv_raise:
  assumes inv: "rw_inv n s" and i: "i < n" and pc: "rw_pcs s i = WrSpin"
    and free: "rw_writer (rw_lock s) = 0"
  shows "rw_inv n (rw_goto i WrDrain (s\<lparr>rw_lock := (rw_lock s)\<lparr>rw_writer := 1\<rparr>\<rparr>))"
proof (rule rw_inv_goto [OF inv i])
  have none: "\<forall>j. \<not> rw_claims (rw_pcs s j)" using inv free by (simp add: rw_inv_def)
  show "unat (rw_readers ((rw_lock s)\<lparr>rw_writer := 1\<rparr>)) =
      card {j. j < n \<and> rw_counted (((rw_pcs s)(i := WrDrain)) j)}"
    using inv pc card_counted_same [of WrDrain "rw_pcs s" i n]
    by (simp add: rw_inv_def rw_counted_def)
  show "j = i" if "rw_claims (rw_pcs s j)" for j using that none by simp
qed (simp_all add: rw_claims_def)

lemma rw_inv_lower:
  assumes inv: "rw_inv n s" and i: "i < n" and pc: "rw_pcs s i = WrHeld"
  shows "rw_inv n (rw_goto i RwIdle (s\<lparr>rw_lock := (rw_lock s)\<lparr>rw_writer := 0\<rparr>\<rparr>))"
proof (rule rw_inv_goto [OF inv i])
  have "rw_claims (rw_pcs s i)" using pc by (simp add: rw_claims_def)
  with inv have only: "rw_claims (rw_pcs s j) \<Longrightarrow> j = i" for j by (rule rw_inv_claim)
  show "unat (rw_readers ((rw_lock s)\<lparr>rw_writer := 0\<rparr>)) =
      card {j. j < n \<and> rw_counted (((rw_pcs s)(i := RwIdle)) j)}"
    using inv pc card_counted_same [of RwIdle "rw_pcs s" i n]
    by (simp add: rw_inv_def rw_counted_def)
  show "rw_writer ((rw_lock s)\<lparr>rw_writer := 0\<rparr>) = 0 \<longleftrightarrow>
      \<not> rw_claims RwIdle \<and> (\<forall>j. j \<noteq> i \<longrightarrow> \<not> rw_claims (rw_pcs s j))"
    using only by (auto simp: rw_claims_def)
qed (simp_all add: rw_claims_def)

lemma rw_inv_enter_held:
  assumes inv: "rw_inv n s" and w: "rw_writer (rw_lock s) = 0"
  shows "rw_pcs s j \<noteq> WrHeld"
  using rw_inv_writer [OF inv, of j] w by (auto simp: rw_claims_def)

lemma rw_inv_drained:
  assumes inv: "rw_inv n s" and r: "rw_readers (rw_lock s) = 0"
  shows "rw_pcs s j \<noteq> RdHeld"
proof
  assume held: "rw_pcs s j = RdHeld"
  then have "j < n" using rw_inv_idle [OF inv, of j] by (metis not_less rw_pc.distinct(9))
  with held have "j \<in> {j. j < n \<and> rw_counted (rw_pcs s j)}" by (simp add: rw_counted_def)
  moreover have "finite {j. j < n \<and> rw_counted (rw_pcs s j)}" by simp
  ultimately have "card {j. j < n \<and> rw_counted (rw_pcs s j)} \<noteq> 0" by (metis card_0_eq empty_iff)
  with rw_inv_count [OF inv] r show False by simp
qed

lemma rw_inv_pause:
  assumes inv: "rw_inv n s" and w: "rw_writer (rw_lock s) \<noteq> 0"
  shows "rw_inv n (s\<lparr>rw_lock := (rw_lock s)\<lparr>rw_writer := 1\<rparr>\<rparr>)"
  using inv w unfolding rw_inv_def by simp

lemmas rw_pc_classes = rw_counted_def rw_claims_def

lemma rw_step_inv [kinv]:
  assumes step: "rw_step n s t" and inv: "rw_inv n s" and n: "n < 2 ^ 32"
  shows "rw_inv n t"
  using step
proof cases
  case (rd_call i) then show ?thesis using inv by (auto intro!: rw_inv_move simp: rw_pc_classes)
next
  case (rd_pause i) then show ?thesis using inv by simp
next
  case (rd_clear i) then show ?thesis using inv by (auto intro!: rw_inv_move simp: rw_pc_classes)
next
  case (rd_count i) then show ?thesis using inv n by (auto intro!: rw_inv_count_gain)
next
  case (rd_enter i) then show ?thesis using inv rw_inv_enter_held [OF inv]
    by (auto intro!: rw_inv_move simp: rw_pc_classes)
next
  case (rd_lost i) then show ?thesis using inv by (auto intro!: rw_inv_move simp: rw_pc_classes)
next
  case (rd_uncount i) then show ?thesis using inv
    by (auto intro!: rw_inv_count_loss simp: rw_counted_def)
next
  case (rd_unlock i l) then show ?thesis using inv
    by (auto intro!: rw_inv_count_loss simp: rw_counted_def rwlock_read_unlock_def)
next
  case (wr_call i) then show ?thesis using inv by (auto intro!: rw_inv_move simp: rw_pc_classes)
next
  case (wr_pause i) then show ?thesis using inv by (auto intro!: rw_inv_pause)
next
  case (wr_raise i) then show ?thesis using inv by (auto intro!: rw_inv_raise)
next
  case (wr_wait i) then show ?thesis using inv by simp
next
  case (wr_enter i) then show ?thesis using inv rw_inv_drained [OF inv]
    by (auto intro!: rw_inv_move simp: rw_pc_classes)
next
  case (wr_unlock i l) then show ?thesis using inv
    by (auto intro!: rw_inv_lower simp: rwlock_write_unlock_def)
qed

lemma rw_reachable_inv: "rw_reachable n s \<Longrightarrow> n < 2 ^ 32 \<Longrightarrow> rw_inv n s"
proof (induction rule: rw_reachable.induct)
  case (rw_start l l')
  then show ?case by (auto simp: rw_inv_def rwlock_init_def rw_pc_classes)
next
  case (rw_next s t)
  then show ?case by (blast intro: rw_step_inv)
qed

section \<open>Properties\<close>

text \<open>
  C26. Mutual exclusion of the spinlock: with any number of threads interleaving the atomic
  exchanges of \<^verbatim>\<open>spinlock_lock\<close> and the store of \<^verbatim>\<open>spinlock_unlock\<close> on a lock set up by
  \<^verbatim>\<open>spinlock_init\<close>, no two of them are in their critical section at once.
\<close>

theorem spinlock_mutual_exclusion:
  assumes "lock_reachable spinlock_try_lock spinlock_unlock (spinlock_init (Some l)) s"
    and "lock_pcs s i = Critical" and "j \<noteq> i"
  shows "lock_pcs s j \<noteq> Critical"
proof -
  have "spinlock_init (Some l) = Some \<lparr>sl_state = 0\<rparr>" by (simp add: spinlock_init_def)
  with assms show ?thesis using spinlock.mutual_exclusion [of s i j] by auto
qed

theorem spinlock_mutual_exclusion_witness:
  "lock_pcs \<lparr>the_lock = Some \<lparr>sl_state = 1\<rparr>, lock_pcs = (\<lambda>_. Idle)(7 := Critical)\<rparr> 3 \<noteq> Critical"
proof -
  let ?init = "spinlock_init (Some \<lparr>sl_state = 5\<rparr>)"
  let ?R = "lock_reachable spinlock_try_lock spinlock_unlock ?init"
  have "?R \<lparr>the_lock = ?init, lock_pcs = (\<lambda>_. Idle)\<rparr>" by (rule lk_start)
  from lk_next [OF this lk_call [of _ 7]]
  have "?R \<lparr>the_lock = ?init, lock_pcs = (\<lambda>_. Idle)(7 := Trying)\<rparr>" by simp
  from lk_next [OF this lk_take [of _ 7]]
  have r: "?R \<lparr>the_lock = Some \<lparr>sl_state = 1\<rparr>, lock_pcs = (\<lambda>_. Idle)(7 := Critical)\<rparr>"
    by (simp add: spinlock_init_def spinlock_try_lock_def)
  show ?thesis by (rule spinlock_mutual_exclusion [OF r, of 7 3]) simp_all
qed

text \<open>
  C27. The reader-writer lock excludes: while a thread holds the lock for writing, no other thread
  holds it for reading or for writing, for every interleaving of fewer than \<open>2\<^sup>3\<^sup>2\<close> threads.
\<close>

theorem rwlock_exclusion:
  assumes "rw_reachable n s" and "n < 2 ^ 32" and "rw_pcs s i = WrHeld" and "j \<noteq> i"
  shows "rw_pcs s j \<noteq> RdHeld \<and> rw_pcs s j \<noteq> WrHeld"
proof -
  have inv: "rw_inv n s" using assms(1,2) by (rule rw_reachable_inv)
  have "rw_claims (rw_pcs s i)" using assms(3) by (simp add: rw_claims_def)
  then have "rw_pcs s j \<noteq> WrHeld"
    using rw_inv_claim [OF inv, of i j] assms(4) by (auto simp: rw_claims_def)
  with rw_inv_held [OF inv assms(3)] show ?thesis by simp
qed

theorem rwlock_exclusion_witness:
  "rw_pcs \<lparr>rw_lock = \<lparr>rw_readers = 0, rw_writer = 1\<rparr>, rw_pcs = (\<lambda>_. RwIdle)(1 := WrHeld)\<rparr> 0 \<noteq> RdHeld \<and>
   rw_pcs \<lparr>rw_lock = \<lparr>rw_readers = 0, rw_writer = 1\<rparr>, rw_pcs = (\<lambda>_. RwIdle)(1 := WrHeld)\<rparr> 0 \<noteq> WrHeld"
proof -
  have "rw_reachable 2 \<lparr>rw_lock = \<lparr>rw_readers = 0, rw_writer = 0\<rparr>, rw_pcs = (\<lambda>_. RwIdle)\<rparr>"
    by (rule rw_start [of "\<lparr>rw_readers = 9, rw_writer = 9\<rparr>"]) (simp add: rwlock_init_def)
  from rw_next [OF this wr_call [of 1]] rw_goto_def
  have "rw_reachable 2 \<lparr>rw_lock = \<lparr>rw_readers = 0, rw_writer = 0\<rparr>, rw_pcs = (\<lambda>_. RwIdle)(1 := WrSpin)\<rparr>"
    by (simp add: rw_goto_def)
  from rw_next [OF this wr_raise [of 1]]
  have "rw_reachable 2 \<lparr>rw_lock = \<lparr>rw_readers = 0, rw_writer = 1\<rparr>, rw_pcs = (\<lambda>_. RwIdle)(1 := WrDrain)\<rparr>"
    by (simp add: rw_goto_def)
  from rw_next [OF this wr_enter [of 1]]
  have r: "rw_reachable 2 \<lparr>rw_lock = \<lparr>rw_readers = 0, rw_writer = 1\<rparr>, rw_pcs = (\<lambda>_. RwIdle)(1 := WrHeld)\<rparr>"
    by (simp add: rw_goto_def)
  show ?thesis by (rule rwlock_exclusion [OF r, of 1 0]) simp_all
qed

end
