(* ===== verification/Pmm.thy ===== *)
theory Pmm
  imports Prelude
begin

text \<open>
  The physical page allocator, kernel/mm/pmm.c: a binary buddy allocator over at most 65536
  pages.  Free blocks of each order are kept on a doubly linked list threaded through
  \<open>g_free_next\<close> and \<open>g_free_prev\<close>; every page knows the first page of the block it belongs to
  (\<open>g_page_owner\<close>), and that first page carries the block's state and order.

  The static arrays are total functions on their index type.  Loops are recursive functions with
  the loop variables as arguments; the calls that only print are left out.
\<close>

section \<open>State\<close>

definition PMM_MAX_PAGES :: u64 where "PMM_MAX_PAGES = 65536"
definition PMM_MAX_ORDER :: u8 where "PMM_MAX_ORDER = 16"
definition PMM_INVALID_INDEX :: u32 where "PMM_INVALID_INDEX = 0xFFFFFFFF"
definition PMM_BLOCK_UNUSED :: u8 where "PMM_BLOCK_UNUSED = 0"
definition PMM_BLOCK_FREE :: u8 where "PMM_BLOCK_FREE = 1"
definition PMM_BLOCK_ALLOCATED :: u8 where "PMM_BLOCK_ALLOCATED = 2"
definition PMM_BLOCK_RESERVED :: u8 where "PMM_BLOCK_RESERVED = 3"

record pmm =
  g_free_heads :: "u8 \<Rightarrow> u32"
  g_free_next :: "u32 \<Rightarrow> u32"
  g_free_prev :: "u32 \<Rightarrow> u32"
  g_page_owner :: "u32 \<Rightarrow> u32"
  g_block_state :: "u32 \<Rightarrow> u8"
  g_block_order :: "u32 \<Rightarrow> u8"
  g_base :: u64
  g_total_pages :: u64
  g_free_pages :: u64

section \<open>Blocks and free lists\<close>

definition block_pages :: "u8 \<Rightarrow> u32" where
  "block_pages order = push_bit (unat order) 1"

function max_order_loop :: "u8 \<Rightarrow> u64 \<Rightarrow> u8" where
  "max_order_loop order pages =
     (if order < PMM_MAX_ORDER then
        if push_bit (unat order + 1) 1 > pages then order
        else max_order_loop (order + 1) pages
      else order)"
  by pat_completeness auto
termination
  by (relation "measure (\<lambda>(order, pages). 16 - unat order)")
    (auto simp: PMM_MAX_ORDER_def word_less_unat unat_Suc_small)

declare max_order_loop.simps [simp del]

definition max_order_for_pages :: "u64 \<Rightarrow> u8" where
  "max_order_for_pages pages = max_order_loop 0 pages"

definition reset_allocator_state :: "pmm \<Rightarrow> pmm" where
  "reset_allocator_state s = s\<lparr>
     g_free_heads := (\<lambda>order. if order \<le> PMM_MAX_ORDER then PMM_INVALID_INDEX else g_free_heads s order),
     g_free_next := (\<lambda>page. if ucast page < PMM_MAX_PAGES then PMM_INVALID_INDEX else g_free_next s page),
     g_free_prev := (\<lambda>page. if ucast page < PMM_MAX_PAGES then PMM_INVALID_INDEX else g_free_prev s page),
     g_page_owner := (\<lambda>page. if ucast page < PMM_MAX_PAGES then PMM_INVALID_INDEX else g_page_owner s page),
     g_block_state := (\<lambda>page. if ucast page < PMM_MAX_PAGES then PMM_BLOCK_UNUSED else g_block_state s page),
     g_block_order := (\<lambda>page. if ucast page < PMM_MAX_PAGES then 0 else g_block_order s page)\<rparr>"

definition mark_block_owner :: "u32 \<Rightarrow> u8 \<Rightarrow> pmm \<Rightarrow> pmm" where
  "mark_block_owner start_page order s =
     s\<lparr>g_page_owner := fold (\<lambda>i owner. owner(start_page + of_nat i := start_page))
        [0..<unat (block_pages order)] (g_page_owner s)\<rparr>"

definition set_block :: "u32 \<Rightarrow> u8 \<Rightarrow> u8 \<Rightarrow> pmm \<Rightarrow> pmm" where
  "set_block start_page order state s =
     (let s1 = mark_block_owner start_page order s in
      s1\<lparr>g_block_order := (g_block_order s1)(start_page := order),
         g_block_state := (g_block_state s1)(start_page := state)\<rparr>)"

definition clear_block_head :: "u32 \<Rightarrow> pmm \<Rightarrow> pmm" where
  "clear_block_head start_page s =
     s\<lparr>g_block_order := (g_block_order s)(start_page := 0),
       g_block_state := (g_block_state s)(start_page := PMM_BLOCK_UNUSED)\<rparr>"

definition free_list_push :: "u8 \<Rightarrow> u32 \<Rightarrow> pmm \<Rightarrow> pmm" where
  "free_list_push order start_page s =
     (let head = g_free_heads s order;
          s1 = s\<lparr>g_free_prev := (g_free_prev s)(start_page := PMM_INVALID_INDEX),
                 g_free_next := (g_free_next s)(start_page := head)\<rparr>;
          s2 = (if head \<noteq> PMM_INVALID_INDEX
                then s1\<lparr>g_free_prev := (g_free_prev s1)(head := start_page)\<rparr> else s1)
      in s2\<lparr>g_free_heads := (g_free_heads s2)(order := start_page)\<rparr>)"

definition free_list_remove :: "u8 \<Rightarrow> u32 \<Rightarrow> pmm \<Rightarrow> pmm" where
  "free_list_remove order start_page s =
     (let prev = g_free_prev s start_page;
          nxt = g_free_next s start_page;
          s1 = (if prev \<noteq> PMM_INVALID_INDEX
                then s\<lparr>g_free_next := (g_free_next s)(prev := nxt)\<rparr>
                else s\<lparr>g_free_heads := (g_free_heads s)(order := nxt)\<rparr>);
          s2 = (if nxt \<noteq> PMM_INVALID_INDEX
                then s1\<lparr>g_free_prev := (g_free_prev s1)(nxt := prev)\<rparr> else s1)
      in s2\<lparr>g_free_prev := (g_free_prev s2)(start_page := PMM_INVALID_INDEX),
            g_free_next := (g_free_next s2)(start_page := PMM_INVALID_INDEX)\<rparr>)"

definition add_free_block :: "u32 \<Rightarrow> u8 \<Rightarrow> pmm \<Rightarrow> pmm" where
  "add_free_block start_page order s =
     (let s1 = set_block start_page order PMM_BLOCK_FREE s;
          s2 = free_list_push order start_page s1
      in s2\<lparr>g_free_pages := g_free_pages s2 + ucast (block_pages order)\<rparr>)"

definition remove_free_block :: "u32 \<Rightarrow> pmm \<Rightarrow> pmm" where
  "remove_free_block start_page s =
     (let order = g_block_order s start_page;
          s1 = free_list_remove order start_page s;
          s2 = s1\<lparr>g_free_pages := g_free_pages s1 - ucast (block_pages order)\<rparr>
      in clear_block_head start_page s2)"

section \<open>Allocating, freeing, reserving\<close>

text \<open>The \<^verbatim>\<open>while (order > target_order)\<close> loop that splits the block found.\<close>

function split_loop :: "u32 \<Rightarrow> u8 \<Rightarrow> u8 \<Rightarrow> pmm \<Rightarrow> pmm" where
  "split_loop block order target_order s =
     (if order > target_order then
        let half_pages = block_pages (order - 1);
            buddy = block + half_pages;
            order' = order - 1
        in split_loop block order' target_order (add_free_block buddy order' s)
      else s)"
  by pat_completeness auto
termination
  by (relation "measure (\<lambda>(block, order, target_order, s). unat order)")
    (auto simp: measure_unat word_less_unat unat_gt_0 intro!: measure_unat)

declare split_loop.simps [simp del]

function alloc_block_loop :: "u8 \<Rightarrow> u8 \<Rightarrow> pmm \<Rightarrow> u32 \<times> pmm" where
  "alloc_block_loop order target_order s =
     (if order \<le> PMM_MAX_ORDER then
        let block = g_free_heads s order in
        if block = PMM_INVALID_INDEX then alloc_block_loop (order + 1) target_order s
        else
          let s1 = remove_free_block block s;
              s2 = split_loop block order target_order s1
          in (block, set_block block target_order PMM_BLOCK_ALLOCATED s2)
      else (PMM_INVALID_INDEX, s))"
  by pat_completeness auto
termination
  by (relation "measure (\<lambda>(order, target_order, s). 17 - unat order)")
    (auto simp: PMM_MAX_ORDER_def word_le_unat unat_Suc_small)

declare alloc_block_loop.simps [simp del]

definition alloc_block :: "u8 \<Rightarrow> pmm \<Rightarrow> u32 \<times> pmm" where
  "alloc_block target_order s = alloc_block_loop target_order target_order s"

text \<open>The coalescing loop of \<^verbatim>\<open>free_block\<close>, with \<^verbatim>\<open>current\<close> and \<^verbatim>\<open>current_order\<close> as arguments.\<close>

function merge_loop :: "u32 \<Rightarrow> u8 \<Rightarrow> pmm \<Rightarrow> u32 \<times> u8 \<times> pmm" where
  "merge_loop current current_order s =
     (if current_order < PMM_MAX_ORDER then
        let buddy = current XOR block_pages current_order in
        if ucast buddy \<ge> g_total_pages s then (current, current_order, s)
        else if g_block_state s buddy \<noteq> PMM_BLOCK_FREE \<or> g_block_order s buddy \<noteq> current_order
        then (current, current_order, s)
        else
          let s1 = remove_free_block buddy s;
              s2 = clear_block_head current s1;
              s3 = clear_block_head buddy s2;
              current' = (if buddy < current then buddy else current);
              order' = current_order + 1
          in merge_loop current' order' (set_block current' order' PMM_BLOCK_FREE s3)
      else (current, current_order, s))"
  by pat_completeness auto
termination
  by (relation "measure (\<lambda>(current, current_order, s). 16 - unat current_order)")
    (auto simp: PMM_MAX_ORDER_def word_less_unat unat_Suc_small)

declare merge_loop.simps [simp del]

definition free_block :: "u32 \<Rightarrow> u8 \<Rightarrow> pmm \<Rightarrow> pmm" where
  "free_block start_page order s =
     (let s1 = set_block start_page order PMM_BLOCK_FREE s;
          (current, current_order, s2) = merge_loop start_page order s1
      in add_free_block current current_order s2)"

text \<open>The \<^verbatim>\<open>while (order > 0U)\<close> loop of \<^verbatim>\<open>reserve_page\<close>, halving towards the page.\<close>

function carve_loop :: "u32 \<Rightarrow> u32 \<Rightarrow> u8 \<Rightarrow> pmm \<Rightarrow> u32 \<times> pmm" where
  "carve_loop page current order s =
     (if order > 0 then
        let child_order = order - 1;
            half = block_pages child_order;
            buddy = current + half;
            (current', s1) =
              (if page < buddy then (current, add_free_block buddy child_order s)
               else (buddy, add_free_block current child_order s))
        in carve_loop page current' child_order
             (set_block current' child_order PMM_BLOCK_ALLOCATED s1)
      else (current, s))"
  by pat_completeness auto
termination
  by (relation "measure (\<lambda>(page, current, order, s). unat order)")
    (auto simp: word_less_unat unat_gt_0 intro!: measure_unat)

declare carve_loop.simps [simp del]

definition reserve_page :: "u32 \<Rightarrow> pmm \<Rightarrow> int \<times> pmm" where
  "reserve_page page s =
     (if ucast page \<ge> g_total_pages s then (0, s)
      else
        let head = g_page_owner s page in
        if head = PMM_INVALID_INDEX then (0, s)
        else if g_block_state s head = PMM_BLOCK_RESERVED then (1, s)
        else if g_block_state s head = PMM_BLOCK_ALLOCATED then (0, s)
        else if g_block_state s head \<noteq> PMM_BLOCK_FREE then (0, s)
        else
          let order = g_block_order s head;
              s1 = remove_free_block head s;
              (current, s2) = carve_loop page head order s1
          in (1, set_block current 0 PMM_BLOCK_RESERVED s2))"

section \<open>Seeding the free lists\<close>

text \<open>The inner loop of \<^verbatim>\<open>add_free_range\<close> that lowers the order until the page is aligned.\<close>

function align_order :: "u32 \<Rightarrow> u8 \<Rightarrow> u8" where
  "align_order page order =
     (if order > 0 \<and> page AND (block_pages order - 1) \<noteq> 0 then align_order page (order - 1)
      else order)"
  by pat_completeness auto
termination
  by (relation "measure (\<lambda>(page, order). unat order)")
    (auto simp: word_less_unat unat_gt_0 intro!: measure_unat)

declare align_order.simps [simp del]

text \<open>
  The outer loop takes a positive number of pages that fits into what remains, so it ends; the
  facts below say so and are what its termination proof needs.
\<close>

lemma unat_block_pages:
  assumes "unat k < 32"
  shows "unat (block_pages k) = 2 ^ unat k"
  unfolding block_pages_def using assms by (intro unat_push_bit_1) simp

lemma max_order_loop_spec:
  assumes "unat order \<le> 16" "2 ^ unat order \<le> unat pages"
  shows "unat (max_order_loop order pages) \<le> 16 \<and> 2 ^ unat (max_order_loop order pages) \<le> unat pages"
  using assms
proof (induction order pages rule: max_order_loop.induct)
  case (1 order pages)
  show ?case
  proof (cases "order < PMM_MAX_ORDER \<and> \<not> push_bit (unat order + 1) 1 > pages")
    case True
    then have lt: "unat order < 16" by (simp add: PMM_MAX_ORDER_def word_less_unat)
    then have u: "unat (order + 1) = unat order + 1" by (intro unat_Suc_small) simp
    have "unat (push_bit (unat order + 1) 1 :: u64) = 2 ^ (unat order + 1)"
      using lt by (intro unat_push_bit_1) simp
    with True have "2 ^ unat (order + 1) \<le> unat pages"
      by (simp add: u word_less_unat)
    with 1 True lt u show ?thesis by (simp add: max_order_loop.simps [of order])
  next
    case False
    with 1 show ?thesis by (auto simp: max_order_loop.simps [of order])
  qed
qed

lemma align_order_le: "unat (align_order page order) \<le> unat order"
proof (induction page order rule: align_order.induct)
  case (1 page order)
  show ?case
  proof (cases "order > 0 \<and> page AND (block_pages order - 1) \<noteq> 0")
    case True
    then have "unat (order - 1) \<le> unat order"
      by (metis less_imp_le measure_unat word_gt_0)
    with 1 True show ?thesis by (simp add: align_order.simps [of page order])
  qed (auto simp: align_order.simps [of page order])
qed

function add_free_range :: "u32 \<Rightarrow> u32 \<Rightarrow> pmm \<Rightarrow> pmm" where
  "add_free_range page remaining s =
     (if remaining > 0 then
        let order = align_order page (max_order_for_pages (ucast remaining))
        in add_free_range (page + block_pages order) (remaining - block_pages order)
             (add_free_block page order s)
      else s)"
  by pat_completeness auto

lemma range_order_fits:
  fixes remaining page :: u32
  assumes "remaining > 0"
  defines "order \<equiv> align_order page (max_order_for_pages (ucast remaining))"
  shows "unat order \<le> 16" "unat (block_pages order) \<le> unat remaining" "0 < unat (block_pages order)"
proof -
  let ?m = "max_order_for_pages (ucast remaining)"
  have "unat (ucast remaining :: u64) = unat remaining" by (simp add: unat_ucast_up)
  with max_order_loop_spec [of 0 "ucast remaining"] assms
  have m: "unat ?m \<le> 16" "2 ^ unat ?m \<le> unat remaining"
    by (simp_all add: max_order_for_pages_def word_less_unat)
  have le: "unat order \<le> unat ?m" unfolding order_def by (rule align_order_le)
  with m show o: "unat order \<le> 16" by simp
  have "(2::nat) ^ unat order \<le> unat remaining"
    using le m(2) by (meson le_trans one_le_numeral power_increasing)
  with o show "unat (block_pages order) \<le> unat remaining" "0 < unat (block_pages order)"
    by (simp_all add: unat_block_pages)
qed

termination add_free_range
proof (relation "measure (\<lambda>(page, remaining, s). unat remaining)", goal_cases)
  case (2 page remaining s order)
  with range_order_fits [of remaining page] show ?case
    by (simp add: unat_diff_le word_le_unat)
qed simp

declare add_free_range.simps [simp del]

section \<open>The public interface\<close>

definition pmm_init :: "u64 \<Rightarrow> u64 \<Rightarrow> pmm \<Rightarrow> pmm" where
  "pmm_init base memory_size s =
     (let end_addr = base + memory_size;
          gb = (base + (MM_PAGE_SIZE - 1)) AND NOT (MM_PAGE_SIZE - 1);
          total = (if end_addr < base \<or> gb \<ge> end_addr then 0 else (end_addr - gb) div MM_PAGE_SIZE);
          total' = (if total > PMM_MAX_PAGES then PMM_MAX_PAGES else total);
          s1 = reset_allocator_state (s\<lparr>g_base := gb, g_total_pages := total', g_free_pages := 0\<rparr>)
      in if total' > 0 then snd (reserve_page 0 (add_free_range 0 (ucast total') s1)) else s1)"

definition pmm_alloc_page :: "pmm \<Rightarrow> u64 \<times> pmm" where
  "pmm_alloc_page s =
     (let (block, s1) = alloc_block 0 s in
      if block = PMM_INVALID_INDEX then (0, s1)
      else (g_base s1 + ucast block * MM_PAGE_SIZE, s1))"

definition pmm_free_page :: "u64 \<Rightarrow> pmm \<Rightarrow> pmm" where
  "pmm_free_page addr s =
     (if g_total_pages s = 0 \<or> addr < g_base s then s
      else let diff = addr - g_base s in
        if diff mod MM_PAGE_SIZE \<noteq> 0 then s
        else let page = diff div MM_PAGE_SIZE in
          if page \<ge> g_total_pages s then s
          else let page_index = ucast page :: u32 in
            if g_block_state s page_index \<noteq> PMM_BLOCK_ALLOCATED \<or> g_block_order s page_index \<noteq> 0 then s
            else free_block page_index 0 (clear_block_head page_index s))"

function reserve_loop :: "u32 \<Rightarrow> u32 \<Rightarrow> pmm \<Rightarrow> pmm" where
  "reserve_loop page last_page s =
     (if page < last_page then reserve_loop (page + 1) last_page (snd (reserve_page page s)) else s)"
  by pat_completeness auto
termination
  by (relation "measure (\<lambda>(page, last_page, s). unat last_page - unat page)")
    (auto simp: unat_Suc_less word_less_unat)

declare reserve_loop.simps [simp del]

definition pmm_reserve_range :: "u64 \<Rightarrow> u64 \<Rightarrow> pmm \<Rightarrow> pmm" where
  "pmm_reserve_range base sz s =
     (if sz = 0 \<or> g_total_pages s = 0 then s
      else
        let end0 = base + sz;
            end_addr = (if end0 < base then UINT64_MAX else end0);
            aligned_start = base AND NOT (MM_PAGE_SIZE - 1);
            aligned_end =
              (if end_addr > UINT64_MAX - (MM_PAGE_SIZE - 1) then UINT64_MAX AND NOT (MM_PAGE_SIZE - 1)
               else (end_addr + (MM_PAGE_SIZE - 1)) AND NOT (MM_PAGE_SIZE - 1))
        in if aligned_end \<le> g_base s then s
           else
             let start' = (if aligned_start < g_base s then g_base s else aligned_start);
                 pmm_end = g_base s + g_total_pages s * MM_PAGE_SIZE
             in if start' \<ge> pmm_end then s
                else
                  let end' = (if aligned_end > pmm_end then pmm_end else aligned_end);
                      first_page = ucast ((start' - g_base s) div MM_PAGE_SIZE) :: u32;
                      last_page = ucast ((end' - g_base s) div MM_PAGE_SIZE) :: u32
                  in reserve_loop first_page last_page s)"

definition pmm_total_pages :: "pmm \<Rightarrow> u64" where
  "pmm_total_pages s = g_total_pages s"

definition pmm_free_pages :: "pmm \<Rightarrow> u64" where
  "pmm_free_pages s = g_free_pages s"

end
