(* ===== verification/Pmm_Inv.thy ===== *)
theory Pmm_Inv
  imports Pmm
begin

text \<open>
  The invariant of the page allocator and its preservation.  A state is well-formed up to a hole:
  a set of pages that an operation has taken out of the block structure and not yet put back.
  Every step of the allocator digs a hole, fills part of it, or works inside it, so each primitive
  has one lemma, and the public operations start and end with the empty hole.
\<close>

section \<open>Doubly linked lists\<close>

text \<open>
  \<open>seg nx pv p c xs q e\<close>: following \<open>nx\<close> from \<open>c\<close> visits \<open>xs\<close> and stops at \<open>e\<close>; \<open>pv\<close> points
  back along the way, from the first element to \<open>p\<close>; \<open>q\<close> is the last element (or \<open>p\<close>).
\<close>

primrec seg :: "(u32 \<Rightarrow> u32) \<Rightarrow> (u32 \<Rightarrow> u32) \<Rightarrow> u32 \<Rightarrow> u32 \<Rightarrow> u32 list \<Rightarrow> u32 \<Rightarrow> u32 \<Rightarrow> bool" where
  "seg nx pv p c [] q e \<longleftrightarrow> p = q \<and> c = e"
| "seg nx pv p c (x # xs) q e \<longleftrightarrow> c = x \<and> pv x = p \<and> seg nx pv x (nx x) xs q e"

definition flist :: "pmm \<Rightarrow> u8 \<Rightarrow> u32 list \<Rightarrow> bool" where
  "flist s k xs \<longleftrightarrow> distinct xs \<and> PMM_INVALID_INDEX \<notin> set xs \<and>
     (\<exists>q. seg (g_free_next s) (g_free_prev s) PMM_INVALID_INDEX (g_free_heads s k) xs q PMM_INVALID_INDEX)"

lemma seg_append:
  "seg nx pv p c (xs @ ys) q e \<longleftrightarrow> (\<exists>r m. seg nx pv p c xs r m \<and> seg nx pv r m ys q e)"
  by (induction xs arbitrary: p c) auto

lemma seg_cong:
  assumes "\<And>x. x \<in> set xs \<Longrightarrow> nx' x = nx x \<and> pv' x = pv x"
  shows "seg nx' pv' p c xs q e = seg nx pv p c xs q e"
  using assms by (induction xs arbitrary: p c) auto

lemma seg_last: "seg nx pv p c xs q e \<Longrightarrow> q = (if xs = [] then p else last xs)"
  by (induction xs arbitrary: p c) auto

lemma seg_first: "seg nx pv p c xs q e \<Longrightarrow> c = (if xs = [] then e else hd xs)"
  by (cases xs) auto

lemma seg_set_next:
  assumes "seg nx pv p c xs q e" "distinct xs" "xs \<noteq> []"
  shows "seg (nx(q := e')) pv p c xs q e'"
  using assms
proof (induction xs arbitrary: p c)
  case (Cons x xs)
  show ?case
  proof (cases "xs = []")
    case True
    with Cons.prems show ?thesis by auto
  next
    case False
    with Cons.prems have "seg (nx(q := e')) pv x (nx x) xs q e'" by (intro Cons.IH) auto
    moreover have "q \<noteq> x" using False Cons.prems seg_last [of nx pv x "nx x" xs q e] by auto
    ultimately show ?thesis using Cons.prems by (simp add: fun_upd_def)
  qed
qed simp

lemma seg_frame:
  assumes "seg nx pv p c xs q e" "\<And>x. x \<in> set xs \<Longrightarrow> nx' x = nx x \<and> pv' x = pv x"
  shows "seg nx' pv' p c xs q e"
  using assms seg_cong [of xs nx' nx pv' pv p c q e] by blast

lemma seg_set_prev:
  assumes "seg nx pv p c xs q e" "distinct xs" "xs \<noteq> []"
  shows "seg nx (pv(c := p')) p' c xs q e"
proof (cases xs)
  case (Cons x ys)
  with assms have x: "seg nx pv x (nx x) ys q e" "x \<notin> set ys" "c = x" by auto
  from x(1) have "seg nx (pv(x := p')) x (nx x) ys q e"
    by (rule seg_frame) (use x(2) in auto)
  with Cons x(3) show ?thesis by (simp add: fun_upd_def)
qed (use assms in simp)

lemma flist_frame:
  assumes "flist s k xs" "g_free_heads t k = g_free_heads s k"
    "\<And>x. x \<in> set xs \<Longrightarrow> g_free_next t x = g_free_next s x \<and> g_free_prev t x = g_free_prev s x"
  shows "flist t k xs"
  using assms seg_frame [of "g_free_next s" "g_free_prev s" _ _ xs _ _ "g_free_next t" "g_free_prev t"]
  unfolding flist_def by metis

lemma flist_head: "flist s k xs \<Longrightarrow> g_free_heads s k = (if xs = [] then PMM_INVALID_INDEX else hd xs)"
  unfolding flist_def using seg_first by blast

lemma flist_push_same:
  assumes fl: "flist s k xs" and x: "x \<notin> set xs" "x \<noteq> PMM_INVALID_INDEX"
  shows "flist (free_list_push k x s) k (x # xs)"
proof -
  let ?h = "g_free_heads s k"
  from fl obtain q where q: "seg (g_free_next s) (g_free_prev s) PMM_INVALID_INDEX ?h xs q PMM_INVALID_INDEX"
    and d: "distinct xs" "PMM_INVALID_INDEX \<notin> set xs" unfolding flist_def by blast
  let ?t = "free_list_push k x s"
  show ?thesis
  proof (cases "xs = []")
    case True
    with q have h: "?h = PMM_INVALID_INDEX" by simp
    with True x show ?thesis by (auto simp: flist_def free_list_push_def)
  next
    case False
    with seg_first [OF q] d have h: "?h \<noteq> PMM_INVALID_INDEX" "?h \<in> set xs" by (cases xs; auto)+
    with x have hx: "?h \<noteq> x" by auto
    from seg_set_prev [OF q d(1) False, of x]
    have "seg (g_free_next s) ((g_free_prev s)(?h := x)) x ?h xs q PMM_INVALID_INDEX" .
    then have "seg (g_free_next ?t) (g_free_prev ?t) x ?h xs q PMM_INVALID_INDEX"
      by (rule seg_frame) (use x h in \<open>auto simp: free_list_push_def Let_def\<close>)
    then show ?thesis using x d h hx
      by (auto simp: flist_def free_list_push_def Let_def)
  qed
qed

lemma flist_push_other:
  assumes fl: "flist s j ys" and jk: "j \<noteq> k" and x: "x \<notin> set ys" and h: "g_free_heads s k \<notin> set ys"
  shows "flist (free_list_push k x s) j ys"
  by (rule flist_frame [OF fl]) (use assms in \<open>auto simp: free_list_push_def Let_def\<close>)

lemma flist_remove_same:
  assumes fl: "flist s k (as @ x # bs)"
  shows "flist (free_list_remove k x s) k (as @ bs)"
proof -
  let ?nx = "g_free_next s" and ?pv = "g_free_prev s" and ?t = "free_list_remove k x s"
  let ?I = PMM_INVALID_INDEX
  from fl obtain q where q: "seg ?nx ?pv ?I (g_free_heads s k) (as @ x # bs) q ?I"
    and d: "distinct (as @ x # bs)" "?I \<notin> set (as @ x # bs)" unfolding flist_def by blast
  then obtain r where as: "seg ?nx ?pv ?I (g_free_heads s k) as r x" and px: "?pv x = r"
    and bs: "seg ?nx ?pv x (?nx x) bs q ?I" by (auto simp: seg_append)
  have r: "r = (if as = [] then ?I else last as)" using seg_last [OF as] .
  have n: "?nx x = (if bs = [] then ?I else hd bs)" using seg_first [OF bs] .
  have rI: "r = ?I \<longleftrightarrow> as = []" using r d by (cases as rule: rev_cases) auto
  have nI: "?nx x = ?I \<longleftrightarrow> bs = []" using n d by (cases bs) auto
  have rb: "r \<notin> set bs" using r d by (cases as rule: rev_cases) auto
  have na: "?nx x \<notin> set as" using n d by (cases bs) auto
  have xab: "x \<notin> set as" "x \<notin> set bs" using d by auto
  have one: "seg (g_free_next ?t) (g_free_prev ?t) ?I (g_free_heads ?t k) as r (?nx x)"
  proof (cases "as = []")
    case True
    with r px show ?thesis by (simp add: free_list_remove_def Let_def)
  next
    case False
    from seg_set_next [OF as _ False, of "?nx x"] d
    have "seg (?nx(r := ?nx x)) ?pv ?I (g_free_heads s k) as r (?nx x)" by simp
    then have "seg (g_free_next ?t) (g_free_prev ?t) ?I (g_free_heads s k) as r (?nx x)"
      by (rule seg_frame) (use False rI px na xab in \<open>auto simp: free_list_remove_def Let_def\<close>)
    moreover have "g_free_heads ?t k = g_free_heads s k"
      using False rI px by (simp add: free_list_remove_def Let_def)
    ultimately show ?thesis by simp
  qed
  have "\<exists>q'. seg (g_free_next ?t) (g_free_prev ?t) r (?nx x) bs q' ?I"
  proof (cases "bs = []")
    case True
    with n show ?thesis by simp
  next
    case False
    from seg_set_prev [OF bs _ False, of r] d
    have "seg ?nx (?pv(?nx x := r)) r (?nx x) bs q ?I" by simp
    then have "seg (g_free_next ?t) (g_free_prev ?t) r (?nx x) bs q ?I"
      by (rule seg_frame) (use False nI px rb xab in \<open>auto simp: free_list_remove_def Let_def\<close>)
    then show ?thesis ..
  qed
  with one d show ?thesis unfolding flist_def by (auto simp: seg_append)
qed

lemma flist_remove_other:
  assumes fl: "flist s j ys" and jk: "j \<noteq> k" and xk: "flist s k xs" "x \<in> set xs"
    and disj: "set xs \<inter> set ys = {}" and yI: "PMM_INVALID_INDEX \<notin> set ys"
  shows "flist (free_list_remove k x s) j ys"
proof -
  from xk(2) obtain as bs where xs: "xs = as @ x # bs" by (meson split_list)
  from xk(1) xs obtain q r where "seg (g_free_next s) (g_free_prev s) PMM_INVALID_INDEX (g_free_heads s k) as r x"
    "g_free_prev s x = r" "seg (g_free_next s) (g_free_prev s) x (g_free_next s x) bs q PMM_INVALID_INDEX"
    by (auto simp: flist_def seg_append)
  then have "g_free_prev s x = (if as = [] then PMM_INVALID_INDEX else last as)"
    "g_free_next s x = (if bs = [] then PMM_INVALID_INDEX else hd bs)"
    using seg_last seg_first by blast+
  with xs disj yI have "g_free_prev s x \<notin> set ys" "g_free_next s x \<notin> set ys" "x \<notin> set ys"
    by (cases as rule: rev_cases; cases bs; auto)+
  then show ?thesis
    by (intro flist_frame [OF fl]) (use jk in \<open>auto simp: free_list_remove_def Let_def\<close>)
qed

section \<open>Blocks\<close>

definition blk :: "u32 \<Rightarrow> u8 \<Rightarrow> u32 set" where
  "blk h k = {p. unat h \<le> unat p \<and> unat p < unat h + 2 ^ unat k}"

lemma blk_self [simp]: "h \<in> blk h k"
  by (simp add: blk_def)

lemma blk_0 [simp]: "blk h 0 = {h}"
  by (auto simp: blk_def word_eq_unat)

lemma finite_words [simp]: "finite (A :: 'a::len word set)"
  by (rule finite_subset [OF subset_UNIV]) simp

lemma card_blk:
  assumes "unat h + 2 ^ unat k \<le> 2 ^ 32"
  shows "card (blk h k) = 2 ^ unat k"
proof -
  have "unat ` blk h k = {unat h ..< unat h + 2 ^ unat k}"
  proof
    show "{unat h ..< unat h + 2 ^ unat k} \<subseteq> unat ` blk h k"
    proof
      fix i assume i: "i \<in> {unat h ..< unat h + 2 ^ unat k}"
      with assms have "unat (of_nat i :: u32) = i"
        by (simp add: unsigned_of_nat take_bit_nat_eq_self)
      with i show "i \<in> unat ` blk h k"
        by (intro image_eqI [of _ _ "of_nat i"]) (simp_all add: blk_def)
    qed
  qed (auto simp: blk_def)
  moreover have "inj_on unat (blk h k)" by (simp add: inj_on_def word_eq_unat)
  ultimately show ?thesis by (metis card_atLeastLessThan card_image diff_add_inverse)
qed

lemma fold_mark_owner:
  "fold (\<lambda>i owner. owner(h + of_nat i := h)) [0..<m] f p =
     (if p \<in> (\<lambda>i. h + of_nat i) ` {..<m} then h else f p)"
proof (induction m)
  case (Suc m)
  then show ?case by (auto simp: lessThan_Suc)
qed simp

lemma offset_image_blk:
  assumes "unat h + 2 ^ unat k \<le> 2 ^ 32"
  shows "(\<lambda>i. h + of_nat i) ` {..<2 ^ unat k} = blk h k"
proof -
  have off: "unat (h + of_nat i) = unat h + i" if "i < 2 ^ unat k" for i
  proof -
    have "unat (of_nat i :: u32) = i" using that assms by (simp add: unsigned_of_nat take_bit_nat_eq_self)
    with that assms show ?thesis by (subst unat_add_small) simp_all
  qed
  have "p \<in> (\<lambda>i. h + of_nat i) ` {..<2 ^ unat k}" if "p \<in> blk h k" for p
  proof (rule image_eqI)
    from that show i: "unat p - unat h \<in> {..<2 ^ unat k}" by (auto simp: blk_def)
    with that show "p = h + of_nat (unat p - unat h)" by (simp add: word_eq_unat off blk_def)
  qed
  then show ?thesis by (auto simp: blk_def off)
qed

lemma mark_owner_apply:
  assumes "unat k \<le> 16" "unat h + 2 ^ unat k \<le> 2 ^ 32"
  shows "g_page_owner (mark_block_owner h k s) p = (if p \<in> blk h k then h else g_page_owner s p)"
  using assms by (simp add: mark_block_owner_def fold_mark_owner unat_block_pages offset_image_blk)

lemma mark_owner_frame [simp]:
  "g_free_heads (mark_block_owner h k s) = g_free_heads s"
  "g_free_next (mark_block_owner h k s) = g_free_next s"
  "g_free_prev (mark_block_owner h k s) = g_free_prev s"
  "g_block_state (mark_block_owner h k s) = g_block_state s"
  "g_block_order (mark_block_owner h k s) = g_block_order s"
  "g_base (mark_block_owner h k s) = g_base s"
  "g_total_pages (mark_block_owner h k s) = g_total_pages s"
  "g_free_pages (mark_block_owner h k s) = g_free_pages s"
  by (simp_all add: mark_block_owner_def)

lemma set_block_fields [simp]:
  "g_free_heads (set_block h k st s) = g_free_heads s"
  "g_free_next (set_block h k st s) = g_free_next s"
  "g_free_prev (set_block h k st s) = g_free_prev s"
  "g_block_state (set_block h k st s) = (g_block_state s)(h := st)"
  "g_block_order (set_block h k st s) = (g_block_order s)(h := k)"
  "g_base (set_block h k st s) = g_base s"
  "g_total_pages (set_block h k st s) = g_total_pages s"
  "g_free_pages (set_block h k st s) = g_free_pages s"
  by (simp_all add: set_block_def Let_def)

lemma set_block_owner:
  assumes "unat k \<le> 16" "unat h + 2 ^ unat k \<le> 2 ^ 32"
  shows "g_page_owner (set_block h k st s) p = (if p \<in> blk h k then h else g_page_owner s p)"
  using mark_owner_apply [OF assms, of s p] by (simp add: set_block_def Let_def)

lemma clear_block_head_fields [simp]:
  "g_free_heads (clear_block_head h s) = g_free_heads s"
  "g_free_next (clear_block_head h s) = g_free_next s"
  "g_free_prev (clear_block_head h s) = g_free_prev s"
  "g_page_owner (clear_block_head h s) = g_page_owner s"
  "g_block_state (clear_block_head h s) = (g_block_state s)(h := PMM_BLOCK_UNUSED)"
  "g_block_order (clear_block_head h s) = (g_block_order s)(h := 0)"
  "g_base (clear_block_head h s) = g_base s"
  "g_total_pages (clear_block_head h s) = g_total_pages s"
  "g_free_pages (clear_block_head h s) = g_free_pages s"
  by (simp_all add: clear_block_head_def)

lemma free_list_push_frame [simp]:
  "g_page_owner (free_list_push k h s) = g_page_owner s"
  "g_block_state (free_list_push k h s) = g_block_state s"
  "g_block_order (free_list_push k h s) = g_block_order s"
  "g_base (free_list_push k h s) = g_base s"
  "g_total_pages (free_list_push k h s) = g_total_pages s"
  "g_free_pages (free_list_push k h s) = g_free_pages s"
  by (simp_all add: free_list_push_def Let_def)

lemma free_list_remove_frame [simp]:
  "g_page_owner (free_list_remove k h s) = g_page_owner s"
  "g_block_state (free_list_remove k h s) = g_block_state s"
  "g_block_order (free_list_remove k h s) = g_block_order s"
  "g_base (free_list_remove k h s) = g_base s"
  "g_total_pages (free_list_remove k h s) = g_total_pages s"
  "g_free_pages (free_list_remove k h s) = g_free_pages s"
  by (simp_all add: free_list_remove_def Let_def)

section \<open>The invariant\<close>

abbreviation pages :: "pmm \<Rightarrow> nat" where
  "pages s \<equiv> unat (g_total_pages s)"

definition head_ok :: "u32 set \<Rightarrow> pmm \<Rightarrow> u32 \<Rightarrow> bool" where
  "head_ok H s h \<longleftrightarrow>
     unat (g_block_order s h) \<le> 16 \<and> 2 ^ unat (g_block_order s h) dvd unat h \<and>
     unat h + 2 ^ unat (g_block_order s h) \<le> pages s \<and>
     (\<forall>p\<in>blk h (g_block_order s h). g_page_owner s p = h \<and> p \<notin> H) \<and>
     g_block_state s h \<in> {PMM_BLOCK_FREE, PMM_BLOCK_ALLOCATED, PMM_BLOCK_RESERVED} \<and>
     (g_block_state s h \<noteq> PMM_BLOCK_FREE \<longrightarrow> g_block_order s h = 0)"

definition owner_ok :: "u32 set \<Rightarrow> pmm \<Rightarrow> u32 \<Rightarrow> bool" where
  "owner_ok H s p \<longleftrightarrow>
     (let h = g_page_owner s p in
      g_block_state s h \<noteq> PMM_BLOCK_UNUSED \<and> h \<notin> H \<and> p \<in> blk h (g_block_order s h))"

text \<open>
  \<open>H\<close> is the hole; \<open>S\<close> the pages of the hole whose head fields may be set.
\<close>

definition blocks_wf :: "u32 set \<Rightarrow> u32 set \<Rightarrow> pmm \<Rightarrow> bool" where
  "blocks_wf H S s \<longleftrightarrow>
     pages s \<le> 65536 \<and> (\<forall>p\<in>H. unat p < pages s) \<and> S \<subseteq> H \<and>
     (\<forall>p. unat p < pages s \<longrightarrow> p \<notin> H \<longrightarrow> owner_ok H s p) \<and>
     (\<forall>h. unat h < pages s \<longrightarrow> h \<notin> H \<longrightarrow> g_block_state s h \<noteq> PMM_BLOCK_UNUSED \<longrightarrow> head_ok H s h) \<and>
     (\<forall>h\<in>H. g_block_state s h \<noteq> PMM_BLOCK_UNUSED \<longrightarrow> h \<in> S)"

definition freeset :: "u32 set \<Rightarrow> pmm \<Rightarrow> u8 \<Rightarrow> u32 set" where
  "freeset H s k =
     {h. unat h < pages s \<and> h \<notin> H \<and> g_block_state s h = PMM_BLOCK_FREE \<and> g_block_order s h = k}"

definition lists_wf :: "u32 set \<Rightarrow> pmm \<Rightarrow> bool" where
  "lists_wf H s \<longleftrightarrow> (\<exists>L. \<forall>k. unat k \<le> 16 \<longrightarrow> flist s k (L k) \<and> set (L k) = freeset H s k)"

definition free_page_set :: "u32 set \<Rightarrow> pmm \<Rightarrow> u32 set" where
  "free_page_set H s =
     {p. unat p < pages s \<and> p \<notin> H \<and> g_block_state s (g_page_owner s p) = PMM_BLOCK_FREE}"

definition count_wf :: "u32 set \<Rightarrow> pmm \<Rightarrow> bool" where
  "count_wf H s \<longleftrightarrow> unat (g_free_pages s) = card (free_page_set H s)"

definition pmm_wf :: "u32 set \<Rightarrow> u32 set \<Rightarrow> pmm \<Rightarrow> bool" where
  "pmm_wf H S s \<longleftrightarrow> blocks_wf H S s \<and> lists_wf H s \<and> count_wf H s"

lemma block_states [simp]:
  "PMM_BLOCK_FREE \<noteq> PMM_BLOCK_UNUSED" "PMM_BLOCK_ALLOCATED \<noteq> PMM_BLOCK_UNUSED"
  "PMM_BLOCK_RESERVED \<noteq> PMM_BLOCK_UNUSED" "PMM_BLOCK_FREE \<noteq> PMM_BLOCK_ALLOCATED"
  "PMM_BLOCK_FREE \<noteq> PMM_BLOCK_RESERVED" "PMM_BLOCK_ALLOCATED \<noteq> PMM_BLOCK_RESERVED"
  "PMM_BLOCK_UNUSED \<noteq> PMM_BLOCK_FREE" "PMM_BLOCK_UNUSED \<noteq> PMM_BLOCK_ALLOCATED"
  "PMM_BLOCK_UNUSED \<noteq> PMM_BLOCK_RESERVED" "PMM_BLOCK_ALLOCATED \<noteq> PMM_BLOCK_FREE"
  "PMM_BLOCK_RESERVED \<noteq> PMM_BLOCK_FREE" "PMM_BLOCK_RESERVED \<noteq> PMM_BLOCK_ALLOCATED"
  by (simp_all add: PMM_BLOCK_FREE_def PMM_BLOCK_UNUSED_def PMM_BLOCK_ALLOCATED_def PMM_BLOCK_RESERVED_def)

lemma blocks_wfD:
  assumes "blocks_wf H S s"
  shows "pages s \<le> 65536" "\<And>p. p \<in> H \<Longrightarrow> unat p < pages s" "S \<subseteq> H"
    "\<And>p. unat p < pages s \<Longrightarrow> p \<notin> H \<Longrightarrow> owner_ok H s p"
    "\<And>h. unat h < pages s \<Longrightarrow> h \<notin> H \<Longrightarrow> g_block_state s h \<noteq> PMM_BLOCK_UNUSED \<Longrightarrow> head_ok H s h"
    "\<And>h. h \<in> H \<Longrightarrow> g_block_state s h \<noteq> PMM_BLOCK_UNUSED \<Longrightarrow> h \<in> S"
  using assms unfolding blocks_wf_def by blast+

lemma owner_okD:
  assumes "owner_ok H s p"
  shows "g_block_state s (g_page_owner s p) \<noteq> PMM_BLOCK_UNUSED" "g_page_owner s p \<notin> H"
    "p \<in> blk (g_page_owner s p) (g_block_order s (g_page_owner s p))"
  using assms by (simp_all add: owner_ok_def Let_def)

text \<open>A block that could be put back into the hole.\<close>

definition fits :: "u32 set \<Rightarrow> pmm \<Rightarrow> u32 \<Rightarrow> u8 \<Rightarrow> bool" where
  "fits H s h k \<longleftrightarrow> blk h k \<subseteq> H \<and> unat k \<le> 16 \<and> 2 ^ unat k dvd unat h \<and> unat h + 2 ^ unat k \<le> pages s"

lemma fits_room: "fits H s h k \<Longrightarrow> pages s \<le> 65536 \<Longrightarrow> unat k \<le> 16 \<and> unat h + 2 ^ unat k \<le> 2 ^ 32"
  by (simp add: fits_def)

lemma head_of_owner:
  assumes wf: "blocks_wf H S s" and p: "unat p < pages s" "p \<notin> H"
  shows "unat (g_page_owner s p) < pages s" "head_ok H s (g_page_owner s p)"
proof -
  note o = owner_okD [OF blocks_wfD(4) [OF wf p]]
  from o(3) p show "unat (g_page_owner s p) < pages s" by (simp add: blk_def)
  with o blocks_wfD(5) [OF wf] show "head_ok H s (g_page_owner s p)" by blast
qed

lemma heads_disjoint:
  assumes wf: "blocks_wf H S s"
    and h: "unat h < pages s" "h \<notin> H" "g_block_state s h \<noteq> PMM_BLOCK_UNUSED"
    and p: "p \<in> blk h (g_block_order s h)"
  shows "g_page_owner s p = h" "p \<notin> H" "unat p < pages s"
  using blocks_wfD(5) [OF wf h] p by (auto simp: head_ok_def blk_def)

subsection \<open>Filling the hole\<close>

lemma fill_owner:
  assumes wf: "blocks_wf H S s" and fit: "fits H s h k"
  shows "g_page_owner (set_block h k st s) p = (if p \<in> blk h k then h else g_page_owner s p)"
  using fits_room [OF fit blocks_wfD(1) [OF wf]] by (intro set_block_owner) auto

lemma fill_blocks:
  assumes wf: "blocks_wf H S s" and fit: "fits H s h k" and S: "S \<inter> blk h k \<subseteq> {h}"
    and st: "st \<in> {PMM_BLOCK_FREE, PMM_BLOCK_ALLOCATED, PMM_BLOCK_RESERVED}"
    and small: "st \<noteq> PMM_BLOCK_FREE \<Longrightarrow> k = 0"
  shows "blocks_wf (H - blk h k) (S - blk h k) (set_block h k st s)"
proof -
  let ?t = "set_block h k st s"
  note own = fill_owner [OF wf fit, of st]
  note W = blocks_wfD [OF wf]
  have bH: "blk h k \<subseteq> H" using fit by (simp add: fits_def)
  then have hH: "h \<in> H" by (auto dest: subsetD)
  have un: "st \<noteq> PMM_BLOCK_UNUSED" using st by auto
  have "owner_ok (H - blk h k) ?t p" if p: "unat p < pages s" "p \<notin> H - blk h k" for p
  proof (cases "p \<in> blk h k")
    case True
    with un show ?thesis by (simp add: owner_ok_def own)
  next
    case False
    with p have "p \<notin> H" by simp
    note o = owner_okD [OF W(4) [OF p(1) this]]
    with hH have "g_page_owner s p \<noteq> h" by auto
    with o False show ?thesis by (simp add: owner_ok_def own Let_def)
  qed
  moreover have "head_ok (H - blk h k) ?t g"
    if g: "unat g < pages s" "g \<notin> H - blk h k" "g_block_state ?t g \<noteq> PMM_BLOCK_UNUSED" for g
  proof (cases "g = h")
    case True
    with fit st small show ?thesis by (auto simp: head_ok_def own fits_def)
  next
    case False
    with g have su: "g_block_state s g \<noteq> PMM_BLOCK_UNUSED" by simp
    have gH: "g \<notin> H"
    proof
      assume "g \<in> H"
      with g(2) have "g \<in> blk h k" by simp
      moreover from W(6) [OF \<open>g \<in> H\<close> su] have "g \<in> S" .
      ultimately show False using S False by auto
    qed
    note hk = W(5) [OF g(1) gH su]
    then have "p \<notin> blk h k" if "p \<in> blk g (g_block_order s g)" for p
      using that bH by (auto simp: head_ok_def)
    with hk False show ?thesis by (auto simp: head_ok_def own)
  qed
  moreover have "g \<in> S - blk h k" if "g \<in> H - blk h k" "g_block_state ?t g \<noteq> PMM_BLOCK_UNUSED" for g
  proof -
    from that have "g \<noteq> h" by auto
    with that W(6) [of g] show ?thesis by simp
  qed
  ultimately show ?thesis using W(1,2,3) unfolding blocks_wf_def by auto
qed

lemma fill_freeset:
  assumes wf: "blocks_wf H S s" and fit: "fits H s h k" and S: "S \<inter> blk h k \<subseteq> {h}"
  shows "freeset (H - blk h k) (set_block h k st s) j =
    (if st = PMM_BLOCK_FREE \<and> j = k then insert h (freeset H s j) else freeset H s j)"
proof -
  note W = blocks_wfD [OF wf]
  have bH: "blk h k \<subseteq> H" using fit by (simp add: fits_def)
  then have hH: "h \<in> H" by (auto dest: subsetD)
  have un: "g_block_state s g = PMM_BLOCK_UNUSED" if "g \<in> blk h k" "g \<noteq> h" for g
    using that bH S W(6) [of g] by blast
  show ?thesis
  proof (rule set_eqI)
    fix g
    show "g \<in> freeset (H - blk h k) (set_block h k st s) j \<longleftrightarrow>
        g \<in> (if st = PMM_BLOCK_FREE \<and> j = k then insert h (freeset H s j) else freeset H s j)"
      using un [of g] hH bH W(2) [OF hH] by (auto simp: freeset_def)
  qed
qed

lemma fill_free_pages:
  assumes wf: "blocks_wf H S s" and fit: "fits H s h k"
  shows "free_page_set (H - blk h k) (set_block h k st s) =
    (if st = PMM_BLOCK_FREE then free_page_set H s \<union> blk h k else free_page_set H s)"
proof -
  note W = blocks_wfD [OF wf] and own = fill_owner [OF wf fit, of st]
  have bH: "blk h k \<subseteq> H" using fit by (simp add: fits_def)
  then have hH: "h \<in> H" by (auto dest: subsetD)
  have ne: "g_page_owner s p \<noteq> h" if "unat p < pages s" "p \<notin> H" for p
    using owner_okD(2) [OF W(4) [OF that]] hH by auto
  show ?thesis
    using ne bH W(2) by (auto simp: free_page_set_def own split: if_splits)
qed

subsection \<open>Digging a hole\<close>

lemma dig_blocks:
  assumes wf: "blocks_wf H S s"
    and h: "unat h < pages s" "h \<notin> H" "g_block_state s h \<noteq> PMM_BLOCK_UNUSED"
  shows "blocks_wf (H \<union> blk h (g_block_order s h)) S (clear_block_head h s)"
proof -
  let ?B = "blk h (g_block_order s h)" and ?t = "clear_block_head h s"
  note W = blocks_wfD [OF wf] and D = heads_disjoint [OF wf h]
  have other: "g \<notin> ?B" if "unat g < pages s" "g \<notin> H" "g_block_state s g \<noteq> PMM_BLOCK_UNUSED" "g \<noteq> h" for g
    using heads_disjoint(1) [OF wf that(1-3), of g] D(1) [of g] that(4) by auto
  have "owner_ok (H \<union> ?B) ?t p" if p: "unat p < pages s" "p \<notin> H \<union> ?B" for p
  proof -
    from p have pH: "p \<notin> H" by simp
    note o = owner_okD [OF W(4) [OF p(1) pH]] and ho = head_of_owner [OF wf p(1) pH]
    from o(3) p(2) have "g_page_owner s p \<noteq> h" by auto
    with o ho(1) other [of "g_page_owner s p"] show ?thesis by (simp add: owner_ok_def Let_def)
  qed
  moreover have "head_ok (H \<union> ?B) ?t g"
    if g: "unat g < pages s" "g \<notin> H \<union> ?B" "g_block_state ?t g \<noteq> PMM_BLOCK_UNUSED" for g
  proof -
    from g have gh: "g \<noteq> h" "g \<notin> H" "g_block_state s g \<noteq> PMM_BLOCK_UNUSED" by (auto split: if_splits)
    have "p \<notin> ?B" if "p \<in> blk g (g_block_order s g)" for p
      using heads_disjoint(1) [OF wf g(1) gh(2,3) that] D(1) [of p] gh(1) by auto
    with W(5) [OF g(1) gh(2,3)] gh show ?thesis by (auto simp: head_ok_def)
  qed
  moreover have "g \<in> S" if "g \<in> H \<union> ?B" "g_block_state ?t g \<noteq> PMM_BLOCK_UNUSED" for g
  proof -
    from that have su: "g \<noteq> h" "g_block_state s g \<noteq> PMM_BLOCK_UNUSED" by (auto split: if_splits)
    with other [of g] that(1) D(3) [of g] D(2) [of g] have "g \<in> H" by blast
    with W(6) su show ?thesis by blast
  qed
  ultimately show ?thesis using W(1,2,3) D(3) unfolding blocks_wf_def by auto
qed

lemma dig_freeset:
  assumes wf: "blocks_wf H S s"
    and h: "unat h < pages s" "h \<notin> H" "g_block_state s h \<noteq> PMM_BLOCK_UNUSED"
  shows "freeset (H \<union> blk h (g_block_order s h)) (clear_block_head h s) j = freeset H s j - {h}"
proof -
  have "g \<notin> blk h (g_block_order s h)"
    if "unat g < pages s" "g \<notin> H" "g_block_state s g = PMM_BLOCK_FREE" "g \<noteq> h" for g
    using heads_disjoint(1) [OF wf that(1,2), of g] heads_disjoint(1) [OF wf h, of g] that(3,4) by auto
  then show ?thesis by (auto simp: freeset_def)
qed

lemma dig_free_pages:
  assumes wf: "blocks_wf H S s"
    and h: "unat h < pages s" "h \<notin> H" "g_block_state s h \<noteq> PMM_BLOCK_UNUSED"
  shows "free_page_set (H \<union> blk h (g_block_order s h)) (clear_block_head h s) =
    free_page_set H s - blk h (g_block_order s h)"
proof -
  have "g_page_owner s p \<noteq> h" if "unat p < pages s" "p \<notin> H" "p \<notin> blk h (g_block_order s h)" for p
    using owner_okD(3) [OF blocks_wfD(4) [OF wf that(1,2)]] that(3) by auto
  then show ?thesis by (auto simp: free_page_set_def)
qed

subsection \<open>Working inside the hole\<close>

lemma inside_owner_ok:
  assumes "owner_ok H s p" "\<And>g. g \<notin> H \<Longrightarrow> g_block_state t g = g_block_state s g \<and> g_block_order t g = g_block_order s g"
    "g_page_owner t p = g_page_owner s p"
  shows "owner_ok H t p"
  using assms by (simp add: owner_ok_def Let_def)

lemma inside_blocks:
  assumes wf: "blocks_wf H S s"
    and out: "\<And>g. g \<notin> H \<Longrightarrow> g_block_state t g = g_block_state s g \<and>
      g_block_order t g = g_block_order s g \<and> g_page_owner t g = g_page_owner s g"
    and tot: "g_total_pages t = g_total_pages s" and S': "S' \<subseteq> H"
    and new: "\<And>g. g \<in> H \<Longrightarrow> g_block_state t g \<noteq> PMM_BLOCK_UNUSED \<Longrightarrow> g \<in> S'"
  shows "blocks_wf H S' t" "freeset H t j = freeset H s j" "free_page_set H t = free_page_set H s"
proof -
  note W = blocks_wfD [OF wf]
  have "head_ok H t g" if "unat g < pages s" "g \<notin> H" "g_block_state t g \<noteq> PMM_BLOCK_UNUSED" for g
    using W(5) [of g] that out by (auto simp: head_ok_def tot)
  moreover have "owner_ok H t p" if "unat p < pages s" "p \<notin> H" for p
    using inside_owner_ok [OF W(4) [OF that]] out that by auto
  ultimately show "blocks_wf H S' t" using W(1,2) tot S' new unfolding blocks_wf_def by auto
  show "freeset H t j = freeset H s j" using out by (auto simp: freeset_def tot)
  have "g_block_state t (g_page_owner t p) = g_block_state s (g_page_owner s p)"
    if "unat p < pages s" "p \<notin> H" for p
    using out [of p] out [of "g_page_owner s p"] owner_okD(2) [OF W(4) [OF that]] that by simp
  then show "free_page_set H t = free_page_set H s" by (auto simp: free_page_set_def tot)
qed

lemma lists_wf_cong:
  assumes "lists_wf H s" "\<And>j. freeset H' t j = freeset H s j"
    "g_free_next t = g_free_next s" "g_free_prev t = g_free_prev s" "g_free_heads t = g_free_heads s"
  shows "lists_wf H' t"
  using assms by (simp add: lists_wf_def flist_def)

lemma inside_wf:
  assumes wf: "pmm_wf H S s"
    and out: "\<And>g. g \<notin> H \<Longrightarrow> g_block_state t g = g_block_state s g \<and>
      g_block_order t g = g_block_order s g \<and> g_page_owner t g = g_page_owner s g"
    and tot: "g_total_pages t = g_total_pages s" and S': "S' \<subseteq> H"
    and new: "\<And>g. g \<in> H \<Longrightarrow> g_block_state t g \<noteq> PMM_BLOCK_UNUSED \<Longrightarrow> g \<in> S'"
    and lists: "g_free_next t = g_free_next s" "g_free_prev t = g_free_prev s"
      "g_free_heads t = g_free_heads s" "g_free_pages t = g_free_pages s"
  shows "pmm_wf H S' t"
proof -
  have b: "blocks_wf H S s" using wf by (simp add: pmm_wf_def)
  note I = inside_blocks [OF b out tot S' new]
  from wf I lists show ?thesis
    unfolding pmm_wf_def by (auto simp: count_wf_def intro: lists_wf_cong)
qed

lemma mark_inside_wf [kinv]:
  assumes wf: "pmm_wf H S s" and fit: "fits H s h k"
  shows "pmm_wf H (insert h S) (set_block h k st s)"
proof (rule inside_wf [OF wf])
  have b: "blocks_wf H S s" using wf by (simp add: pmm_wf_def)
  note W = blocks_wfD [OF b]
  have bH: "blk h k \<subseteq> H" using fit by (simp add: fits_def)
  then have hH: "h \<in> H" by (auto dest: subsetD)
  fix g
  show "g_block_state (set_block h k st s) g = g_block_state s g \<and>
      g_block_order (set_block h k st s) g = g_block_order s g \<and>
      g_page_owner (set_block h k st s) g = g_page_owner s g" if "g \<notin> H"
    using that hH bH by (auto simp: fill_owner [OF b fit])
  show "insert h S \<subseteq> H" using W(3) hH by simp
  show "g \<in> insert h S" if "g \<in> H" "g_block_state (set_block h k st s) g \<noteq> PMM_BLOCK_UNUSED"
    using that W(6) [of g] by (auto split: if_splits)
qed simp_all

lemma clear_inside_wf [kinv]:
  assumes wf: "pmm_wf H S s" and h: "h \<in> H"
  shows "pmm_wf H (S - {h}) (clear_block_head h s)"
proof (rule inside_wf [OF wf])
  have "blocks_wf H S s" using wf by (simp add: pmm_wf_def)
  note W = blocks_wfD [OF this]
  show "S - {h} \<subseteq> H" using W(3) by auto
  show "g \<in> S - {h}" if "g \<in> H" "g_block_state (clear_block_head h s) g \<noteq> PMM_BLOCK_UNUSED" for g
    using that W(6) [of g] by (auto split: if_splits)
qed (use h in auto)

subsection \<open>The list primitives\<close>

lemma wf_parts_cong:
  assumes "g_page_owner t = g_page_owner s" "g_block_state t = g_block_state s"
    "g_block_order t = g_block_order s" "g_total_pages t = g_total_pages s"
  shows "blocks_wf H S t = blocks_wf H S s" "freeset H t = freeset H s"
    "free_page_set H t = free_page_set H s"
  unfolding blocks_wf_def owner_ok_def head_ok_def freeset_def free_page_set_def assms by (rule refl)+

lemma add_free_block_fields [simp]:
  "g_page_owner (add_free_block h k s) = g_page_owner (set_block h k PMM_BLOCK_FREE s)"
  "g_block_state (add_free_block h k s) = (g_block_state s)(h := PMM_BLOCK_FREE)"
  "g_block_order (add_free_block h k s) = (g_block_order s)(h := k)"
  "g_base (add_free_block h k s) = g_base s"
  "g_total_pages (add_free_block h k s) = g_total_pages s"
  "g_free_pages (add_free_block h k s) = g_free_pages s + ucast (block_pages k)"
  by (simp_all add: add_free_block_def Let_def)

lemma remove_free_block_fields [simp]:
  "g_page_owner (remove_free_block h s) = g_page_owner s"
  "g_block_state (remove_free_block h s) = (g_block_state s)(h := PMM_BLOCK_UNUSED)"
  "g_block_order (remove_free_block h s) = (g_block_order s)(h := 0)"
  "g_base (remove_free_block h s) = g_base s"
  "g_total_pages (remove_free_block h s) = g_total_pages s"
  "g_free_pages (remove_free_block h s) = g_free_pages s - ucast (block_pages (g_block_order s h))"
  by (simp_all add: remove_free_block_def Let_def)

lemma flist_set_block [simp]: "flist (set_block h k st s) j xs = flist s j xs"
  by (simp add: flist_def)

lemma invalid_index_large: "unat PMM_INVALID_INDEX = 4294967295"
  by (simp add: PMM_INVALID_INDEX_def)

lemma lists_wf_push:
  assumes wf: "pmm_wf H S s" and fit: "fits H s h k" and S: "S \<inter> blk h k \<subseteq> {h}"
  shows "lists_wf (H - blk h k) (add_free_block h k s)"
proof -
  from wf have b: "blocks_wf H S s" and l: "lists_wf H s" by (simp_all add: pmm_wf_def)
  note W = blocks_wfD [OF b]
  let ?u = "set_block h k PMM_BLOCK_FREE s" and ?t = "add_free_block h k s"
  have hH: "h \<in> H" and k: "unat k \<le> 16" using fit by (auto simp: fits_def)
  from W(1) W(2) [OF hH] have hI: "h \<noteq> PMM_INVALID_INDEX"
    by (auto simp: word_eq_unat invalid_index_large)
  from l obtain L where L: "\<And>j. unat j \<le> 16 \<Longrightarrow> flist s j (L j) \<and> set (L j) = freeset H s j"
    unfolding lists_wf_def by blast
  have nh: "h \<notin> freeset H s j" for j using hH by (simp add: freeset_def)
  have "flist (free_list_push k h ?u) j ((L(k := h # L k)) j) \<and>
      set ((L(k := h # L k)) j) = freeset (H - blk h k) ?u j" if j: "unat j \<le> 16" for j
  proof (cases "j = k")
    case True
    have "flist ?u k (L k)" using L [OF k] by simp
    then have "flist (free_list_push k h ?u) k (h # L k)"
      using L [OF k] nh [of k] hI by (intro flist_push_same) auto
    with True L [OF k] show ?thesis by (simp add: fill_freeset [OF b fit S])
  next
    case False
    have u: "flist ?u j (L j)" using L [OF j] by simp
    have "freeset H s j \<inter> freeset H s k = {}" using False by (auto simp: freeset_def)
    moreover have "PMM_INVALID_INDEX \<notin> set (L j)" using u by (simp add: flist_def)
    moreover have "flist ?u k (L k)" using L [OF k] by simp
    ultimately have "g_free_heads ?u k \<notin> set (L j)"
      using flist_head [of ?u k "L k"] L [OF j] L [OF k] by (cases "L k") auto
    with u False L [OF j] nh [of j] have "flist (free_list_push k h ?u) j (L j)"
      by (intro flist_push_other) auto
    with False L [OF j] show ?thesis by (simp add: fill_freeset [OF b fit S])
  qed
  then have "lists_wf (H - blk h k) (free_list_push k h ?u)"
    unfolding lists_wf_def by (intro exI [of _ "L(k := h # L k)"]) (simp add: freeset_def)
  then show ?thesis
    by (rule lists_wf_cong) (simp_all add: add_free_block_def Let_def freeset_def)
qed

lemma unat_block_pages_64: "unat k \<le> 16 \<Longrightarrow> unat (ucast (block_pages k) :: u64) = 2 ^ unat k"
  by (simp add: unat_ucast_up unat_block_pages)

lemma card_pages_le:
  assumes "\<And>p. p \<in> A \<Longrightarrow> unat (p :: u32) < n"
  shows "card A \<le> n"
proof -
  have "card A = card (unat ` A)" by (metis card_image inj_on_def word_eq_unat)
  also have "\<dots> \<le> card {..<n}" using assms by (intro card_mono) auto
  finally show ?thesis by simp
qed

lemma free_page_set_le: "card (free_page_set H s) \<le> pages s"
  by (rule card_pages_le) (simp add: free_page_set_def)

lemma add_free_block_wf [kinv]:
  assumes wf: "pmm_wf H S s" and fit: "fits H s h k" and S: "S \<inter> blk h k \<subseteq> {h}"
  shows "pmm_wf (H - blk h k) (S - blk h k) (add_free_block h k s)"
proof -
  let ?t = "add_free_block h k s" and ?u = "set_block h k PMM_BLOCK_FREE s"
  from wf have b: "blocks_wf H S s" and c: "count_wf H s" by (simp_all add: pmm_wf_def)
  note W = blocks_wfD [OF b]
  have k: "unat k \<le> 16" and bH: "blk h k \<subseteq> H" using fit by (simp_all add: fits_def)
  have bt: "blocks_wf (H - blk h k) (S - blk h k) ?u"
    using fill_blocks [OF b fit S] by simp
  have same: "g_page_owner ?t = g_page_owner ?u" "g_block_state ?t = g_block_state ?u"
    "g_block_order ?t = g_block_order ?u" "g_total_pages ?t = g_total_pages ?u" by simp_all
  from bt have "blocks_wf (H - blk h k) (S - blk h k) ?t"
    by (simp only: wf_parts_cong [OF same])
  moreover have "count_wf (H - blk h k) ?t"
  proof -
    have "free_page_set (H - blk h k) ?t = free_page_set (H - blk h k) ?u"
      by (rule wf_parts_cong(3) [OF same])
    also have "\<dots> = free_page_set H s \<union> blk h k" by (simp add: fill_free_pages [OF b fit])
    finally have fp: "free_page_set (H - blk h k) ?t = free_page_set H s \<union> blk h k" .
    have "free_page_set H s \<inter> blk h k = {}" using bH by (auto simp: free_page_set_def)
    then have card: "card (free_page_set H s \<union> blk h k) = unat (g_free_pages s) + 2 ^ unat k"
      using c card_blk [of h k] fits_room [OF fit W(1)] by (simp add: card_Un_disjoint count_wf_def)
    have "card (free_page_set (H - blk h k) ?t) \<le> 65536"
      using free_page_set_le [of "H - blk h k" ?t] W(1) by simp
    with card fp have "unat (g_free_pages s) + 2 ^ unat k < 2 ^ 64" by simp
    then have "unat (g_free_pages ?t) = unat (g_free_pages s) + 2 ^ unat k"
      using k by (simp add: unat_add_small unat_block_pages_64)
    with card fp show ?thesis by (simp add: count_wf_def)
  qed
  ultimately show ?thesis using lists_wf_push [OF wf fit S] by (simp add: pmm_wf_def)
qed

lemma lists_wf_remove:
  assumes wf: "pmm_wf H S s" and h: "h \<in> freeset H s k" and k: "unat k \<le> 16"
  shows "lists_wf (H \<union> blk h k) (remove_free_block h s)"
proof -
  from wf have b: "blocks_wf H S s" and l: "lists_wf H s" by (simp_all add: pmm_wf_def)
  from h have ho: "unat h < pages s" "h \<notin> H" "g_block_state s h \<noteq> PMM_BLOCK_UNUSED"
    and hk: "g_block_order s h = k" by (auto simp: freeset_def)
  from l obtain L where L: "\<And>j. unat j \<le> 16 \<Longrightarrow> flist s j (L j) \<and> set (L j) = freeset H s j"
    unfolding lists_wf_def by blast
  let ?r = "free_list_remove k h s"
  from L [OF k] h have "h \<in> set (L k)" by simp
  then obtain as bs where split: "L k = as @ h # bs" by (meson split_list)
  have "flist ?r j ((L(k := as @ bs)) j) \<and> set ((L(k := as @ bs)) j) = freeset H s j - {h}"
    if j: "unat j \<le> 16" for j
  proof (cases "j = k")
    case True
    from L [OF k] split have fl: "flist s k (as @ h # bs)" by simp
    then have "h \<notin> set (as @ bs)" by (auto simp: flist_def)
    moreover have "freeset H s k = insert h (set (as @ bs))" using L [OF k] split by auto
    ultimately have "freeset H s k - {h} = set (as @ bs)" by auto
    with True flist_remove_same [OF fl] show ?thesis by simp
  next
    case False
    have disj: "freeset H s k \<inter> freeset H s j = {}" using False by (auto simp: freeset_def)
    have "flist ?r j (L j)"
      by (rule flist_remove_other [of s j "L j" k "L k" h])
        (use L [OF j] L [OF k] False disj h in \<open>auto simp: flist_def\<close>)
    moreover have "h \<notin> freeset H s j" using disj h by auto
    ultimately show ?thesis using False L [OF j] by simp
  qed
  moreover have "freeset (H \<union> blk h k) (remove_free_block h s) j = freeset H s j - {h}" for j
    using dig_freeset [OF b ho, of j] hk by (simp add: freeset_def)
  moreover have "flist (remove_free_block h s) j xs = flist ?r j xs" for j xs
    using hk by (simp add: flist_def remove_free_block_def Let_def)
  ultimately show ?thesis unfolding lists_wf_def by (intro exI [of _ "L(k := as @ bs)"]) simp
qed

lemma remove_free_block_wf [kinv]:
  assumes wf: "pmm_wf H S s" and h: "h \<in> freeset H s k"
  shows "pmm_wf (H \<union> blk h k) S (remove_free_block h s)"
proof -
  let ?t = "remove_free_block h s"
  from wf have b: "blocks_wf H S s" and c: "count_wf H s" by (simp_all add: pmm_wf_def)
  from h have ho: "unat h < pages s" "h \<notin> H" "g_block_state s h \<noteq> PMM_BLOCK_UNUSED"
    and hk: "g_block_order s h = k" and hf: "g_block_state s h = PMM_BLOCK_FREE"
    by (auto simp: freeset_def)
  note W = blocks_wfD [OF b]
  from W(5) [OF ho] hk have k: "unat k \<le> 16" and room: "unat h + 2 ^ unat k \<le> pages s"
    by (simp_all add: head_ok_def)
  let ?u = "clear_block_head h s"
  have same: "g_page_owner ?t = g_page_owner ?u" "g_block_state ?t = g_block_state ?u"
    "g_block_order ?t = g_block_order ?u" "g_total_pages ?t = g_total_pages ?u" by simp_all
  have "blocks_wf (H \<union> blk h k) S ?t"
    using dig_blocks [OF b ho] hk by (simp only: wf_parts_cong [OF same])
  moreover have "count_wf (H \<union> blk h k) ?t"
  proof -
    have "free_page_set (H \<union> blk h k) ?t = free_page_set (H \<union> blk h k) ?u"
      by (rule wf_parts_cong(3) [OF same])
    also have "\<dots> = free_page_set H s - blk h k" using dig_free_pages [OF b ho] hk by simp
    finally have fp: "free_page_set (H \<union> blk h k) ?t = free_page_set H s - blk h k" .
    have sub: "blk h k \<subseteq> free_page_set H s"
      using heads_disjoint [OF b ho] hk hf by (auto simp: free_page_set_def)
    have cb: "card (blk h k) = 2 ^ unat k" using room W(1) by (intro card_blk) simp
    have "card (free_page_set H s - blk h k) = unat (g_free_pages s) - 2 ^ unat k"
      using c card_Diff_subset [OF _ sub] cb by (simp add: count_wf_def)
    moreover have "2 ^ unat k \<le> unat (g_free_pages s)"
      using c card_mono [OF _ sub] cb by (simp add: count_wf_def)
    ultimately show ?thesis using k hk fp
      by (simp add: count_wf_def unat_diff_le word_le_unat unat_block_pages_64)
  qed
  ultimately show ?thesis using lists_wf_remove [OF wf h k] by (simp add: pmm_wf_def)
qed

lemma fill_used_wf [kinv]:
  assumes wf: "pmm_wf H S s" and fit: "fits H s h 0"
    and st: "st \<in> {PMM_BLOCK_ALLOCATED, PMM_BLOCK_RESERVED}"
  shows "pmm_wf (H - {h}) (S - {h}) (set_block h 0 st s)"
proof -
  from wf have b: "blocks_wf H S s" and l: "lists_wf H s" and c: "count_wf H s"
    by (simp_all add: pmm_wf_def)
  have S: "S \<inter> blk h 0 \<subseteq> {h}" by simp
  have "blocks_wf (H - {h}) (S - {h}) (set_block h 0 st s)"
    using fill_blocks [OF b fit S, of st] st by auto
  moreover have "lists_wf (H - {h}) (set_block h 0 st s)"
    by (rule lists_wf_cong [OF l]) (use fill_freeset [OF b fit S, of st] st in auto)
  moreover have "count_wf (H - {h}) (set_block h 0 st s)"
    using fill_free_pages [OF b fit, of st] st c by (auto simp: count_wf_def)
  ultimately show ?thesis by (simp add: pmm_wf_def)
qed

end
