(* ===== verification/Pmm_Ops.thy ===== *)
theory Pmm_Ops
  imports Pmm_Inv
begin

text \<open>
  What the allocator's operations do to the abstract view of memory: the status of each page.
  Splitting, carving and coalescing are invisible in that view; an allocation turns one free page
  into an allocated one, freeing turns it back, reserving takes a free page out for good.
\<close>

definition page_status :: "pmm \<Rightarrow> u32 \<Rightarrow> u8" where
  "page_status s p = g_block_state s (g_page_owner s p)"

definition same_memory :: "pmm \<Rightarrow> pmm \<Rightarrow> bool" where
  "same_memory s t \<longleftrightarrow> g_base t = g_base s \<and> g_total_pages t = g_total_pages s"

section \<open>Halves and buddies\<close>

lemma blk_split:
  assumes k: "0 < unat k" "unat k \<le> 16" and al: "2 ^ unat k dvd unat b" and room: "unat b + 2 ^ unat k \<le> 65536"
  defines "j \<equiv> k - 1" and "m \<equiv> b + block_pages (k - 1)"
  shows "unat j = unat k - 1" "unat m = unat b + 2 ^ unat j"
    "blk b k = blk b j \<union> blk m j" "blk b j \<inter> blk m j = {}"
    "2 ^ unat j dvd unat b" "2 ^ unat j dvd unat m"
    "unat b + 2 ^ unat j \<le> unat b + 2 ^ unat k" "unat m + 2 ^ unat j = unat b + 2 ^ unat k"
proof -
  show uj: "unat j = unat k - 1" using k unfolding j_def by (subst unat_diff_le) (simp_all add: word_le_unat)
  then have two: "(2::nat) ^ unat k = 2 * 2 ^ unat j" using k by (cases "unat k") simp_all
  have bp: "unat (block_pages j) = 2 ^ unat j" using uj k by (simp add: unat_block_pages)
  have mj: "m = b + block_pages j" by (simp add: m_def j_def)
  have small: "unat b + 2 ^ unat j < 2 ^ 32" using room two by simp
  show um: "unat m = unat b + 2 ^ unat j" unfolding mj using small bp by (subst unat_add_small) simp_all
  show "blk b k = blk b j \<union> blk m j" "blk b j \<inter> blk m j = {}"
    using um two by (auto simp: blk_def)
  show d: "2 ^ unat j dvd unat b" using al two by (metis dvd_mult_right)
  then show "2 ^ unat j dvd unat m" using um by simp
  show "unat b + 2 ^ unat j \<le> unat b + 2 ^ unat k" "unat m + 2 ^ unat j = unat b + 2 ^ unat k"
    using two um by simp_all
qed

lemma xor_buddy:
  assumes k: "unat k \<le> 16" and c: "unat c < 65536"
  shows "unat (c XOR block_pages k) =
    (if odd (unat c div 2 ^ unat k) then unat c - 2 ^ unat k else unat c + 2 ^ unat k)"
proof -
  let ?n = "unat k"
  have n: "?n < 32" using k by simp
  have p: "unat ((2::u32) ^ ?n) = 2 ^ ?n" using n by (intro unat_2p) simp
  have flip: "c XOR block_pages k = flip_bit ?n c" by (simp add: block_pages_def flip_bit_eq_xor)
  have bit: "bit c ?n \<longleftrightarrow> odd (unat c div 2 ^ ?n)"
  proof -
    have "bit (unat c) ?n \<longleftrightarrow> bit c ?n" using n by (simp add: bit_unsigned_iff)
    then show ?thesis by (simp add: bit_iff_odd)
  qed
  show ?thesis
  proof (cases "bit c ?n")
    case True
    then have "c XOR block_pages k = c - 2 ^ ?n"
      by (simp add: flip flip_bit_eq_if unset_bit_eq)
    moreover have "2 ^ ?n \<le> unat c" using True bit by (metis div_less even_zero not_le)
    ultimately show ?thesis using True bit p by (simp add: unat_diff_le word_le_unat)
  next
    case False
    then have "c XOR block_pages k = c + 2 ^ ?n"
      by (simp add: flip flip_bit_eq_if set_bit_eq)
    moreover have "(2::nat) ^ ?n \<le> 2 ^ 16" using k by (intro power_increasing) simp_all
    ultimately show ?thesis using False bit p c by (simp add: unat_add_small)
  qed
qed

lemma blk_merge:
  assumes k: "unat k < 16" and al: "2 ^ unat k dvd unat c" and room: "unat c + 2 ^ unat k \<le> n"
    and n: "n \<le> 65536"
  defines "b \<equiv> c XOR block_pages k"
  assumes roomb: "unat b + 2 ^ unat k \<le> n"
  defines "d \<equiv> if b < c then b else c"
  shows "b \<notin> blk c k" "blk c k \<inter> blk b k = {}" "unat (k + 1) = unat k + 1"
    "blk c k \<union> blk b k = blk d (k + 1)" "2 ^ unat (k + 1) dvd unat d" "unat d + 2 ^ unat (k + 1) \<le> n"
proof -
  let ?w = "2 ^ unat k :: nat"
  from al obtain a where a: "unat c = ?w * a" by (elim dvdE)
  have "unat c < 65536" using room n by (metis add_lessD1 le_eq_less_or_eq less_le_trans nat_less_le
      not_add_less1 zero_less_numeral zero_less_power add_gr_0 less_add_same_cancel1)
  with xor_buddy [of k c] k a
  have b: "unat b = (if odd a then unat c - ?w else unat c + ?w)" by (simp add: b_def)
  show k1: "unat (k + 1) = unat k + 1" using k by (intro unat_Suc_small) simp
  have w: "0 < ?w" by simp
  have lt: "b < c \<longleftrightarrow> odd a"
  proof (cases "odd a")
    case True
    then have "0 < a" by (cases a) auto
    with True b w a show ?thesis by (simp add: word_less_unat)
  next
    case False
    with b show ?thesis by (simp add: word_less_unat)
  qed
  have "b \<notin> blk c k \<and> blk c k \<inter> blk b k = {} \<and> blk c k \<union> blk b k = blk d (k + 1) \<and>
    2 ^ unat (k + 1) dvd unat d \<and> unat d + 2 ^ unat (k + 1) \<le> n" (is ?all)
  proof (cases "odd a")
    case True
    then obtain e where e: "a = 2 * e + 1" by (elim oddE) blast
    with b True a have ub: "unat b = ?w * (2 * e)" "unat c = ?w * (2 * e) + ?w" by (simp_all add: algebra_simps)
    have d: "d = b" using True lt by (simp add: d_def)
    have dv: "?w * 2 dvd ?w * (2 * e)" by (simp add: mult_dvd_mono)
    from ub d k1 room dv show ?all by (auto simp: blk_def algebra_simps)
  next
    case False
    then obtain e where e: "a = 2 * e" by (auto elim: evenE)
    with b False a have ub: "unat c = ?w * (2 * e)" "unat b = ?w * (2 * e) + ?w" by (simp_all add: algebra_simps)
    have d: "d = c" using False lt by (simp add: d_def)
    have dv: "?w * 2 dvd ?w * (2 * e)" by (simp add: mult_dvd_mono)
    from ub d k1 roomb dv show ?all by (auto simp: blk_def algebra_simps)
  qed
  then show "b \<notin> blk c k" "blk c k \<inter> blk b k = {}" "blk c k \<union> blk b k = blk d (k + 1)"
    "2 ^ unat (k + 1) dvd unat d" "unat d + 2 ^ unat (k + 1) \<le> n" by simp_all
qed

section \<open>Effect of the primitives on the page statuses\<close>

lemma pmm_wf_pages: "pmm_wf H S s \<Longrightarrow> pages s \<le> 65536"
  by (simp add: pmm_wf_def blocks_wf_def)

lemma outside_owner:
  assumes wf: "pmm_wf H S s" and p: "unat p < pages s" "p \<notin> H" and h: "h \<in> H"
  shows "g_page_owner s p \<noteq> h"
proof -
  have b: "blocks_wf H S s" using wf by (simp add: pmm_wf_def)
  show ?thesis using owner_okD(2) [OF blocks_wfD(4) [OF b p]] h by auto
qed

lemma add_free_block_status:
  assumes wf: "pmm_wf H S s" and fit: "fits H s h k"
    and p: "unat p < pages s" "p \<notin> H \<or> p \<in> blk h k"
  shows "page_status (add_free_block h k s) p = (if p \<in> blk h k then PMM_BLOCK_FREE else page_status s p)"
proof -
  have b: "blocks_wf H S s" using wf by (simp add: pmm_wf_def)
  have "g_page_owner s p \<noteq> h" if "p \<notin> blk h k"
    using outside_owner [OF wf p(1), of h] that p(2) fit blk_self [of h k] by (auto simp: fits_def simp del: blk_self)
  then show ?thesis by (simp add: page_status_def fill_owner [OF b fit])
qed

lemma head_block:
  assumes wf: "pmm_wf H S s" and h: "h \<in> freeset H s k"
  shows "unat k \<le> 16" "2 ^ unat k dvd unat h" "unat h + 2 ^ unat k \<le> pages s"
    "\<And>p. p \<in> blk h k \<Longrightarrow> g_page_owner s p = h" "\<And>p. p \<in> blk h k \<Longrightarrow> p \<notin> H"
proof -
  have b: "blocks_wf H S s" using wf by (simp add: pmm_wf_def)
  from h have f: "unat h < pages s" "h \<notin> H" "g_block_state s h \<noteq> PMM_BLOCK_UNUSED" "g_block_order s h = k"
    by (simp_all add: freeset_def)
  from blocks_wfD(5) [OF b f(1-3)] f(4)
  show "unat k \<le> 16" "2 ^ unat k dvd unat h" "unat h + 2 ^ unat k \<le> pages s"
    "\<And>p. p \<in> blk h k \<Longrightarrow> g_page_owner s p = h" "\<And>p. p \<in> blk h k \<Longrightarrow> p \<notin> H"
    by (simp_all add: head_ok_def)
qed

lemma remove_free_block_status:
  assumes wf: "pmm_wf H S s" and h: "h \<in> freeset H s k"
    and p: "unat p < pages s" "p \<notin> H" "p \<notin> blk h k"
  shows "page_status (remove_free_block h s) p = page_status s p"
proof -
  have b: "blocks_wf H S s" using wf by (simp add: pmm_wf_def)
  have "g_page_owner s p \<noteq> h"
    using owner_okD(3) [OF blocks_wfD(4) [OF b p(1,2)]] p(3) h by (auto simp: freeset_def)
  then show ?thesis by (simp add: page_status_def)
qed

lemma freeset_status:
  assumes wf: "pmm_wf H S s" and h: "h \<in> freeset H s k" and p: "p \<in> blk h k"
  shows "page_status s p = PMM_BLOCK_FREE"
  using head_block(4) [OF wf h p] h by (simp add: page_status_def freeset_def)

lemma set_block_status:
  assumes wf: "pmm_wf H S s" and fit: "fits H s h k"
    and p: "unat p < pages s" "p \<notin> H \<or> p \<in> blk h k"
  shows "page_status (set_block h k st s) p = (if p \<in> blk h k then st else page_status s p)"
proof -
  have b: "blocks_wf H S s" using wf by (simp add: pmm_wf_def)
  have "g_page_owner s p \<noteq> h" if "p \<notin> blk h k"
    using outside_owner [OF wf p(1), of h] that p(2) fit blk_self [of h k] by (auto simp: fits_def simp del: blk_self)
  then show ?thesis by (simp add: page_status_def fill_owner [OF b fit])
qed

lemma clear_inside_status:
  assumes wf: "pmm_wf H S s" and h: "h \<in> H" and p: "unat p < pages s" "p \<notin> H"
  shows "page_status (clear_block_head h s) p = page_status s p"
proof -
  show ?thesis using outside_owner [OF wf p h] by (simp add: page_status_def)
qed

section \<open>Splitting and allocating\<close>

lemma split_loop_spec:
  assumes "pmm_wf (blk b k) {} s" "unat k \<le> 16" "2 ^ unat k dvd unat b" "unat b + 2 ^ unat k \<le> pages s"
    "t = split_loop b k 0 s"
  shows "pmm_wf {b} {} t \<and> same_memory s t \<and>
    (\<forall>p. unat p < pages s \<longrightarrow> p \<notin> blk b k \<longrightarrow> page_status t p = page_status s p) \<and>
    (\<forall>p\<in>blk b k. p \<noteq> b \<longrightarrow> page_status t p = PMM_BLOCK_FREE)"
  using assms
proof (induction "unat k" arbitrary: k s)
  case 0
  then have "k = 0" by (simp add: unat_eq_0)
  with 0 show ?case by (simp add: split_loop.simps [of b 0] same_memory_def)
next
  case (Suc n)
  let ?j = "k - 1"
  let ?m = "b + block_pages ?j"
  let ?s = "add_free_block ?m ?j s"
  have n16: "pages s \<le> 65536" using Suc.prems(1) by (rule pmm_wf_pages)
  have k0: "0 < unat k" using Suc.hyps by simp
  have room: "unat b + 2 ^ unat k \<le> 65536" using Suc.prems(4) n16 by simp
  note sp = blk_split [OF k0 Suc.prems(2,3) room]
  have fit: "fits (blk b k) s ?m ?j"
    using sp Suc.prems(2,4) by (auto simp: fits_def)
  have hole: "blk b k - blk ?m ?j = blk b ?j" using sp(3,4) by blast
  have wf: "pmm_wf (blk b ?j) {} ?s"
    using add_free_block_wf [OF Suc.prems(1) fit] hole by simp
  have st: "page_status ?s p = (if p \<in> blk ?m ?j then PMM_BLOCK_FREE else page_status s p)"
    if "unat p < pages s" "p \<notin> blk b k \<or> p \<in> blk ?m ?j" for p
    using add_free_block_status [OF Suc.prems(1) fit that] .
  have "split_loop b k 0 s = split_loop b ?j 0 ?s"
    using k0 by (simp add: split_loop.simps [of b k] Let_def word_less_unat)
  then have t: "t = split_loop b ?j 0 ?s" using Suc.prems(5) by simp
  have ih: "pmm_wf {b} {} t \<and> same_memory ?s t \<and>
    (\<forall>p. unat p < pages s \<longrightarrow> p \<notin> blk b ?j \<longrightarrow> page_status t p = page_status ?s p) \<and>
    (\<forall>p\<in>blk b ?j. p \<noteq> b \<longrightarrow> page_status t p = PMM_BLOCK_FREE)"
    using Suc.hyps(1) [of ?j ?s] Suc.hyps(2) wf t sp Suc.prems(2,4) by simp
  have in_range: "unat p < pages s" if "p \<in> blk b k" for p
    using that Suc.prems(4) by (simp add: blk_def)
  show ?case
    using ih sp(3,4) st in_range by (auto simp: same_memory_def)
qed

lemma alloc_block_loop_spec:
  assumes wf: "pmm_wf {} {} s" and "unat k \<le> 17" "(b, t) = alloc_block_loop k 0 s"
    "\<And>j. unat j < unat k \<Longrightarrow> freeset {} s j = {}"
  shows "if \<forall>j. unat j \<le> 16 \<longrightarrow> freeset {} s j = {} then b = PMM_INVALID_INDEX \<and> t = s
    else unat b < pages s \<and> pmm_wf {} {} t \<and> same_memory s t \<and> page_status s b = PMM_BLOCK_FREE \<and>
      (\<forall>p. unat p < pages s \<longrightarrow>
        page_status t p = (if p = b then PMM_BLOCK_ALLOCATED else page_status s p))"
  using assms(2-4)
proof (induction "17 - unat k" arbitrary: k)
  case 0
  then have "\<not> k \<le> PMM_MAX_ORDER" by (simp add: PMM_MAX_ORDER_def word_le_unat)
  moreover have "\<forall>j::u8. unat j \<le> 16 \<longrightarrow> freeset {} s j = {}" using 0 by simp
  ultimately show ?case using 0 by (simp add: alloc_block_loop.simps [of k])
next
  case (Suc n)
  then have k: "unat k \<le> 16" and le: "k \<le> PMM_MAX_ORDER" by (simp_all add: PMM_MAX_ORDER_def word_le_unat)
  obtain xs where xs: "flist s k xs" "set xs = freeset {} s k"
    using wf k unfolding pmm_wf_def lists_wf_def by blast
  note head = flist_head [OF xs(1)]
  have u: "unat (k + 1) = unat k + 1" using k by (intro unat_Suc_small) simp
  show ?case
  proof (cases "xs = []")
    case True
    then have nx: "alloc_block_loop k 0 s = alloc_block_loop (k + 1) 0 s"
      using le head by (simp add: alloc_block_loop.simps [of k])
    have em: "freeset {} s j = {}" if "unat j < unat (k + 1)" for j
    proof -
      have "unat j < unat k \<or> j = k" using that u by (auto simp: word_eq_unat)
      then show ?thesis using Suc.prems(3) [of j] True xs(2) by auto
    qed
    have "n = 17 - unat (k + 1)" "unat (k + 1) \<le> 17" using Suc.hyps(2) u k by simp_all
    moreover have "(b, t) = alloc_block_loop (k + 1) 0 s" using Suc.prems(2) nx by (rule trans)
    ultimately show ?thesis by (rule Suc.hyps(1)) (rule em)
  next
    case False
    then have h: "g_free_heads s k \<in> freeset {} s k" using head xs(2) by (metis hd_in_set)
    define h where "h = g_free_heads s k"
    note hb = head_block [OF wf h [folded h_def]]
    have hn: "h \<noteq> PMM_INVALID_INDEX"
      using xs h unfolding h_def flist_def by metis
    let ?s1 = "remove_free_block h s"
    let ?s2 = "split_loop h k 0 ?s1"
    have wf1: "pmm_wf (blk h k) {} ?s1" using remove_free_block_wf [OF wf h [folded h_def]] by simp
    have sp: "pmm_wf {h} {} ?s2 \<and> same_memory ?s1 ?s2 \<and>
      (\<forall>p. unat p < pages s \<longrightarrow> p \<notin> blk h k \<longrightarrow> page_status ?s2 p = page_status ?s1 p) \<and>
      (\<forall>p\<in>blk h k. p \<noteq> h \<longrightarrow> page_status ?s2 p = PMM_BLOCK_FREE)"
      using split_loop_spec [OF wf1 hb(1,2) _ refl] hb(3) by simp
    have tot: "g_total_pages ?s2 = g_total_pages s" "g_base ?s2 = g_base s" using sp by (simp_all add: same_memory_def)
    have hlt: "unat h < pages s" using h by (simp add: freeset_def h_def)
    have fit: "fits {h} ?s2 h 0" using hlt tot by (simp add: fits_def)
    have r: "alloc_block_loop k 0 s = (h, set_block h 0 PMM_BLOCK_ALLOCATED ?s2)"
      using le hn by (simp add: alloc_block_loop.simps [of k] h_def Let_def)
    then have bt: "b = h" "t = set_block h 0 PMM_BLOCK_ALLOCATED ?s2" using Suc.prems(2) by simp_all
    have "pmm_wf {} {} t" using fill_used_wf [OF conjunct1 [OF sp] fit] bt by simp
    moreover have "page_status t p = (if p = h then PMM_BLOCK_ALLOCATED else page_status s p)"
      if p: "unat p < pages s" for p
      using set_block_status [OF conjunct1 [OF sp] fit, of p PMM_BLOCK_ALLOCATED] p bt tot sp
        remove_free_block_status [OF wf h [folded h_def] p] freeset_status [OF wf h [folded h_def]]
      by (cases "p \<in> blk h k") auto
    moreover have "\<not> (\<forall>j. unat j \<le> 16 \<longrightarrow> freeset {} s j = {})" using h k by blast
    moreover have "same_memory s t" using bt tot by (simp add: same_memory_def)
    ultimately show ?thesis
      using bt(1) hlt freeset_status [OF wf h [folded h_def] blk_self] by auto
  qed
qed

lemma no_free_blocks:
  assumes wf: "pmm_wf {} {} s"
  shows "(\<forall>j. unat j \<le> 16 \<longrightarrow> freeset {} s j = {}) \<longleftrightarrow> g_free_pages s = 0"
proof -
  have b: "blocks_wf {} {} s" and c: "unat (g_free_pages s) = card (free_page_set {} s)"
    using wf by (simp_all add: pmm_wf_def count_wf_def)
  have "g_free_pages s = 0 \<longleftrightarrow> free_page_set {} s = {}" using c by (simp add: word_eq_unat)
  also have "\<dots> \<longleftrightarrow> (\<forall>j. unat j \<le> 16 \<longrightarrow> freeset {} s j = {})"
  proof (intro iffI allI impI)
    fix j :: u8
    assume e: "free_page_set {} s = {}"
    show "freeset {} s j = {}"
      using e head_block(4) [OF wf _ blk_self] unfolding free_page_set_def freeset_def by fastforce
  next
    assume e: "\<forall>j. unat j \<le> 16 \<longrightarrow> freeset {} s j = {}"
    have False if p: "unat p < pages s" "g_block_state s (g_page_owner s p) = PMM_BLOCK_FREE" for p
    proof -
      have ho: "unat (g_page_owner s p) < pages s" "head_ok {} s (g_page_owner s p)"
        by (rule head_of_owner [OF b p(1)], simp)+
      have "g_page_owner s p \<in> freeset {} s (g_block_order s (g_page_owner s p))"
        using ho p(2) by (simp add: freeset_def)
      moreover have "unat (g_block_order s (g_page_owner s p)) \<le> 16" using ho(2) unfolding head_ok_def by blast
      ultimately show False using e by blast
    qed
    then show "free_page_set {} s = {}" by (auto simp: free_page_set_def)
  qed
  finally show ?thesis ..
qed

lemma alloc_block_spec:
  assumes wf: "pmm_wf {} {} s" and r: "alloc_block 0 s = (b, t)"
  shows "if g_free_pages s = 0 then b = PMM_INVALID_INDEX \<and> t = s
    else unat b < pages s \<and> pmm_wf {} {} t \<and> same_memory s t \<and> page_status s b = PMM_BLOCK_FREE \<and>
      (\<forall>p. unat p < pages s \<longrightarrow>
        page_status t p = (if p = b then PMM_BLOCK_ALLOCATED else page_status s p))"
  using alloc_block_loop_spec [OF wf, of 0 b t] r no_free_blocks [OF wf]
  by (simp add: alloc_block_def)

section \<open>Coalescing and freeing\<close>

lemma buddy_outside:
  assumes k: "unat k < 16" and al: "2 ^ unat k dvd unat c" and c: "unat c < 65536"
  shows "c XOR block_pages k \<notin> blk c k"
proof -
  let ?w = "2 ^ unat k :: nat"
  from al obtain a where a: "unat c = ?w * a" by (elim dvdE)
  have u: "unat (c XOR block_pages k) = (if odd a then unat c - ?w else unat c + ?w)"
    using xor_buddy [of k c] k c a by simp
  have "?w \<le> unat c" if "odd a" using that a by (cases a) auto
  then have "unat c - ?w < unat c" if "odd a"
    using that by (metis diff_less less_le_trans zero_less_numeral zero_less_power)
  then have "unat (c XOR block_pages k) < unat c \<or> unat (c XOR block_pages k) = unat c + ?w"
    using u by simp
  then show ?thesis by (auto simp: blk_def)
qed

lemma merge_step:
  assumes wf: "pmm_wf (blk c k) {c} s" and k: "unat k < 16" and al: "2 ^ unat k dvd unat c"
    and room: "unat c + 2 ^ unat k \<le> pages s"
  defines "b \<equiv> c XOR block_pages k"
  assumes blt: "unat b < pages s" and free: "g_block_state s b = PMM_BLOCK_FREE" "g_block_order s b = k"
  defines "d \<equiv> if b < c then b else c"
  defines "t \<equiv> set_block d (k + 1) PMM_BLOCK_FREE (clear_block_head b (clear_block_head c (remove_free_block b s)))"
  shows "pmm_wf (blk d (k + 1)) {d} t" "same_memory s t"
    "unat (k + 1) = unat k + 1" "2 ^ unat (k + 1) dvd unat d" "unat d + 2 ^ unat (k + 1) \<le> pages s"
    "blk c k \<subseteq> blk d (k + 1)"
    "\<And>p. unat p < pages s \<Longrightarrow> p \<notin> blk d (k + 1) \<Longrightarrow> page_status t p = page_status s p"
    "\<And>p. p \<in> blk d (k + 1) \<Longrightarrow> p \<notin> blk c k \<Longrightarrow> page_status s p = PMM_BLOCK_FREE"
proof -
  have n: "pages s \<le> 65536" using wf by (rule pmm_wf_pages)
  have "0 < (2::nat) ^ unat k" by simp
  then have c: "unat c < 65536" using room n by linarith
  have bo: "b \<notin> blk c k" unfolding b_def using k al c by (rule buddy_outside)
  have bf: "b \<in> freeset (blk c k) s k" using bo blt free by (simp add: freeset_def)
  note hb = head_block [OF wf bf]
  note m = blk_merge [OF k al room n hb(3) [unfolded b_def], folded b_def, folded d_def]
  let ?H = "blk d (k + 1)"
  let ?s1 = "remove_free_block b s" and ?s2 = "clear_block_head c (remove_free_block b s)"
  let ?s3 = "clear_block_head b (clear_block_head c (remove_free_block b s))"
  have w1: "pmm_wf ?H {c} ?s1" using remove_free_block_wf [OF wf bf] m(4) by simp
  have cH: "c \<in> ?H" "b \<in> ?H" using m(4) blk_self by blast+
  have w2: "pmm_wf ?H {} ?s2" using clear_inside_wf [OF w1 cH(1)] by simp
  have w3: "pmm_wf ?H {} ?s3" using clear_inside_wf [OF w2 cH(2)] by simp
  have fit: "fits ?H ?s3 d (k + 1)" using m k by (simp add: fits_def)
  show "pmm_wf ?H {d} t" unfolding t_def using mark_inside_wf [OF w3 fit] by simp
  show "same_memory s t" by (simp add: same_memory_def t_def)
  show "unat (k + 1) = unat k + 1" "2 ^ unat (k + 1) dvd unat d" "unat d + 2 ^ unat (k + 1) \<le> pages s"
    by (rule m)+
  show "blk c k \<subseteq> ?H" using m(4) by blast
  show "page_status s p = PMM_BLOCK_FREE" if "p \<in> ?H" "p \<notin> blk c k" for p
    using freeset_status [OF wf bf] that m(4) by blast
  show "page_status t p = page_status s p" if p: "unat p < pages s" "p \<notin> ?H" for p
  proof -
    have "p \<notin> blk c k" "p \<notin> blk b k" using p m(4) by blast+
    then show ?thesis
      using set_block_status [OF w3 fit, of p] clear_inside_status [OF w2 cH(2), of p]
        clear_inside_status [OF w1 cH(1), of p] remove_free_block_status [OF wf bf, of p] p
      by (simp add: t_def)
  qed
qed

lemma merge_loop_spec:
  assumes "pmm_wf (blk c k) {c} s" "unat k \<le> 16" "2 ^ unat k dvd unat c" "unat c + 2 ^ unat k \<le> pages s"
    "merge_loop c k s = (c', k', t)"
  shows "pmm_wf (blk c' k') {c'} t \<and> unat k' \<le> 16 \<and> 2 ^ unat k' dvd unat c' \<and>
    unat c' + 2 ^ unat k' \<le> pages s \<and> same_memory s t \<and> blk c k \<subseteq> blk c' k' \<and>
    (\<forall>p. unat p < pages s \<longrightarrow> p \<notin> blk c' k' \<longrightarrow> page_status t p = page_status s p) \<and>
    (\<forall>p\<in>blk c' k'. p \<notin> blk c k \<longrightarrow> page_status s p = PMM_BLOCK_FREE)"
  using assms
proof (induction "16 - unat k" arbitrary: c k s)
  case 0
  then have "\<not> k < PMM_MAX_ORDER" by (simp add: PMM_MAX_ORDER_def word_less_unat)
  then have "c' = c \<and> k' = k \<and> t = s" using 0(6) by (simp add: merge_loop.simps [of c])
  with 0 show ?case by (simp add: same_memory_def)
next
  case (Suc n)
  then have k: "unat k < 16" and lt: "k < PMM_MAX_ORDER" by (simp_all add: PMM_MAX_ORDER_def word_less_unat)
  let ?b = "c XOR block_pages k"
  let ?d = "if ?b < c then ?b else c"
  let ?t = "set_block ?d (k + 1) PMM_BLOCK_FREE (clear_block_head ?b (clear_block_head c (remove_free_block ?b s)))"
  show ?case
  proof (cases "unat ?b < pages s \<and> g_block_state s ?b = PMM_BLOCK_FREE \<and> g_block_order s ?b = k")
    case True
    then have b: "unat ?b < pages s" "g_block_state s ?b = PMM_BLOCK_FREE" "g_block_order s ?b = k" by simp_all
    note ms = merge_step [OF Suc.prems(1) k Suc.prems(3,4) b]
    have "merge_loop c k s = merge_loop ?d (k + 1) ?t"
      using lt b by (simp add: merge_loop.simps [of c k s] Let_def word_le_unat unat_ucast_up)
    then have r: "merge_loop ?d (k + 1) ?t = (c', k', t)" using Suc.prems(5) by simp
    have pt: "pages ?t = pages s" using ms(2) by (simp add: same_memory_def)
    have h: "n = 16 - unat (k + 1)" "unat (k + 1) \<le> 16" using Suc.hyps(2) ms(3) k by simp_all
    note ih = Suc.hyps(1) [OF h(1) ms(1) h(2) ms(4) _ r, unfolded pt, OF ms(5)]
    from ih have sub: "blk ?d (k + 1) \<subseteq> blk c' k'"
      and out: "\<And>p. unat p < pages s \<Longrightarrow> p \<notin> blk c' k' \<Longrightarrow> page_status t p = page_status ?t p"
      and fr: "\<And>p. p \<in> blk c' k' \<Longrightarrow> p \<notin> blk ?d (k + 1) \<Longrightarrow> page_status ?t p = PMM_BLOCK_FREE"
      and rest: "pmm_wf (blk c' k') {c'} t" "unat k' \<le> 16" "2 ^ unat k' dvd unat c'"
        "unat c' + 2 ^ unat k' \<le> pages s" "same_memory ?t t"
      by blast+
    have inr: "unat p < pages s" if "p \<in> blk c' k'" for p using that rest(4) by (simp add: blk_def)
    have "page_status t p = page_status s p" if p: "unat p < pages s" "p \<notin> blk c' k'" for p
    proof -
      have "p \<notin> blk ?d (k + 1)" using p(2) sub by blast
      then show ?thesis using out [OF p] ms(7) [OF p(1)] by (metis (no_types))
    qed
    moreover have "page_status s p = PMM_BLOCK_FREE" if p: "p \<in> blk c' k'" "p \<notin> blk c k" for p
      using fr [OF p(1)] ms(7) [OF inr [OF p(1)]] ms(8) [OF _ p(2)] by metis
    moreover have "same_memory s t" using rest(5) ms(2) by (simp add: same_memory_def)
    moreover have "blk c k \<subseteq> blk c' k'" using ms(6) sub by blast
    ultimately show ?thesis using rest by blast
  next
    case False
    then have "merge_loop c k s = (c, k, s)"
      using lt by (auto simp: merge_loop.simps [of c k s] Let_def word_le_unat unat_ucast_up)
    then have "c' = c \<and> k' = k \<and> t = s" using Suc.prems(5) by simp
    with Suc.prems show ?thesis by (simp add: same_memory_def)
  qed
qed

lemma dig_used_wf:
  assumes wf: "pmm_wf {} {} s" and p: "unat p < pages s" "g_block_state s p = PMM_BLOCK_ALLOCATED" "g_block_order s p = 0"
  shows "pmm_wf {p} {} (clear_block_head p s)" "page_status s p = PMM_BLOCK_ALLOCATED"
    "\<And>q. unat q < pages s \<Longrightarrow> q \<noteq> p \<Longrightarrow> page_status (clear_block_head p s) q = page_status s q"
proof -
  let ?t = "clear_block_head p s"
  from wf have b: "blocks_wf {} {} s" and l: "lists_wf {} s" and c: "count_wf {} s" by (simp_all add: pmm_wf_def)
  have h: "unat p < pages s" "p \<notin> {}" "g_block_state s p \<noteq> PMM_BLOCK_UNUSED" using p by simp_all
  note hd = heads_disjoint [OF b h]
  have own: "g_page_owner s p = p" using hd(1) [of p] by simp
  show st: "page_status s p = PMM_BLOCK_ALLOCATED" using own p(2) by (simp add: page_status_def)
  have fs: "freeset {p} ?t j = freeset {} s j" for j
    using dig_freeset [OF b h, of j] p by (auto simp: freeset_def)
  have fp: "free_page_set {p} ?t = free_page_set {} s"
    using dig_free_pages [OF b h] p st by (auto simp: free_page_set_def page_status_def)
  have "lists_wf {p} ?t" by (rule lists_wf_cong [OF l fs]) simp_all
  moreover have "blocks_wf {p} {} ?t" using dig_blocks [OF b h] p by simp
  moreover have "count_wf {p} ?t" using c fp by (simp add: count_wf_def)
  ultimately show "pmm_wf {p} {} ?t" by (simp add: pmm_wf_def)
  show "page_status ?t q = page_status s q" if q: "unat q < pages s" "q \<noteq> p" for q
  proof -
    have "g_page_owner s q \<noteq> p"
      using owner_okD(3) [OF blocks_wfD(4) [OF b q(1)]] q(2) p(3) by auto
    then show ?thesis by (simp add: page_status_def)
  qed
qed

lemma free_block_spec:
  assumes wf: "pmm_wf {} {} s" and p: "unat p < pages s" "g_block_state s p = PMM_BLOCK_ALLOCATED" "g_block_order s p = 0"
  defines "t \<equiv> free_block p 0 (clear_block_head p s)"
  shows "pmm_wf {} {} t" "same_memory s t"
    "\<And>q. unat q < pages s \<Longrightarrow> page_status t q = (if q = p then PMM_BLOCK_FREE else page_status s q)"
proof -
  note d = dig_used_wf [OF assms(1-4)]
  let ?s1 = "clear_block_head p s"
  let ?s2 = "set_block p 0 PMM_BLOCK_FREE ?s1"
  have fit: "fits {p} ?s1 p 0" using p(1) by (simp add: fits_def)
  have w2: "pmm_wf (blk p 0) {p} ?s2" using mark_inside_wf [OF d(1) fit] by simp
  obtain c k u where r: "merge_loop p 0 ?s2 = (c, k, u)" by (cases "merge_loop p 0 ?s2") auto
  have "pmm_wf (blk c k) {c} u \<and> unat k \<le> 16 \<and> 2 ^ unat k dvd unat c \<and>
    unat c + 2 ^ unat k \<le> pages s \<and> same_memory ?s2 u \<and> blk p 0 \<subseteq> blk c k \<and>
    (\<forall>q. unat q < pages s \<longrightarrow> q \<notin> blk c k \<longrightarrow> page_status u q = page_status ?s2 q) \<and>
    (\<forall>q\<in>blk c k. q \<notin> blk p 0 \<longrightarrow> page_status ?s2 q = PMM_BLOCK_FREE)"
    using merge_loop_spec [OF w2 _ _ _ r] p(1) by simp
  then have m: "pmm_wf (blk c k) {c} u" "unat k \<le> 16" "2 ^ unat k dvd unat c"
    "unat c + 2 ^ unat k \<le> pages s" "same_memory ?s2 u" "p \<in> blk c k"
    "\<And>q. unat q < pages s \<Longrightarrow> q \<notin> blk c k \<Longrightarrow> page_status u q = page_status ?s2 q"
    "\<And>q. q \<in> blk c k \<Longrightarrow> q \<noteq> p \<Longrightarrow> page_status ?s2 q = PMM_BLOCK_FREE"
    by auto
  have pu: "pages u = pages s" using m(5) by (simp add: same_memory_def)
  have t: "t = add_free_block c k u" by (simp add: t_def free_block_def r)
  have fu: "fits (blk c k) u c k" using m pu by (simp add: fits_def)
  show "pmm_wf {} {} t" unfolding t using add_free_block_wf [OF m(1) fu] by simp
  show "same_memory s t" unfolding t using m(5) by (simp add: same_memory_def)
  have s2: "page_status ?s2 q = page_status s q" if q: "unat q < pages s" "q \<noteq> p" for q
    using set_block_status [OF d(1) fit, of q] d(3) [OF q] q by simp
  show "page_status t q = (if q = p then PMM_BLOCK_FREE else page_status s q)" if q: "unat q < pages s" for q
  proof (cases "q \<in> blk c k")
    case True
    then have "page_status t q = PMM_BLOCK_FREE"
      unfolding t using add_free_block_status [OF m(1) fu, of q] q pu by simp
    then show ?thesis using m(8) [OF True] s2 [OF q] by (cases "q = p") simp_all
  next
    case False
    then show ?thesis
      unfolding t using add_free_block_status [OF m(1) fu, of q] q pu m(6) m(7) [OF q False] s2 [OF q] by auto
  qed
qed

section \<open>Carving out a page\<close>

lemma carve_loop_spec:
  assumes "pmm_wf (blk c k) S s" "S \<subseteq> {c}" "unat k \<le> 16" "2 ^ unat k dvd unat c"
    "unat c + 2 ^ unat k \<le> pages s" "q \<in> blk c k" "(c', t) = carve_loop q c k s"
  shows "c' = q \<and> (\<exists>S'. pmm_wf {q} S' t) \<and> same_memory s t \<and>
    (\<forall>p. unat p < pages s \<longrightarrow> p \<notin> blk c k \<longrightarrow> page_status t p = page_status s p) \<and>
    (\<forall>p\<in>blk c k. p \<noteq> q \<longrightarrow> page_status t p = PMM_BLOCK_FREE)"
  using assms
proof (induction "unat k" arbitrary: c k s S)
  case 0
  then have k: "k = 0" by (simp add: unat_eq_0)
  then have "c' = c" "t = s" "q = c" using 0 by (simp_all add: carve_loop.simps [of _ _ 0])
  with 0 k show ?case by (auto simp: same_memory_def)
next
  case (Suc n)
  let ?j = "k - 1"
  let ?m = "c + block_pages ?j"
  have n16: "pages s \<le> 65536" using Suc.prems(1) by (rule pmm_wf_pages)
  have k0: "0 < unat k" using Suc.hyps by simp
  have room: "unat c + 2 ^ unat k \<le> 65536" using Suc.prems(5) n16 by simp
  note sp = blk_split [OF k0 Suc.prems(3,4) room]
  define a where "a = (if q < ?m then c else ?m)"
  define e where "e = (if q < ?m then ?m else c)"
  have ae: "q \<in> blk a ?j" "blk c k = blk a ?j \<union> blk e ?j" "blk a ?j \<inter> blk e ?j = {}"
    "2 ^ unat ?j dvd unat a" "2 ^ unat ?j dvd unat e" "unat a + 2 ^ unat ?j \<le> pages s" "unat e + 2 ^ unat ?j \<le> pages s"
    "S \<inter> blk e ?j \<subseteq> {e}"
    using sp Suc.prems(2,5,6) unfolding a_def e_def by (auto simp: word_less_unat blk_def)
  let ?s1 = "add_free_block e ?j s"
  let ?s2 = "set_block a ?j PMM_BLOCK_ALLOCATED ?s1"
  have j16: "unat ?j \<le> 16" using sp(1) Suc.prems(3) by simp
  have fit: "fits (blk c k) s e ?j" using ae j16 by (auto simp: fits_def)
  have hole: "blk c k - blk e ?j = blk a ?j" using ae by blast
  have w1: "pmm_wf (blk a ?j) (S - blk e ?j) ?s1" using add_free_block_wf [OF Suc.prems(1) fit ae(8)] hole by simp
  have fit1: "fits (blk a ?j) ?s1 a ?j" using ae j16 by (simp add: fits_def)
  have Sa: "S - blk e ?j \<subseteq> {a}" using Suc.prems(2) blk_self [of c ?j] unfolding a_def e_def
    by (auto simp del: blk_self)
  have ins: "insert a (S - blk e ?j) = {a}" using Sa by blast
  have w2: "pmm_wf (blk a ?j) {a} ?s2"
    using mark_inside_wf [OF w1 fit1, of PMM_BLOCK_ALLOCATED] unfolding ins .
  have "carve_loop q c k s = carve_loop q a ?j ?s2"
    using k0 by (auto simp: carve_loop.simps [of q c k] Let_def word_less_unat a_def e_def)
  then have r: "(c', t) = carve_loop q a ?j ?s2" using Suc.prems(7) by simp
  have p2: "pages ?s2 = pages s" by simp
  have h: "n = unat ?j" using Suc.hyps(2) sp(1) by simp
  note ih = Suc.hyps(1) [OF h w2 subset_refl j16 ae(4) _ ae(1) r, unfolded p2, OF ae(6)]
  have st: "page_status ?s2 p = (if p \<in> blk e ?j then PMM_BLOCK_FREE else page_status s p)"
    if p: "unat p < pages s" "p \<notin> blk a ?j" for p
    using set_block_status [OF w1 fit1, of p] add_free_block_status [OF Suc.prems(1) fit p(1)] p ae(2) by auto
  have inr: "unat p < pages s" if "p \<in> blk c k" for p using that Suc.prems(5) by (simp add: blk_def)
  show ?case using ih st inr ae(2,3) by (auto simp: same_memory_def)
qed

lemma reserve_page_spec:
  assumes wf: "pmm_wf {} {} s" and r: "reserve_page q s = (v, t)"
  shows "pmm_wf {} {} t" "same_memory s t"
    "v = (if unat q < pages s \<and> page_status s q \<noteq> PMM_BLOCK_ALLOCATED then 1 else 0)"
    "\<And>p. unat p < pages s \<Longrightarrow>
       page_status t p = (if p = q \<and> page_status s q = PMM_BLOCK_FREE then PMM_BLOCK_RESERVED else page_status s p)"
proof -
  let ?h = "g_page_owner s q"
  let ?k = "g_block_order s ?h"
  from wf have b: "blocks_wf {} {} s" by (simp add: pmm_wf_def)
  have "pmm_wf {} {} t \<and> same_memory s t \<and>
    v = (if unat q < pages s \<and> page_status s q \<noteq> PMM_BLOCK_ALLOCATED then 1 else 0) \<and>
    (\<forall>p. unat p < pages s \<longrightarrow>
      page_status t p = (if p = q \<and> page_status s q = PMM_BLOCK_FREE then PMM_BLOCK_RESERVED else page_status s p))"
  proof (cases "unat q < pages s \<and> page_status s q = PMM_BLOCK_FREE")
    case True
    then have q: "unat q < pages s" and st: "g_block_state s ?h = PMM_BLOCK_FREE" by (simp_all add: page_status_def)
    have hlt: "unat ?h < pages s" by (rule head_of_owner [OF b q], simp)
    then have hf: "?h \<in> freeset {} s ?k" using st by (simp add: freeset_def)
    note hb = head_block [OF wf hf]
    have qb: "q \<in> blk ?h ?k" by (rule owner_okD(3) [OF blocks_wfD(4) [OF b q]], simp)
    have hn: "?h \<noteq> PMM_INVALID_INDEX" using hlt pmm_wf_pages [OF wf] by (auto simp: invalid_index_large)
    let ?s1 = "remove_free_block ?h s"
    obtain c u where cu: "(c, u) = carve_loop q ?h ?k ?s1" by (metis surj_pair)
    have w1: "pmm_wf (blk ?h ?k) {} ?s1" using remove_free_block_wf [OF wf hf] by simp
    have cs: "c = q \<and> (\<exists>S'. pmm_wf {q} S' u) \<and> same_memory ?s1 u \<and>
      (\<forall>p. unat p < pages s \<longrightarrow> p \<notin> blk ?h ?k \<longrightarrow> page_status u p = page_status ?s1 p) \<and>
      (\<forall>p\<in>blk ?h ?k. p \<noteq> q \<longrightarrow> page_status u p = PMM_BLOCK_FREE)"
      using carve_loop_spec [OF w1 _ hb(1,2) _ qb cu] hb(3) by simp
    then obtain S' where w2: "pmm_wf {q} S' u" by blast
    have tot: "g_total_pages u = g_total_pages s" "g_base u = g_base s" using cs by (simp_all add: same_memory_def)
    have t: "v = 1" "t = set_block q 0 PMM_BLOCK_RESERVED u"
      using r q hn st cs cu [symmetric] by (simp_all add: reserve_page_def Let_def word_le_unat unat_ucast_up)
    have fit: "fits {q} u q 0" using q tot by (simp add: fits_def)
    have S0: "S' - {q} = {}" using w2 by (auto simp: pmm_wf_def blocks_wf_def)
    have "pmm_wf {} {} t" unfolding t using fill_used_wf [OF w2 fit, of PMM_BLOCK_RESERVED] S0 by simp
    moreover have "page_status t p = (if p = q then PMM_BLOCK_RESERVED else page_status s p)"
      if p: "unat p < pages s" for p
      using set_block_status [OF w2 fit, of p PMM_BLOCK_RESERVED] p t(2) tot cs
        remove_free_block_status [OF wf hf p] freeset_status [OF wf hf]
      by (cases "p \<in> blk ?h ?k") auto
    moreover have "same_memory s t" using t tot by (simp add: same_memory_def)
    ultimately show ?thesis using True t(1) by auto
  next
    case False
    show ?thesis
    proof (cases "unat q < pages s")
      case True
      have ho: "unat ?h < pages s" "head_ok {} s ?h" by (rule head_of_owner [OF b True], simp)+
      then have "g_block_state s ?h \<in> {PMM_BLOCK_FREE, PMM_BLOCK_ALLOCATED, PMM_BLOCK_RESERVED}"
        unfolding head_ok_def by blast
      moreover have "?h \<noteq> PMM_INVALID_INDEX" using ho(1) pmm_wf_pages [OF wf] by (auto simp: invalid_index_large)
      ultimately have "t = s \<and> v = (if page_status s q \<noteq> PMM_BLOCK_ALLOCATED then 1 else 0)"
        using r True False by (auto simp: reserve_page_def page_status_def Let_def word_le_unat unat_ucast_up)
      with False True wf show ?thesis by (auto simp: same_memory_def)
    next
      case False
      then have "t = s \<and> v = 0" using r by (simp add: reserve_page_def word_le_unat unat_ucast_up)
      with False wf show ?thesis by (auto simp: same_memory_def)
    qed
  qed
  then show "pmm_wf {} {} t" "same_memory s t"
    "v = (if unat q < pages s \<and> page_status s q \<noteq> PMM_BLOCK_ALLOCATED then 1 else 0)"
    "\<And>p. unat p < pages s \<Longrightarrow>
       page_status t p = (if p = q \<and> page_status s q = PMM_BLOCK_FREE then PMM_BLOCK_RESERVED else page_status s p)"
    by blast+
qed

section \<open>Seeding\<close>

lemma align_order_aligned: "2 ^ unat (align_order page order) dvd unat page" if "unat order \<le> 16"
  using that
proof (induction page order rule: align_order.induct)
  case (1 page order)
  show ?case
  proof (cases "order > 0 \<and> page AND (block_pages order - 1) \<noteq> 0")
    case True
    then have "unat (order - 1) \<le> unat order"
      by (metis less_imp_le measure_unat word_gt_0)
    with 1 True show ?thesis by (simp add: align_order.simps [of page order])
  next
    case False
    show ?thesis
    proof (cases "order > 0")
      case True
      with False have z: "page AND (block_pages order - 1) = 0" by simp
      have "block_pages order - 1 = mask (unat order)"
        by (simp add: block_pages_def mask_eq_exp_minus_1 push_bit_eq_mult)
      with z have "take_bit (unat order) page = 0" by (simp add: take_bit_eq_mask)
      then have "unat (take_bit (unat order) page) = 0" by simp
      then have "take_bit (unat order) (unat page) = 0" by (simp add: unsigned_take_bit_eq)
      then have "2 ^ unat order dvd unat page" by (simp add: take_bit_eq_mod mod_eq_0_iff_dvd)
      with False show ?thesis by (auto simp: align_order.simps [of page order])
    next
      case False
      then have "order = 0" by (simp add: word_gt_0)
      then show ?thesis by (simp add: align_order.simps [of page 0])
    qed
  qed
qed

lemma add_free_range_spec:
  assumes "pmm_wf {p. unat page \<le> unat p \<and> unat p < pages s} {} s" "unat page + unat remaining = pages s"
    "t = add_free_range page remaining s"
  shows "pmm_wf {} {} t \<and> same_memory s t \<and>
    (\<forall>p. unat p < pages s \<longrightarrow> page_status t p = (if unat page \<le> unat p then PMM_BLOCK_FREE else page_status s p))"
  using assms
proof (induction page remaining s rule: add_free_range.induct)
  case (1 page remaining s)
  let ?k = "align_order page (max_order_for_pages (ucast remaining))"
  let ?s = "add_free_block page ?k s"
  let ?H = "{p. unat page \<le> unat p \<and> unat p < pages s}"
  have n: "pages s \<le> 65536" using 1(2) by (rule pmm_wf_pages)
  show ?case
  proof (cases "remaining > 0")
    case False
    then have z: "remaining = 0" by (simp add: word_gt_0)
    then have H: "?H = {}" using 1(3) by auto
    have "pmm_wf {} {} s" using 1(2) unfolding H .
    with z 1(3,4) show ?thesis by (auto simp: add_free_range.simps [of page 0] same_memory_def)
  next
    case True
    note f = range_order_fits [OF True, of page]
    have al: "2 ^ unat ?k dvd unat page"
    proof (rule align_order_aligned)
      have "unat (ucast remaining :: u64) = unat remaining" by (simp add: unat_ucast_up)
      then show "unat (max_order_for_pages (ucast remaining)) \<le> 16"
        using max_order_loop_spec [of 0 "ucast remaining"] True
        by (simp add: max_order_for_pages_def word_less_unat)
    qed
    have bp: "unat (block_pages ?k) = 2 ^ unat ?k" using f(1) by (simp add: unat_block_pages)
    have room: "unat page + 2 ^ unat ?k \<le> pages s" using f(2) bp 1(3) by simp
    have fit: "fits ?H s page ?k" using f(1) al room by (auto simp: fits_def blk_def)
    have up: "unat (page + block_pages ?k) = unat page + 2 ^ unat ?k"
      using bp room n by (subst unat_add_small) simp_all
    have ur: "unat (remaining - block_pages ?k) = unat remaining - 2 ^ unat ?k"
      using bp f(2) by (simp add: unat_diff_le word_le_unat)
    have hole: "?H - blk page ?k = {p. unat (page + block_pages ?k) \<le> unat p \<and> unat p < pages ?s}"
      using up by (auto simp: blk_def)
    have w: "pmm_wf {p. unat (page + block_pages ?k) \<le> unat p \<and> unat p < pages ?s} {} ?s"
      using add_free_block_wf [OF 1(2) fit] hole by simp
    have "add_free_range page remaining s = add_free_range (page + block_pages ?k) (remaining - block_pages ?k) ?s"
      using True by (simp add: add_free_range.simps [of page remaining] Let_def)
    then have t: "t = add_free_range (page + block_pages ?k) (remaining - block_pages ?k) ?s" using 1(4) by simp
    have sum: "unat (page + block_pages ?k) + unat (remaining - block_pages ?k) = pages ?s"
      using up ur f(2) bp 1(3) by simp
    note ih = 1(1) [OF True refl w sum t]
    have "page_status ?s p = (if p \<in> blk page ?k then PMM_BLOCK_FREE else page_status s p)"
      if "unat p < pages s" "unat p < unat page + 2 ^ unat ?k" for p
      using add_free_block_status [OF 1(2) fit, of p] that by (auto simp: blk_def)
    with ih up show ?thesis by (auto simp: same_memory_def blk_def)
  qed
qed

lemma reset_wf:
  assumes n: "pages s \<le> 65536"
  shows "pmm_wf {p. unat p < pages s} {} (reset_allocator_state (s\<lparr>g_free_pages := 0\<rparr>))"
proof -
  let ?t = "reset_allocator_state (s\<lparr>g_free_pages := 0\<rparr>)"
  let ?H = "{p :: u32. unat p < pages s}"
  have u: "g_block_state ?t p = PMM_BLOCK_UNUSED" if "unat p < pages s" for p
    using that n by (simp add: reset_allocator_state_def PMM_MAX_PAGES_def word_less_unat unat_ucast_up)
  have tot: "g_total_pages ?t = g_total_pages s" by (simp add: reset_allocator_state_def)
  have "blocks_wf ?H {} ?t" using n u by (auto simp: blocks_wf_def tot)
  moreover have e: "freeset ?H ?t k = {}" "free_page_set ?H ?t = {}" for k
    by (auto simp: freeset_def free_page_set_def tot)
  moreover have "lists_wf ?H ?t"
    unfolding lists_wf_def
  proof (intro exI allI impI)
    fix k :: u8
    assume "unat k \<le> 16"
    then show "flist ?t k [] \<and> set [] = freeset ?H ?t k"
      using e by (simp add: flist_def reset_allocator_state_def PMM_MAX_ORDER_def word_le_unat)
  qed
  moreover have "count_wf ?H ?t" using e by (simp add: count_wf_def reset_allocator_state_def)
  ultimately show ?thesis by (simp add: pmm_wf_def)
qed

end
