(* ===== verification/Pmm_Spec.thy ===== *)
theory Pmm_Spec
  imports Pmm_Ops
begin

text \<open>
  The contract of the page allocator towards its clients, the virtual memory manager and the
  scheduler: two disjoint sets of frame addresses, free and in use, and what each call does to
  them.  The contract is a locale; the buddy allocator of \<open>Pmm\<close> is its interpretation.
\<close>

section \<open>The state of a running allocator\<close>

definition region_ok :: "pmm \<Rightarrow> bool" where
  "region_ok s \<longleftrightarrow> 4096 dvd unat (g_base s) \<and> unat (g_base s) + 4096 * pages s \<le> 2 ^ 64"

definition pmm_ok :: "pmm \<Rightarrow> bool" where
  "pmm_ok s \<longleftrightarrow> pmm_wf {} {} s \<and> region_ok s \<and> (pages s > 0 \<longrightarrow> page_status s 0 = PMM_BLOCK_RESERVED)"

definition frame_addr :: "pmm \<Rightarrow> u32 \<Rightarrow> u64" where
  "frame_addr s p = g_base s + ucast p * MM_PAGE_SIZE"

definition frames :: "u8 \<Rightarrow> pmm \<Rightarrow> u64 set" where
  "frames st s = frame_addr s ` {p. unat p < pages s \<and> page_status s p = st}"

abbreviation free_frames :: "pmm \<Rightarrow> u64 set" where
  "free_frames \<equiv> frames PMM_BLOCK_FREE"

abbreviation used_frames :: "pmm \<Rightarrow> u64 set" where
  "used_frames \<equiv> frames PMM_BLOCK_ALLOCATED"

abbreviation reserved_frames :: "pmm \<Rightarrow> u64 set" where
  "reserved_frames \<equiv> frames PMM_BLOCK_RESERVED"

lemma pmm_okD:
  assumes "pmm_ok s"
  shows "pmm_wf {} {} s" "region_ok s" "pages s \<le> 65536"
    "0 < pages s \<Longrightarrow> page_status s 0 = PMM_BLOCK_RESERVED"
  using assms pmm_wf_pages by (auto simp: pmm_ok_def)

lemma unat_page_size: "unat MM_PAGE_SIZE = 4096"
  by (simp add: MM_PAGE_SIZE_def)

lemma unat_frame_addr:
  assumes ok: "region_ok s" and n: "pages s \<le> 65536" and p: "unat p < pages s"
  shows "unat (frame_addr s p) = unat (g_base s) + unat p * 4096"
proof -
  have m: "unat (ucast p * MM_PAGE_SIZE :: u64) = unat p * 4096"
    using p n by (subst unat_mult_small) (simp_all add: unat_ucast_up unat_page_size)
  have "unat p * 4096 + 4096 \<le> 4096 * pages s" using p by simp
  with ok have "unat (g_base s) + unat p * 4096 < 2 ^ 64" by (simp add: region_ok_def)
  with m show ?thesis unfolding frame_addr_def by (subst unat_add_small) simp_all
qed

lemma frame_addr_inj:
  assumes "region_ok s" "pages s \<le> 65536" "unat p < pages s" "unat q < pages s" "frame_addr s p = frame_addr s q"
  shows "p = q"
proof -
  have "unat p * 4096 = unat q * 4096"
    using unat_frame_addr [OF assms(1-3)] unat_frame_addr [OF assms(1,2,4)] assms(5) by simp
  then show ?thesis by (simp add: word_eq_unat)
qed

lemma frame_addr_same: "same_memory s t \<Longrightarrow> frame_addr t p = frame_addr s p"
  by (simp add: frame_addr_def same_memory_def)

lemma same_memory_pages: "same_memory s t \<Longrightarrow> g_total_pages t = g_total_pages s"
  by (simp add: same_memory_def)

lemma region_ok_same: "same_memory s t \<Longrightarrow> region_ok s \<Longrightarrow> region_ok t"
  by (simp add: region_ok_def same_memory_def)

lemma frames_iff:
  assumes ok: "pmm_ok s" and p: "unat p < pages s"
  shows "frame_addr s p \<in> frames st s \<longleftrightarrow> page_status s p = st"
  using frame_addr_inj [OF pmm_okD(2,3) [OF ok], of p] p unfolding frames_def by blast

lemma frames_disjoint: "pmm_ok s \<Longrightarrow> st \<noteq> st' \<Longrightarrow> frames st s \<inter> frames st' s = {}"
  using frame_addr_inj [OF pmm_okD(2,3)] unfolding frames_def by blast

lemma inj_frame_addr: "pmm_ok s \<Longrightarrow> inj_on (frame_addr s) {p. unat p < pages s \<and> page_status s p = st}"
  using frame_addr_inj [OF pmm_okD(2,3)] unfolding inj_on_def by blast

lemma card_free_frames: "pmm_ok s \<Longrightarrow> card (free_frames s) = unat (g_free_pages s)"
proof -
  assume ok: "pmm_ok s"
  have "unat (g_free_pages s) = card (free_page_set {} s)"
    using pmm_okD(1) [OF ok] by (simp add: pmm_wf_def count_wf_def)
  moreover have "free_page_set {} s = {p. unat p < pages s \<and> page_status s p = PMM_BLOCK_FREE}"
    by (simp add: free_page_set_def page_status_def)
  ultimately show ?thesis using card_image [OF inj_frame_addr [OF ok]] by (simp add: frames_def)
qed

text \<open>A change of one page's status moves one frame between the sets.\<close>

lemma frames_move:
  assumes ok: "pmm_ok s" and sm: "same_memory s t" and p: "unat p < pages s"
    and st: "\<And>q. unat q < pages s \<Longrightarrow> page_status t q = (if q = p then new else page_status s q)"
  shows "frames k t = (if k = new then insert (frame_addr s p) (frames k s) else frames k s - {frame_addr s p})"
proof -
  have tot: "pages t = pages s" and fa: "frame_addr t = frame_addr s" using sm by (auto simp: same_memory_def frame_addr_def)
  have inj: "frame_addr s q = frame_addr s p \<longleftrightarrow> q = p" if "unat q < pages s" for q
    using frame_addr_inj [OF pmm_okD(2,3) [OF ok] that p] by blast
  show ?thesis
  proof (cases "k = new")
    case True
    then have "{q. unat q < pages s \<and> page_status t q = k} = insert p {q. unat q < pages s \<and> page_status s q = k}"
      using st p by auto
    then show ?thesis using True by (simp add: frames_def tot fa)
  next
    case False
    then have "{q. unat q < pages s \<and> page_status t q = k} = {q. unat q < pages s \<and> page_status s q = k} - {p}"
      using st by auto
    then show ?thesis using False inj by (auto simp: frames_def tot fa)
  qed
qed

section \<open>What each public call does\<close>

lemma pmm_alloc_page_spec:
  assumes ok: "pmm_ok s" and r: "pmm_alloc_page s = (a, t)"
  shows "if free_frames s = {} then a = 0 \<and> t = s
    else a \<in> free_frames s \<and> pmm_ok t \<and> same_memory s t \<and> free_frames t = free_frames s - {a} \<and>
      used_frames t = insert a (used_frames s) \<and> reserved_frames t = reserved_frames s"
proof -
  note okD = pmm_okD [OF ok]
  have fin: "finite (free_frames s)" by (simp add: frames_def)
  then have empty: "g_free_pages s = 0 \<longleftrightarrow> free_frames s = {}"
    using card_free_frames [OF ok] by (metis card_eq_0_iff unat_eq_0)
  obtain b u where bu: "alloc_block 0 s = (b, u)" by (metis surj_pair)
  note sp = alloc_block_spec [OF okD(1) bu]
  show ?thesis
  proof (cases "free_frames s = {}")
    case True
    with sp empty bu r show ?thesis by (simp add: pmm_alloc_page_def)
  next
    case False
    with sp empty have b: "unat b < pages s" "pmm_wf {} {} u" "same_memory s u" "page_status s b = PMM_BLOCK_FREE"
      "\<And>p. unat p < pages s \<Longrightarrow> page_status u p = (if p = b then PMM_BLOCK_ALLOCATED else page_status s p)"
      by auto
    have "b \<noteq> PMM_INVALID_INDEX" using b(1) okD(3) by (auto simp: invalid_index_large)
    with bu r have a: "a = frame_addr s b" "t = u"
      using b(3) by (auto simp: pmm_alloc_page_def frame_addr_def same_memory_def)
    have b0: "b \<noteq> 0" using b(1,4) okD(4) by (metis block_states(5) gr_implies_not0 not_gr_zero)
    then have "pmm_ok t"
      using a b okD(2) region_ok_same b(3) okD(4) by (auto simp: pmm_ok_def)
    moreover have "a \<in> free_frames s" using a(1) b(1,4) by (auto simp: frames_def)
    moreover have "a \<notin> reserved_frames s"
      using frames_disjoint [OF ok, of PMM_BLOCK_FREE PMM_BLOCK_RESERVED] calculation by auto
    ultimately show ?thesis
      using False a b(3) frames_move [OF ok b(3,1) b(5)] by simp
  qed
qed

lemma page_of_frame:
  assumes ok: "pmm_ok s" and lt: "\<not> a < g_base s" and m: "(a - g_base s) mod MM_PAGE_SIZE = 0"
    and n: "(a - g_base s) div MM_PAGE_SIZE < g_total_pages s"
  defines "p \<equiv> ucast ((a - g_base s) div MM_PAGE_SIZE) :: u32"
  shows "unat p < pages s" "frame_addr s p = a"
proof -
  let ?d = "a - g_base s"
  have q: "unat (?d div MM_PAGE_SIZE) < pages s" using n by (simp add: word_less_unat)
  then have up: "unat p = unat (?d div MM_PAGE_SIZE)"
    unfolding p_def using pmm_okD(3) [OF ok] by (intro unat_ucast_small) simp
  with q show p: "unat p < pages s" by simp
  have "ucast p = ?d div MM_PAGE_SIZE" using up by (simp add: word_eq_unat unat_ucast_up)
  moreover have "?d div MM_PAGE_SIZE * MM_PAGE_SIZE = ?d" using m by (metis add.right_neutral div_mult_mod_eq)
  ultimately show "frame_addr s p = a" by (simp add: frame_addr_def)
qed

lemma page_of_frame_addr:
  assumes ok: "pmm_ok s" and p: "unat p < pages s"
  shows "\<not> frame_addr s p < g_base s" "(frame_addr s p - g_base s) mod MM_PAGE_SIZE = 0"
    "(frame_addr s p - g_base s) div MM_PAGE_SIZE = ucast p" "ucast p < g_total_pages s"
proof -
  note u = unat_frame_addr [OF pmm_okD(2,3) [OF ok] p]
  have d: "unat (frame_addr s p - g_base s) = unat p * 4096"
    using u by (subst unat_diff_le) (simp_all add: word_le_unat)
  show "\<not> frame_addr s p < g_base s" using u by (simp add: word_less_unat)
  show "(frame_addr s p - g_base s) mod MM_PAGE_SIZE = 0"
    using d by (simp add: word_eq_unat unat_mod unat_page_size)
  show "(frame_addr s p - g_base s) div MM_PAGE_SIZE = ucast p"
    using d by (simp add: word_eq_unat unat_div unat_page_size unat_ucast_up)
  show "ucast p < g_total_pages s" using p by (simp add: word_less_unat unat_ucast_up)
qed

lemma allocated_head:
  assumes wf: "pmm_wf {} {} s" and p: "unat p < pages s" and st: "page_status s p = PMM_BLOCK_ALLOCATED"
  shows "g_page_owner s p = p" "g_block_state s p = PMM_BLOCK_ALLOCATED" "g_block_order s p = 0"
proof -
  have b: "blocks_wf {} {} s" using wf by (simp add: pmm_wf_def)
  let ?h = "g_page_owner s p"
  have "head_ok {} s ?h" by (rule head_of_owner(2) [OF b p]) simp
  then have "g_block_state s ?h \<noteq> PMM_BLOCK_FREE \<longrightarrow> g_block_order s ?h = 0" unfolding head_ok_def by blast
  then have k: "g_block_order s ?h = 0" using st by (simp add: page_status_def)
  have "p \<in> blk ?h (g_block_order s ?h)" by (rule owner_okD(3) [OF blocks_wfD(4) [OF b p]]) simp
  then show e: "?h = p" using k by simp
  show "g_block_state s p = PMM_BLOCK_ALLOCATED" "g_block_order s p = 0" using e k st by (simp_all add: page_status_def)
qed

lemma head_status:
  assumes wf: "pmm_wf {} {} s" and p: "unat p < pages s" and st: "g_block_state s p = PMM_BLOCK_ALLOCATED"
  shows "page_status s p = PMM_BLOCK_ALLOCATED"
proof -
  have b: "blocks_wf {} {} s" using wf by (simp add: pmm_wf_def)
  have "g_page_owner s p = p" by (rule heads_disjoint(1) [OF b p _ _ blk_self]) (use st in simp_all)
  then show ?thesis using st by (simp add: page_status_def)
qed

lemma ucast_down_up [simp]: "ucast (ucast (p :: u32) :: u64) = p"
  by (rule bit_word_eqI) (auto simp: bit_ucast_iff)

lemma pmm_free_page_spec:
  assumes ok: "pmm_ok s" and t: "t = pmm_free_page a s"
  shows "if a \<in> used_frames s
    then pmm_ok t \<and> same_memory s t \<and> free_frames t = insert a (free_frames s) \<and>
      used_frames t = used_frames s - {a} \<and> reserved_frames t = reserved_frames s
    else t = s"
proof -
  note okD = pmm_okD [OF ok]
  show ?thesis
  proof (cases "a \<in> used_frames s")
    case True
    then obtain p where p: "unat p < pages s" "page_status s p = PMM_BLOCK_ALLOCATED" "a = frame_addr s p"
      by (auto simp: frames_def)
    note h = allocated_head [OF okD(1) p(1,2)]
    note f = free_block_spec [OF okD(1) p(1) h(2,3)]
    have "t = free_block p 0 (clear_block_head p s)"
      using page_of_frame_addr [OF ok p(1)] p(1,3) h t
      by (simp add: pmm_free_page_def Let_def not_less [symmetric]) auto
    note f = f [folded this]
    have p0: "p \<noteq> 0" using p(1,2) okD(4) by (metis block_states(6) gr_implies_not0 not_gr_zero)
    have "pmm_ok t" using f okD(2) region_ok_same [OF f(2)] p0 okD(4) same_memory_pages [OF f(2)]
      by (auto simp: pmm_ok_def)
    moreover have "a \<notin> reserved_frames s"
      using frames_disjoint [OF ok, of PMM_BLOCK_ALLOCATED PMM_BLOCK_RESERVED] True by auto
    ultimately show ?thesis using True p(3) f(2) frames_move [OF ok f(2) p(1) f(3)] by simp
  next
    case False
    have "t = s"
    proof (rule ccontr)
      assume ne: "t \<noteq> s"
      let ?p = "ucast ((a - g_base s) div MM_PAGE_SIZE) :: u32"
      from ne t have c: "\<not> a < g_base s" "(a - g_base s) mod MM_PAGE_SIZE = 0"
        "(a - g_base s) div MM_PAGE_SIZE < g_total_pages s" "g_block_state s ?p = PMM_BLOCK_ALLOCATED"
        by (auto simp: pmm_free_page_def Let_def split: if_splits)
      note pf = page_of_frame [OF ok c(1-3)]
      have "a \<in> used_frames s"
        using frames_iff [OF ok pf(1)] pf head_status [OF okD(1) pf(1) c(4)] by simp
      with False show False ..
    qed
    with False show ?thesis by simp
  qed
qed

lemma reserve_loop_spec:
  assumes "pmm_ok s" "t = reserve_loop a b s"
  shows "pmm_ok t \<and> same_memory s t \<and> (\<forall>p. unat p < pages s \<longrightarrow> page_status t p =
    (if a \<le> p \<and> p < b \<and> page_status s p = PMM_BLOCK_FREE then PMM_BLOCK_RESERVED else page_status s p))"
  using assms
proof (induction a b s rule: reserve_loop.induct)
  case (1 a b s)
  note okD = pmm_okD [OF 1(2)]
  show ?case
  proof (cases "a < b")
    case False
    then have "t = s" using 1(3) by (simp add: reserve_loop.simps [of a b])
    with 1(2) False show ?thesis by (auto simp: same_memory_def)
  next
    case True
    obtain v u where vu: "reserve_page a s = (v, u)" by (metis surj_pair)
    note rp = reserve_page_spec [OF okD(1) vu]
    have "pmm_ok u"
      using rp(1,2,4) okD(2,4) region_ok_same [OF rp(2)] same_memory_pages [OF rp(2)] by (auto simp: pmm_ok_def)
    moreover have "t = reserve_loop (a + 1) b u" using 1(3) True vu by (simp add: reserve_loop.simps [of a b])
    ultimately have ih: "pmm_ok t \<and> same_memory u t \<and> (\<forall>p. unat p < pages s \<longrightarrow> page_status t p =
      (if a + 1 \<le> p \<and> p < b \<and> page_status u p = PMM_BLOCK_FREE then PMM_BLOCK_RESERVED else page_status u p))"
      using 1(1) True vu same_memory_pages [OF rp(2)] by simp
    have a1: "unat (a + 1) = unat a + 1" using True by (simp add: unat_Suc_less)
    have "a + 1 \<le> p \<and> p < b \<or> p = a \<longleftrightarrow> a \<le> p \<and> p < b" for p
      using True a1 by (auto simp: word_le_unat word_less_unat word_eq_unat)
    then have "page_status t p =
      (if a \<le> p \<and> p < b \<and> page_status s p = PMM_BLOCK_FREE then PMM_BLOCK_RESERVED else page_status s p)"
      if "unat p < pages s" for p
      using ih rp(4) [OF that] that by (cases "p = a") auto
    with ih rp(2) show ?thesis by (auto simp: same_memory_def)
  qed
qed

text \<open>Whether page \<open>p\<close> of the region shares an address with \<open>[base, base + sz)\<close>.\<close>

definition page_overlaps :: "pmm \<Rightarrow> nat \<Rightarrow> nat \<Rightarrow> u32 \<Rightarrow> bool" where
  "page_overlaps s base sz p \<longleftrightarrow> 0 < sz \<and>
     unat (g_base s) + 4096 * unat p < base + sz \<and> base < unat (g_base s) + 4096 * unat p + 4096"

lemma page_bounds_nat:
  fixes B N h l p :: nat
  assumes "p < N" "B < h" "max l B < B + N"
  shows "max l B - B \<le> p \<and> p < min h (B + N) - B \<longleftrightarrow> l \<le> B + p \<and> B + p < h"
  using assms by (auto simp: min_def max_def)

lemma round_up_less:
  fixes e X :: nat
  shows "4096 * X < e \<longleftrightarrow> X < (e + 4095) div 4096"
proof -
  have "X < (e + 4095) div 4096 \<longleftrightarrow> (X + 1) * 4096 \<le> e + 4095"
    by (simp flip: less_eq_div_iff_mult_less_eq) linarith
  then show ?thesis by linarith
qed

text \<open>The saturated and rounded end of the range, and overlap in units of pages.\<close>

lemma range_end:
  fixes base sz :: u64
  assumes "sz \<noteq> 0"
  defines "end0 \<equiv> base + sz"
  defines "end_addr \<equiv> if end0 < base then UINT64_MAX else end0"
  defines "aligned_end \<equiv> if end_addr > UINT64_MAX - (MM_PAGE_SIZE - 1) then UINT64_MAX AND NOT (MM_PAGE_SIZE - 1)
               else (end_addr + (MM_PAGE_SIZE - 1)) AND NOT (MM_PAGE_SIZE - 1)"
  shows "\<exists>h. unat aligned_end = 4096 * h \<and>
    (\<forall>X. 4096 * X + 4096 \<le> 2 ^ 64 - 4096 \<longrightarrow> (X < h \<longleftrightarrow> 4096 * X < unat base + unat sz))"
proof -
  have mx: "unat UINT64_MAX = 2 ^ 64 - 1" "unat (UINT64_MAX - (MM_PAGE_SIZE - 1)) = 2 ^ 64 - 4096"
  proof -
    show e: "unat UINT64_MAX = 2 ^ 64 - 1" by (simp add: unsigned_minus_1_eq_mask mask_eq_exp_minus_1)
    then show "unat (UINT64_MAX - (MM_PAGE_SIZE - 1)) = 2 ^ 64 - 4096"
      by (subst unat_diff_le) (simp_all add: MM_PAGE_SIZE_def)
  qed
  have al: "unat (NOT (MM_PAGE_SIZE - 1)) = 2 ^ 64 - 4096" using unat_page_align [of UINT64_MAX] mx(1) by simp
  have bs: "unat base < 2 ^ 64" "unat sz < 2 ^ 64" using unsigned_less [of base] unsigned_less [of sz] by simp_all
  have "unat end_addr = min (unat base + unat sz) (2 ^ 64 - 1)"
  proof (cases "unat base + unat sz < 2 ^ 64")
    case True
    then have "unat end0 = unat base + unat sz" unfolding end0_def by (subst unat_add_small) simp_all
    moreover have "\<not> end0 < base" using calculation by (simp add: word_less_unat)
    ultimately show ?thesis using True by (simp add: end_addr_def)
  next
    case False
    have "unat end0 = (unat base + unat sz) mod 2 ^ 64" unfolding end0_def by (simp add: unat_word_ariths)
    also have "\<dots> = unat base + unat sz - 2 ^ 64"
      using False bs by (subst mod_if, subst mod_if) simp
    finally have "end0 < base" using bs False by (simp add: word_less_unat)
    then show ?thesis using False mx by (simp add: end_addr_def)
  qed
  then consider "unat base + unat sz > 2 ^ 64 - 4096" "unat aligned_end = 2 ^ 64 - 4096"
    | "unat base + unat sz \<le> 2 ^ 64 - 4096" "unat end_addr = unat base + unat sz" "\<not> end_addr > UINT64_MAX - (MM_PAGE_SIZE - 1)"
    using mx al by (cases "unat base + unat sz > 2 ^ 64 - 4096")
      (simp_all add: aligned_end_def word_less_unat unat_page_align)
  then show ?thesis
  proof cases
    case 1
    then have "unat aligned_end = 4096 * (2 ^ 52 - 1)" by simp
    then show ?thesis using 1 by (intro exI [of _ "2 ^ 52 - 1"]) simp
  next
    case 2
    have "unat (end_addr + (MM_PAGE_SIZE - 1)) = unat base + unat sz + 4095"
      using 2 by (subst unat_add_small) (simp_all add: MM_PAGE_SIZE_def)
    then have "unat aligned_end = 4096 * ((unat base + unat sz + 4095) div 4096)"
      using 2(3) by (simp add: aligned_end_def unat_page_align)
    then show ?thesis using round_up_less by (intro exI [of _ "(unat base + unat sz + 4095) div 4096"]) simp
  qed
qed

lemma pmm_reserve_range_spec:
  assumes ok: "pmm_ok s" and top: "unat (g_base s) + 4096 * pages s \<le> 2 ^ 64 - 4096"
    and t: "t = pmm_reserve_range base sz s"
  shows "pmm_ok t \<and> same_memory s t \<and> (\<forall>p. unat p < pages s \<longrightarrow> page_status t p =
    (if page_overlaps s (unat base) (unat sz) p \<and> page_status s p = PMM_BLOCK_FREE
     then PMM_BLOCK_RESERVED else page_status s p))"
proof (cases "sz = 0 \<or> g_total_pages s = 0")
  case True
  then have "t = s" using t by (simp add: pmm_reserve_range_def)
  with ok True show ?thesis by (auto simp: same_memory_def page_overlaps_def)
next
  case False
  define end0 where "end0 = base + sz"
  define end_addr where "end_addr = (if end0 < base then UINT64_MAX else end0)"
  define ae where "ae = (if end_addr > UINT64_MAX - (MM_PAGE_SIZE - 1) then UINT64_MAX AND NOT (MM_PAGE_SIZE - 1)
               else (end_addr + (MM_PAGE_SIZE - 1)) AND NOT (MM_PAGE_SIZE - 1))"
  define as where "as = base AND NOT (MM_PAGE_SIZE - 1)"
  define pe where "pe = g_base s + g_total_pages s * MM_PAGE_SIZE"
  define st where "st = (if as < g_base s then g_base s else as)"
  define en where "en = (if ae > pe then pe else ae)"
  obtain b where b: "unat (g_base s) = 4096 * b" using pmm_okD(2) [OF ok] by (auto simp: region_ok_def dvd_def)
  obtain h where h: "unat ae = 4096 * h"
    "\<And>X. 4096 * X + 4096 \<le> 2 ^ 64 - 4096 \<Longrightarrow> X < h \<longleftrightarrow> 4096 * X < unat base + unat sz"
    using range_end [of sz base] False unfolding ae_def end_addr_def end0_def by blast
  define l where "l = unat base div 4096"
  let ?N = "pages s"
  have las: "unat as = 4096 * l" by (simp add: as_def l_def unat_page_align)
  have n: "?N \<le> 65536" "b + ?N \<le> 2 ^ 52 - 1" using pmm_okD(3) [OF ok] top b by simp_all
  have upe: "unat pe = 4096 * (b + ?N)"
  proof -
    have "unat (g_total_pages s * MM_PAGE_SIZE) = ?N * 4096"
      using n by (subst unat_mult_small) (simp_all add: unat_page_size)
    then show ?thesis unfolding pe_def using b n by (subst unat_add_small) simp_all
  qed
  have ov: "page_overlaps s (unat base) (unat sz) p \<longleftrightarrow> l \<le> b + unat p \<and> b + unat p < h" if "unat p < ?N" for p
  proof -
    have "0 < unat sz" using False by (simp add: unat_gt_0)
    moreover have "unat base < 4096 * (b + unat p) + 4096 \<longleftrightarrow> l \<le> b + unat p"
      unfolding l_def by (metis add.commute div_less_iff_less_mult less_Suc_eq_le mult.commute mult_Suc_right zero_less_numeral)
    moreover have "b + unat p < h \<longleftrightarrow> 4096 * (b + unat p) < unat base + unat sz" using h(2) [of "b + unat p"] that n by simp
    ultimately show ?thesis using b by (auto simp: page_overlaps_def algebra_simps)
  qed
  have t': "t = (if ae \<le> g_base s then s else if st \<ge> pe then s
      else reserve_loop (ucast ((st - g_base s) div MM_PAGE_SIZE)) (ucast ((en - g_base s) div MM_PAGE_SIZE)) s)"
    using t False
    by (simp only: pmm_reserve_range_def Let_def st_def en_def ae_def as_def pe_def end_addr_def end0_def if_False)
  have ust: "unat st = 4096 * max l b" using las b by (simp add: st_def word_less_unat max_def)
  have uen: "unat en = 4096 * min h (b + ?N)" using h(1) upe by (simp add: en_def word_less_unat min_def)
  show ?thesis
  proof (cases "h \<le> b \<or> b + ?N \<le> max l b")
    case True
    then have "t = s" using t' h(1) b ust upe by (auto simp: word_le_unat)
    moreover have "\<not> page_overlaps s (unat base) (unat sz) p" if "unat p < ?N" for p
      using ov [OF that] True that by (auto simp: max_def split: if_splits)
    ultimately show ?thesis using ok by (auto simp: same_memory_def)
  next
    case c: False
    then have c': "b < h" "max l b < b + ?N" by (simp_all only: not_le de_Morgan_disj)
    define f where "f = (ucast ((st - g_base s) div MM_PAGE_SIZE) :: u32)"
    define e where "e = (ucast ((en - g_base s) div MM_PAGE_SIZE) :: u32)"
    have t2: "t = reserve_loop f e s" using t' c h(1) b ust upe by (simp add: word_le_unat f_def e_def)
    have us: "unat (st - g_base s) = 4096 * (max l b - b)" "unat (en - g_base s) = 4096 * (min h (b + ?N) - b)"
      using ust uen b c by (simp_all add: unat_diff_le word_le_unat diff_mult_distrib2)
    have uf: "unat f = max l b - b" unfolding f_def
      using us c n by (subst unat_ucast_small) (auto simp: unat_div unat_page_size)
    have ue: "unat e = min h (b + ?N) - b" unfolding e_def
      using us c n by (subst unat_ucast_small) (auto simp: unat_div unat_page_size)
    have "f \<le> p \<and> p < e \<longleftrightarrow> page_overlaps s (unat base) (unat sz) p" if "unat p < ?N" for p
      using page_bounds_nat [OF that c'] uf ue ov [OF that] by (simp add: word_le_unat word_less_unat)
    with reserve_loop_spec [OF ok t2] show ?thesis by auto
  qed
qed

text \<open>Start-up: what \<^verbatim>\<open>pmm_init\<close> computes for the region's bounds.\<close>

lemma init_total:
  fixes base sz :: u64
  defines "gb \<equiv> (base + (MM_PAGE_SIZE - 1)) AND NOT (MM_PAGE_SIZE - 1)"
  defines "tot \<equiv> if base + sz < base \<or> gb \<ge> base + sz then 0 else (base + sz - gb) div MM_PAGE_SIZE"
  defines "n \<equiv> if tot > PMM_MAX_PAGES then PMM_MAX_PAGES else tot"
  shows "4096 dvd unat gb" "unat n \<le> 65536" "unat gb + 4096 * unat n \<le> 2 ^ 64"
    "unat n > 0 \<Longrightarrow> unat gb + 4096 * unat n \<le> unat base + unat sz"
    "unat base \<le> 2 ^ 64 - 4096 \<Longrightarrow> unat base \<le> unat gb"
proof -
  have g: "unat gb = 4096 * (unat (base + (MM_PAGE_SIZE - 1)) div 4096)" by (simp add: gb_def unat_page_align)
  then show "4096 dvd unat gb" by simp
  have tn: "unat n \<le> unat tot" "unat n \<le> 65536"
    by (auto simp: n_def PMM_MAX_PAGES_def word_less_unat)
  then show "unat n \<le> 65536" by simp
  have gl: "unat gb < 2 ^ 64" using unsigned_less [of gb] by simp
  have main: "unat gb + 4096 * unat n \<le> 2 ^ 64 \<and> (unat n > 0 \<longrightarrow> unat gb + 4096 * unat n \<le> unat base + unat sz)"
  proof (cases "base + sz < base \<or> gb \<ge> base + sz")
    case True
    then show ?thesis using tn gl by (simp add: tot_def)
  next
    case False
    then have "unat (base + sz - gb) = unat (base + sz) - unat gb" "unat gb < unat (base + sz)"
      by (simp_all add: unat_diff_le word_le_unat)
    then have "4096 * unat tot \<le> unat (base + sz) - unat gb"
      using False by (simp add: tot_def unat_div unat_page_size)
    moreover have "unat (base + sz) \<le> unat base + unat sz" by (simp add: unat_word_ariths)
    moreover have "unat (base + sz) < 2 ^ 64" using unsigned_less [of "base + sz"] by simp
    ultimately show ?thesis using tn \<open>unat gb < unat (base + sz)\<close> by linarith
  qed
  then show "unat gb + 4096 * unat n \<le> 2 ^ 64" "unat n > 0 \<Longrightarrow> unat gb + 4096 * unat n \<le> unat base + unat sz" by auto
  show "unat base \<le> unat gb" if "unat base \<le> 2 ^ 64 - 4096"
  proof -
    have "unat (base + (MM_PAGE_SIZE - 1)) = unat base + 4095"
      using that by (subst unat_add_small) (simp_all add: MM_PAGE_SIZE_def)
    then show ?thesis using g by simp
  qed
qed

lemma pmm_init_spec:
  fixes base sz :: u64
  assumes t: "t = pmm_init base sz s"
  shows "pmm_ok t" "\<And>p. unat p < pages t \<Longrightarrow> page_status t p = (if p = 0 then PMM_BLOCK_RESERVED else PMM_BLOCK_FREE)"
    "pages t > 0 \<Longrightarrow> unat (g_base t) + 4096 * pages t \<le> unat base + unat sz"
    "unat base \<le> 2 ^ 64 - 4096 \<Longrightarrow> unat base \<le> unat (g_base t)"
proof -
  define gb where "gb = (base + (MM_PAGE_SIZE - 1)) AND NOT (MM_PAGE_SIZE - 1)"
  define tot where "tot = (if base + sz < base \<or> gb \<ge> base + sz then 0 else (base + sz - gb) div MM_PAGE_SIZE)"
  define n where "n = (if tot > PMM_MAX_PAGES then PMM_MAX_PAGES else tot)"
  note it = init_total(1) [of base, folded gb_def]
    init_total(2-4) [of base sz, folded gb_def, folded tot_def, folded n_def]
    init_total(5) [of base, folded gb_def]
  define s1 where "s1 = reset_allocator_state (s\<lparr>g_base := gb, g_total_pages := n, g_free_pages := 0\<rparr>)"
  have t': "t = (if n > 0 then snd (reserve_page 0 (add_free_range 0 (ucast n) s1)) else s1)"
    unfolding t pmm_init_def Let_def s1_def n_def tot_def gb_def by simp
  have p1: "pages s1 = unat n" "g_base s1 = gb" by (simp_all add: s1_def reset_allocator_state_def)
  have w1: "pmm_wf {p. unat p < unat n} {} s1"
    using reset_wf [of "s\<lparr>g_base := gb, g_total_pages := n\<rparr>"] it(2) by (simp add: s1_def)
  have main: "pmm_wf {} {} t \<and> same_memory s1 t \<and>
    (\<forall>p. unat p < unat n \<longrightarrow> page_status t p = (if p = 0 then PMM_BLOCK_RESERVED else PMM_BLOCK_FREE))"
  proof (cases "n > 0")
    case False
    then have z: "n = 0" by (simp add: word_gt_0)
    then have "{p :: u32. unat p < unat n} = {}" by simp
    with w1 have "pmm_wf {} {} s1" by simp
    then show ?thesis using z t' by (simp add: same_memory_def)
  next
    case True
    define s2 where "s2 = add_free_range 0 (ucast n) s1"
    have un: "unat (ucast n :: u32) = unat n" using it(2) by (intro unat_ucast_small) simp
    have r: "pmm_wf {} {} s2 \<and> same_memory s1 s2 \<and>
      (\<forall>p. unat p < unat n \<longrightarrow> page_status s2 p = PMM_BLOCK_FREE)"
      using add_free_range_spec [of 0 s1 "ucast n" s2] w1 un p1 by (simp add: s2_def)
    obtain v u where vu: "reserve_page 0 s2 = (v, u)" by (metis surj_pair)
    have "t = u" using t' True vu by (simp add: s2_def)
    have p2: "pages s2 = unat n" using r p1 by (simp add: same_memory_def)
    have n0: "0 < unat n" using True by (simp add: word_less_unat)
    note rp = reserve_page_spec [OF conjunct1 [OF r] vu]
    have "page_status u p = (if p = 0 then PMM_BLOCK_RESERVED else PMM_BLOCK_FREE)" if "unat p < unat n" for p
      using rp(4) [of p] r that p2 n0 by simp
    then show ?thesis using rp(1,2) r \<open>t = u\<close> by (simp add: same_memory_def)
  qed
  then have pt: "pages t = unat n" "g_base t = gb" using p1 by (simp_all add: same_memory_def)
  show st: "page_status t p = (if p = 0 then PMM_BLOCK_RESERVED else PMM_BLOCK_FREE)" if "unat p < pages t" for p
    using main that pt by simp
  show "pmm_ok t" using main pt it(1,3) by (simp add: pmm_ok_def region_ok_def)
  show "unat (g_base t) + 4096 * pages t \<le> unat base + unat sz" if "pages t > 0" using it(4) that pt by simp
  show "unat base \<le> unat (g_base t)" if "unat base \<le> 2 ^ 64 - 4096" using it(5) that pt by simp
qed

end
