(* ===== verification/Pmm_Props.thy ===== *)
theory Pmm_Props
  imports Pmm_Spec
begin

text \<open>
  The allocator's contract as a locale, its interpretation on kernel/mm/pmm.c, and the properties
  of the allocator.
\<close>

section \<open>Runs of a client\<close>

datatype frame_op = FAlloc | FFree u64

text \<open>A client's calls in sequence, with the addresses the allocations returned.\<close>

primrec frame_trace :: "('s \<Rightarrow> u64 \<times> 's) \<Rightarrow> (u64 \<Rightarrow> 's \<Rightarrow> 's) \<Rightarrow> frame_op list \<Rightarrow> 's \<Rightarrow> (frame_op \<times> u64) list" where
  "frame_trace alloc release [] s = []"
| "frame_trace alloc release (c # cs) s =
     (case c of
        FAlloc \<Rightarrow> (let (a, t) = alloc s in (c, a) # frame_trace alloc release cs t)
      | FFree a \<Rightarrow> (c, a) # frame_trace alloc release cs (release a s))"

text \<open>No allocation of the trace returns an address of \<open>U\<close>, the addresses handed out and not yet
  given back.\<close>

fun no_reuse :: "u64 set \<Rightarrow> (frame_op \<times> u64) list \<Rightarrow> bool" where
  "no_reuse U [] = True"
| "no_reuse U ((FAlloc, a) # tr) = (if a = 0 then no_reuse U tr else a \<notin> U \<and> no_reuse (insert a U) tr)"
| "no_reuse U ((FFree b, a) # tr) = no_reuse (U - {b}) tr"

definition allocated_in :: "(frame_op \<times> u64) list \<Rightarrow> u64 set" where
  "allocated_in tr = {a. (FAlloc, a) \<in> set tr \<and> a \<noteq> 0}"

lemma allocated_in_Nil [simp]: "allocated_in [] = {}"
  by (simp add: allocated_in_def)

lemma allocated_in_Cons [simp]:
  "allocated_in ((c, a) # tr) = (if c = FAlloc \<and> a \<noteq> 0 then insert a (allocated_in tr) else allocated_in tr)"
  by (auto simp: allocated_in_def)

locale frame_allocator =
  fixes ok :: "'s \<Rightarrow> bool" and avail used :: "'s \<Rightarrow> u64 set"
    and alloc :: "'s \<Rightarrow> u64 \<times> 's" and release :: "u64 \<Rightarrow> 's \<Rightarrow> 's"
  assumes disjoint: "ok s \<Longrightarrow> avail s \<inter> used s = {}"
    and nonnull: "ok s \<Longrightarrow> 0 \<notin> avail s"
    and alloc_none: "ok s \<Longrightarrow> avail s = {} \<Longrightarrow> alloc s = (0, s)"
    and alloc_some: "ok s \<Longrightarrow> avail s \<noteq> {} \<Longrightarrow> alloc s = (a, t) \<Longrightarrow>
      a \<in> avail s \<and> ok t \<and> avail t = avail s - {a} \<and> used t = insert a (used s)"
    and release_used: "ok s \<Longrightarrow> a \<in> used s \<Longrightarrow>
      ok (release a s) \<and> avail (release a s) = insert a (avail s) \<and> used (release a s) = used s - {a}"
    and release_other: "ok s \<Longrightarrow> a \<notin> used s \<Longrightarrow> release a s = s"
begin

lemma alloc_cases:
  assumes "ok s" "alloc s = (a, t)"
  obtains "avail s = {}" "a = 0" "t = s"
  | "a \<in> avail s" "a \<noteq> 0" "a \<notin> used s" "ok t" "avail t = avail s - {a}" "used t = insert a (used s)"
proof (cases "avail s = {}")
  case True
  then show ?thesis using alloc_none [OF assms(1)] assms(2) that(1) by simp
next
  case False
  then show ?thesis using alloc_some [OF assms(1) False assms(2)] nonnull [OF assms(1)] disjoint [OF assms(1)] that(2)
    by blast
qed

lemma release_ok:
  assumes "ok s"
  shows "ok (release a s)" "used (release a s) = used s - {a}"
    "avail (release a s) \<union> used (release a s) = avail s \<union> used s"
  using release_used [OF assms, of a] release_other [OF assms, of a] assms by (cases "a \<in> used s"; auto)+

lemma trace_no_reuse: "ok s \<Longrightarrow> no_reuse (used s) (frame_trace alloc release cs s)"
proof (induction cs arbitrary: s)
  case (Cons c cs)
  show ?case
  proof (cases c)
    case FAlloc
    obtain a t where at: "alloc s = (a, t)" by (metis surj_pair)
    from Cons.prems at show ?thesis
    proof (rule alloc_cases)
      assume "a = 0" "t = s"
      then show ?thesis using Cons FAlloc at by simp
    next
      assume h: "a \<noteq> 0" "a \<notin> used s" "ok t" "used t = insert a (used s)"
      then show ?thesis using Cons.IH [OF h(3)] FAlloc at by simp
    qed
  next
    case (FFree a)
    then show ?thesis using Cons.IH [of "release a s"] release_ok(1,2) [OF Cons.prems, of a] by simp
  qed
qed simp

lemma trace_within: "ok s \<Longrightarrow> allocated_in (frame_trace alloc release cs s) \<subseteq> avail s \<union> used s"
proof (induction cs arbitrary: s)
  case (Cons c cs)
  show ?case
  proof (cases c)
    case FAlloc
    obtain a t where at: "alloc s = (a, t)" by (metis surj_pair)
    from Cons.prems at show ?thesis
    proof (rule alloc_cases)
      assume "avail s = {}" "a = 0" "t = s"
      then show ?thesis using Cons.IH [OF Cons.prems] FAlloc at by simp
    next
      assume h: "a \<in> avail s" "a \<noteq> 0" "ok t" "avail t = avail s - {a}" "used t = insert a (used s)"
      have "allocated_in (frame_trace alloc release (c # cs) s) = insert a (allocated_in (frame_trace alloc release cs t))"
        using FAlloc at h(2) by simp
      also have "\<dots> \<subseteq> insert a (avail t \<union> used t)" using Cons.IH [OF h(3)] by (rule insert_mono)
      also have "\<dots> \<subseteq> avail s \<union> used s" using h(1) unfolding h(4,5) by blast
      finally show ?thesis .
    qed
  next
    case (FFree a)
    then show ?thesis
      using Cons.IH [OF release_ok(1) [OF Cons.prems, of a]] unfolding release_ok(3) [OF Cons.prems] by simp
  qed
qed simp

end

lemma free_frame_nonnull: "pmm_ok s \<Longrightarrow> 0 \<notin> free_frames s"
proof
  assume ok: "pmm_ok s" and "0 \<in> free_frames s"
  then obtain p where p: "unat p < pages s" "page_status s p = PMM_BLOCK_FREE" "frame_addr s p = 0"
    by (auto simp: frames_def)
  then have "p = 0" using unat_frame_addr [OF pmm_okD(2,3) [OF ok] p(1)] by (simp add: word_eq_unat)
  with p pmm_okD(4) [OF ok] show False by auto
qed

interpretation pmm: frame_allocator pmm_ok free_frames used_frames pmm_alloc_page pmm_free_page
proof unfold_locales
  fix s :: pmm and a t
  assume ok: "pmm_ok s"
  show "free_frames s \<inter> used_frames s = {}" using frames_disjoint [OF ok] by simp
  show "0 \<notin> free_frames s" using ok by (rule free_frame_nonnull)
  show "free_frames s = {} \<Longrightarrow> pmm_alloc_page s = (0, s)"
    using pmm_alloc_page_spec [OF ok] by (cases "pmm_alloc_page s") auto
  show "free_frames s \<noteq> {} \<Longrightarrow> pmm_alloc_page s = (a, t) \<Longrightarrow>
    a \<in> free_frames s \<and> pmm_ok t \<and> free_frames t = free_frames s - {a} \<and> used_frames t = insert a (used_frames s)"
    using pmm_alloc_page_spec [OF ok] by auto
  show "a \<in> used_frames s \<Longrightarrow> pmm_ok (pmm_free_page a s) \<and>
    free_frames (pmm_free_page a s) = insert a (free_frames s) \<and> used_frames (pmm_free_page a s) = used_frames s - {a}"
    "a \<notin> used_frames s \<Longrightarrow> pmm_free_page a s = s"
    using pmm_free_page_spec [OF ok refl, of a] by auto
qed

lemma card_page_range:
  assumes "n \<le> 2 ^ 32"
  shows "card {p :: u32. 0 < unat p \<and> unat p < n} = n - 1"
proof -
  let ?P = "{p :: u32. 0 < unat p \<and> unat p < n}"
  have img: "unat ` ?P = {1..<n}"
  proof (intro equalityI subsetI)
    fix x assume x: "x \<in> {1..<n}"
    then have "unat (of_nat x :: u32) = x" using assms by (simp add: unat_of_nat)
    with x show "x \<in> unat ` ?P" by (intro image_eqI [of _ _ "of_nat x"]) auto
  qed auto
  have "inj_on unat ?P" using word_eq_unat unfolding inj_on_def by blast
  then have "card ?P = card (unat ` ?P)" by (rule card_image [symmetric])
  then show ?thesis unfolding img by simp
qed

text \<open>The allocator's static data before the first call.\<close>

definition pmm_bss :: pmm where
  "pmm_bss = \<lparr>g_free_heads = (\<lambda>_. 0), g_free_next = (\<lambda>_. 0), g_free_prev = (\<lambda>_. 0), g_page_owner = (\<lambda>_. 0),
     g_block_state = (\<lambda>_. 0), g_block_order = (\<lambda>_. 0), g_base = 0, g_total_pages = 0, g_free_pages = 0\<rparr>"

section \<open>Properties\<close>

text \<open>
  C29. After \<^verbatim>\<open>pmm_init\<close> the allocator is well formed (free lists, block heads, page owners and the
  free counter agree, the region does not wrap), its first page is reserved and every other page
  free, so the counter is one less than the number of pages; and for a base at least a page below
  the top of the address space the managed region lies inside \<open>[base, base + size)\<close>.
\<close>

theorem pmm_init_ok:
  fixes base sz :: u64
  assumes "t = pmm_init base sz s"
  shows "pmm_ok t \<and> unat (pmm_free_pages t) = pages t - 1 \<and>
    (\<forall>p. unat p < pages t \<longrightarrow> page_status t p = (if p = 0 then PMM_BLOCK_RESERVED else PMM_BLOCK_FREE)) \<and>
    (unat base \<le> 2 ^ 64 - 4096 \<and> pages t > 0 \<longrightarrow>
      unat base \<le> unat (g_base t) \<and> unat (g_base t) + 4096 * pages t \<le> unat base + unat sz)"
proof -
  note i = pmm_init_spec [OF assms]
  have "{p. unat p < pages t \<and> page_status t p = PMM_BLOCK_FREE} = {p. 0 < unat p \<and> unat p < pages t}"
    using i(2) by (auto simp: unat_gt_0)
  moreover have "card {p :: u32. 0 < unat p \<and> unat p < pages t} = pages t - 1"
    using pmm_okD(3) [OF i(1)] by (intro card_page_range) simp
  ultimately have "card (free_frames t) = pages t - 1"
    using card_image [OF inj_frame_addr [OF i(1)], of PMM_BLOCK_FREE] by (simp add: frames_def)
  then have "unat (pmm_free_pages t) = pages t - 1" using card_free_frames [OF i(1)] by (simp add: pmm_free_pages_def)
  with i show ?thesis by blast
qed

theorem pmm_init_ok_witness:
  "(let t = pmm_init 0x1234 0x3000 pmm_bss in
     pmm_ok t \<and> unat (pmm_free_pages t) = pages t - 1 \<and> g_total_pages t = 2 \<and> g_base t = 0x2000)"
proof -
  have "g_total_pages (pmm_init 0x1234 0x3000 pmm_bss) = 2" "g_base (pmm_init 0x1234 0x3000 pmm_bss) = 0x2000"
    by code_simp+
  with pmm_init_ok [OF refl, of "0x1234" "0x3000" pmm_bss] show ?thesis unfolding Let_def by blast
qed

text \<open>
  C15. \<^verbatim>\<open>pmm_alloc_page\<close> returns 0 and changes nothing exactly when no frame is free.  Otherwise it
  returns a free frame, moves that one frame from the free to the used ones whatever blocks were
  split on the way, decrements the free counter, and keeps the allocator well formed.
\<close>

theorem pmm_alloc_page_refines:
  assumes "pmm_ok s" "pmm_alloc_page s = (a, t)"
  shows "if pmm_free_pages s = 0 then a = 0 \<and> t = s
    else a \<noteq> 0 \<and> a \<in> free_frames s \<and> pmm_ok t \<and> free_frames t = free_frames s - {a} \<and>
      used_frames t = insert a (used_frames s) \<and> reserved_frames t = reserved_frames s \<and>
      unat (pmm_free_pages t) = unat (pmm_free_pages s) - 1"
proof -
  have fin: "finite (free_frames s)" by simp
  have "card (free_frames s) = unat (pmm_free_pages s)"
    using card_free_frames [OF assms(1)] by (simp add: pmm_free_pages_def)
  moreover have "a \<noteq> 0" if "a \<in> free_frames s" using that free_frame_nonnull [OF assms(1)] by auto
  moreover have "unat (pmm_free_pages t) = card (free_frames t)" if "pmm_ok t"
    using card_free_frames [OF that] by (simp add: pmm_free_pages_def)
  ultimately show ?thesis
    using pmm_alloc_page_spec [OF assms] fin
    by (cases "free_frames s = {}") (auto simp: unat_eq_0 card_gt_0_iff)
qed

theorem pmm_alloc_page_refines_witness:
  "(let s = pmm_init 0 0x2000 pmm_bss; (a, t) = pmm_alloc_page s in
     a = 0x1000 \<and> free_frames t = free_frames s - {0x1000} \<and> unat (pmm_free_pages t) = 0)"
proof -
  let ?s = "pmm_init 0 0x2000 pmm_bss"
  obtain a t where at: "pmm_alloc_page ?s = (a, t)" by (metis surj_pair)
  have c: "pmm_free_pages ?s = 1" "fst (pmm_alloc_page ?s) = 0x1000" by code_simp+
  have a: "a = 0x1000" using c(2) at by simp
  show ?thesis
    using pmm_alloc_page_refines [OF pmm_init_spec(1) [OF refl] at] at a c(1) by (simp add: Let_def)
qed

text \<open>
  C16. \<^verbatim>\<open>pmm_free_page\<close> on the address of a frame in use makes that frame free again, whatever buddies
  it is merged with, and increments the free counter; on every other argument (an address outside
  the region or inside a page, a frame already free, a reserved frame) it changes nothing.
\<close>

theorem pmm_free_page_refines:
  assumes "pmm_ok s" "t = pmm_free_page a s"
  shows "if a \<in> used_frames s
    then pmm_ok t \<and> free_frames t = insert a (free_frames s) \<and> used_frames t = used_frames s - {a} \<and>
      reserved_frames t = reserved_frames s \<and> unat (pmm_free_pages t) = unat (pmm_free_pages s) + 1
    else t = s"
proof -
  have "a \<notin> free_frames s" if "a \<in> used_frames s"
    using that frames_disjoint [OF assms(1), of PMM_BLOCK_FREE PMM_BLOCK_ALLOCATED] by auto
  moreover have "unat (pmm_free_pages u) = card (free_frames u)" if "pmm_ok u" for u
    using card_free_frames [OF that] by (simp add: pmm_free_pages_def)
  moreover have "finite (free_frames s)" by simp
  ultimately show ?thesis using pmm_free_page_spec [OF assms] assms(1) by auto
qed

theorem pmm_free_page_refines_witness:
  "(let s = snd (pmm_alloc_page (pmm_init 0 0x2000 pmm_bss)); t = pmm_free_page 0x1000 s in
     pmm_ok t \<and> free_frames t = insert 0x1000 (free_frames s) \<and> pmm_free_page 0x1000 t = t)"
proof -
  let ?init = "pmm_init 0 0x2000 pmm_bss"
  let ?s = "snd (pmm_alloc_page ?init)"
  let ?t = "pmm_free_page 0x1000 ?s"
  have c: "pmm_free_pages ?init = 1" "fst (pmm_alloc_page ?init) = 0x1000" by code_simp+
  have e: "pmm_alloc_page ?init = (0x1000, ?s)" using c(2) by (metis prod.collapse)
  have i: "pmm_ok ?init" by (rule pmm_init_spec(1) [OF refl])
  have "free_frames ?init \<noteq> {}" using card_free_frames [OF i] c(1) by (auto simp: pmm_free_pages_def)
  then have s: "pmm_ok ?s" "0x1000 \<in> used_frames ?s" using pmm_alloc_page_spec [OF i e] by simp_all
  have t: "pmm_ok ?t" "free_frames ?t = insert 0x1000 (free_frames ?s)" "0x1000 \<notin> used_frames ?t"
    using pmm_free_page_refines [OF s(1) refl, of "0x1000"] s(2) by simp_all
  then show ?thesis using pmm_free_page_refines [OF t(1) refl, of "0x1000"] by (simp add: Let_def)
qed

text \<open>
  C1. Over any sequence of \<^verbatim>\<open>pmm_alloc_page\<close> and \<^verbatim>\<open>pmm_free_page\<close> calls after \<^verbatim>\<open>pmm_init\<close>, wrong or
  repeated frees included, no frame is handed out while an earlier caller still holds it, and
  every frame handed out is one of the frames that were free at the start.
\<close>

theorem pmm_no_double_allocation:
  fixes base sz :: u64
  shows "no_reuse {} (frame_trace pmm_alloc_page pmm_free_page ops (pmm_init base sz s)) \<and>
    allocated_in (frame_trace pmm_alloc_page pmm_free_page ops (pmm_init base sz s))
      \<subseteq> free_frames (pmm_init base sz s)"
proof -
  note i = pmm_init_spec(1,2) [OF refl, where base = base and sz = sz and s = s]
  have "used_frames (pmm_init base sz s) = {}"
    using i(2) unfolding frames_def by auto
  with pmm.trace_no_reuse [OF i(1)] pmm.trace_within [OF i(1)] show ?thesis by (metis sup_bot_right)
qed

text \<open>
  C28. \<^verbatim>\<open>pmm_reserve_range\<close> reserves exactly the free pages that share an address with
  \<open>[base, base + size)\<close>, also when the end of that range overflows, and leaves the status of every
  other page as it was; no later sequence of allocations and frees hands out a page so reserved.
  The region must end a page below the top of the address space.
\<close>

theorem pmm_reserve_range_reserves:
  fixes base sz :: u64
  assumes "pmm_ok s" "unat (g_base s) + 4096 * pages s \<le> 2 ^ 64 - 4096" "t = pmm_reserve_range base sz s"
  shows "pmm_ok t \<and>
    (\<forall>p. unat p < pages s \<longrightarrow> page_status t p =
      (if page_overlaps s (unat base) (unat sz) p \<and> page_status s p = PMM_BLOCK_FREE
       then PMM_BLOCK_RESERVED else page_status s p)) \<and>
    (\<forall>p ops. unat p < pages s \<longrightarrow> page_status t p = PMM_BLOCK_RESERVED \<longrightarrow>
      frame_addr s p \<notin> allocated_in (frame_trace pmm_alloc_page pmm_free_page ops t))"
proof -
  note r = pmm_reserve_range_spec [OF assms]
  have ok: "pmm_ok t" and sm: "same_memory s t" using r by simp_all
  have "frame_addr s p \<notin> allocated_in (frame_trace pmm_alloc_page pmm_free_page ops t)"
    if p: "unat p < pages s" "page_status t p = PMM_BLOCK_RESERVED" for p ops
  proof -
    have "unat p < pages t" using p(1) sm by (simp add: same_memory_def)
    then have "frame_addr t p \<notin> free_frames t \<union> used_frames t" using frames_iff [OF ok] p(2) by simp
    then show ?thesis using pmm.trace_within [OF ok, of ops] frame_addr_same [OF sm] by auto
  qed
  with r show ?thesis by blast
qed

theorem pmm_reserve_range_reserves_witness:
  "(let s = pmm_init 0 0x3000 pmm_bss; t = pmm_reserve_range 0x1800 0x10 s in
     pmm_ok t \<and> page_status t 1 = PMM_BLOCK_RESERVED \<and> page_status t 2 = PMM_BLOCK_FREE)"
proof -
  let ?s = "pmm_init 0 0x3000 pmm_bss"
  have c: "g_base ?s = 0" "g_total_pages ?s = 3" by code_simp+
  have st: "page_status ?s 1 = PMM_BLOCK_FREE" "page_status ?s 2 = PMM_BLOCK_FREE"
    using pmm_init_spec(2) [OF refl, where base = 0 and sz = "0x3000" and s = pmm_bss] c by simp_all
  show ?thesis
    using pmm_reserve_range_reserves [OF pmm_init_spec(1) [OF refl, of 0 "0x3000" pmm_bss] _ refl, of "0x1800" "0x10"] c st
    by (auto simp: Let_def page_overlaps_def)
qed

end
