(* ===== verification/Sched.thy ===== *)
theory Sched
  imports Fifo Pmm
begin

text \<open>
  The task scheduler, kernel/sched/sched.c, with the context switch of
  arch/x86_64/sched/context_switch.S.

  \<^item> Tasks live in a table of 128 slots; a task pointer is the bootstrap task or a slot.
  \<^item> The critical sections under \<open>g_sched_lock\<close> with interrupts off are single definitions.
  \<^item> \<open>g_cpu\<close> holds the callee-saved registers of the processor.  A context switch stores them in
    the context of the task that leaves and loads those of the task that enters; the state after
    a switch is the one the entering task sees, and a result is the value the leaving task gets
    when it is resumed.
  \<^item> \<open>g_kstack\<close> is the memory of the kernel stacks, as 64-bit words by address.
  \<^item> A call that ends in \<^verbatim>\<open>kpanic\<close> is \<open>None\<close>.  Serial output is left out, except for the counters
    that limit it.
\<close>

section \<open>Data\<close>

definition SCHED_MAX_TASKS :: u32 where "SCHED_MAX_TASKS = 128"
definition SCHED_READY_QUEUE_CAPACITY :: u32 where "SCHED_READY_QUEUE_CAPACITY = SCHED_MAX_TASKS"
definition SCHED_WAIT_QUEUE_CAPACITY :: u32 where "SCHED_WAIT_QUEUE_CAPACITY = 128"
definition SCHED_TASK_INDEX_NONE :: u16 where "SCHED_TASK_INDEX_NONE = 0xFFFF"

datatype task_state_t = TASK_UNUSED | TASK_READY | TASK_RUNNING | TASK_BLOCKED | TASK_EXITED

record task_context_t =
  ctx_rsp :: u64
  ctx_rbx :: u64
  ctx_rbp :: u64
  ctx_r12 :: u64
  ctx_r13 :: u64
  ctx_r14 :: u64
  ctx_r15 :: u64

record task_t =
  tid :: u64
  tstate :: task_state_t
  tname :: "string option"
  tprocess :: "u16 option"
  tentry :: u64
  targ :: u64
  runtime_ticks :: u64
  vruntime :: u64
  context_switches :: u64
  tcontext :: task_context_t
  kernel_stack_base :: u64
  kernel_stack_size :: u64

record wait_queue_t =
  wq_queue :: "u16 list"
  wq_head :: u16
  wq_tail :: u16
  wq_size :: u16

datatype task_ref = Bootstrap | TaskSlot u16

record sched =
  g_processes :: "u64 list"
  g_tasks :: "task_t list"
  g_bootstrap_task :: task_t
  g_ready_queue :: "u16 list"
  g_ready_head :: u16
  g_ready_tail :: u16
  g_ready_size :: u16
  g_next_pid :: u64
  g_next_tid :: u64
  g_current_task :: "task_ref option"
  g_current_index :: u16
  g_sched_ticks :: u64
  g_need_resched :: u8
  g_preempt_switches :: u64
  g_preempt_log_emitted :: u8
  g_cfs_min_vruntime :: u64
  g_sched_trace_budget :: u8
  g_cpu :: task_context_t
  g_kstack :: "u64 \<Rightarrow> u64"

text \<open>Access through a task pointer.\<close>

fun task_at :: "task_ref \<Rightarrow> sched \<Rightarrow> task_t" where
  "task_at Bootstrap s = g_bootstrap_task s"
| "task_at (TaskSlot i) s = g_tasks s ! unat i"

fun upd_task :: "task_ref \<Rightarrow> (task_t \<Rightarrow> task_t) \<Rightarrow> sched \<Rightarrow> sched" where
  "upd_task Bootstrap f s = s\<lparr>g_bootstrap_task := f (g_bootstrap_task s)\<rparr>"
| "upd_task (TaskSlot i) f s = s\<lparr>g_tasks := (g_tasks s)[unat i := f (g_tasks s ! unat i)]\<rparr>"

abbreviation set_state :: "task_ref \<Rightarrow> task_state_t \<Rightarrow> sched \<Rightarrow> sched" where
  "set_state r st \<equiv> upd_task r (\<lambda>t. t\<lparr>tstate := st\<rparr>)"

section \<open>Queues of task indices\<close>

text \<open>The callers of these four have tested their queue pointer against NULL.\<close>

definition sched_enqueue_task :: "u16 \<Rightarrow> sched \<Rightarrow> int \<times> sched" where
  "sched_enqueue_task task_index s =
     (if ucast (g_ready_size s) \<ge> SCHED_READY_QUEUE_CAPACITY then (0, s)
      else (1, s\<lparr>g_ready_queue := (g_ready_queue s)[unat (g_ready_tail s) := task_index],
                 g_ready_tail := ring_next (g_ready_tail s) SCHED_READY_QUEUE_CAPACITY,
                 g_ready_size := g_ready_size s + 1\<rparr>))"

definition sched_dequeue_task :: "sched \<Rightarrow> (u16 \<times> sched) option" where
  "sched_dequeue_task s =
     (if g_ready_size s = 0 then None
      else Some (g_ready_queue s ! unat (g_ready_head s),
                 s\<lparr>g_ready_head := ring_next (g_ready_head s) SCHED_READY_QUEUE_CAPACITY,
                   g_ready_size := g_ready_size s - 1\<rparr>))"

definition sched_waitq_enqueue :: "wait_queue_t \<Rightarrow> u16 \<Rightarrow> int \<times> wait_queue_t" where
  "sched_waitq_enqueue q task_index =
     (if ucast (wq_size q) \<ge> SCHED_WAIT_QUEUE_CAPACITY then (0, q)
      else (1, q\<lparr>wq_queue := (wq_queue q)[unat (wq_tail q) := task_index],
                 wq_tail := ring_next (wq_tail q) SCHED_WAIT_QUEUE_CAPACITY,
                 wq_size := wq_size q + 1\<rparr>))"

definition sched_waitq_dequeue :: "wait_queue_t \<Rightarrow> (u16 \<times> wait_queue_t) option" where
  "sched_waitq_dequeue q =
     (if wq_size q = 0 then None
      else Some (wq_queue q ! unat (wq_head q),
                 q\<lparr>wq_head := ring_next (wq_head q) SCHED_WAIT_QUEUE_CAPACITY,
                   wq_size := wq_size q - 1\<rparr>))"

text \<open>The loop of \<^verbatim>\<open>sched_wake_one_locked\<close>, with the attempts left.\<close>

primrec wake_loop :: "nat \<Rightarrow> wait_queue_t \<Rightarrow> sched \<Rightarrow> int \<times> wait_queue_t \<times> sched" where
  "wake_loop 0 q s = (0, q, s)"
| "wake_loop (Suc attempts) q s =
     (case sched_waitq_dequeue q of
        None \<Rightarrow> (0, q, s)
      | Some (candidate, q1) \<Rightarrow>
          if ucast candidate \<ge> SCHED_MAX_TASKS then wake_loop attempts q1 s
          else if tstate (task_at (TaskSlot candidate) s) \<noteq> TASK_BLOCKED then wake_loop attempts q1 s
          else
            let (queued, s1) = sched_enqueue_task candidate (set_state (TaskSlot candidate) TASK_READY s) in
            if queued = 0
            then (0, snd (sched_waitq_enqueue q1 candidate), set_state (TaskSlot candidate) TASK_BLOCKED s1)
            else (1, q1, s1\<lparr>g_need_resched := 1\<rparr>))"

definition sched_wake_one_locked :: "wait_queue_t option \<Rightarrow> sched \<Rightarrow> int \<times> wait_queue_t option \<times> sched" where
  "sched_wake_one_locked queue s =
     (case queue of
        None \<Rightarrow> (0, None, s)
      | Some q \<Rightarrow> (let (woke, q', s') = wake_loop (unat (wq_size q)) q s in (woke, Some q', s')))"

section \<open>Choosing the next task\<close>

definition sched_alloc_task_slot :: "sched \<Rightarrow> u16 option" where
  "sched_alloc_task_slot s = map_option of_nat (first_index (\<lambda>t. tstate t = TASK_UNUSED) (g_tasks s))"

text \<open>One iteration of the scan for the ready task with the least virtual runtime.\<close>

definition pick_scan :: "task_t list \<Rightarrow> u16 \<Rightarrow> u16 \<Rightarrow> u16" where
  "pick_scan tasks i best_index =
     (let candidate = tasks ! unat i in
      if tstate candidate \<noteq> TASK_READY then best_index
      else if best_index = SCHED_TASK_INDEX_NONE then i
      else let best = tasks ! unat best_index in
        if vruntime candidate < vruntime best \<or>
           (vruntime candidate = vruntime best \<and> tid candidate < tid best)
        then i else best_index)"

definition pick_best :: "task_t list \<Rightarrow> u16" where
  "pick_best tasks =
     fold (\<lambda>i. pick_scan tasks (of_nat i)) [0..<unat SCHED_MAX_TASKS] SCHED_TASK_INDEX_NONE"

text \<open>The loop that drains the ready queue and keeps the entries that stay ready.\<close>

primrec drain_loop :: "nat \<Rightarrow> u16 \<Rightarrow> u16 list \<Rightarrow> sched \<Rightarrow> u16 list \<times> sched" where
  "drain_loop 0 best kept s = (kept, s)"
| "drain_loop (Suc attempts) best kept s =
     (case sched_dequeue_task s of
        None \<Rightarrow> (kept, s)
      | Some (candidate, s1) \<Rightarrow>
          if candidate = best then drain_loop attempts best kept s1
          else if ucast candidate \<ge> SCHED_MAX_TASKS then drain_loop attempts best kept s1
          else if tstate (task_at (TaskSlot candidate) s1) \<noteq> TASK_READY then drain_loop attempts best kept s1
          else if length kept < unat SCHED_READY_QUEUE_CAPACITY
          then drain_loop attempts best (kept @ [candidate]) s1
          else drain_loop attempts best kept s1)"

primrec refill_loop :: "u16 list \<Rightarrow> sched \<Rightarrow> int \<times> sched" where
  "refill_loop [] s = (1, s)"
| "refill_loop (k # ks) s =
     (let (queued, s1) = sched_enqueue_task k s in
      if queued = 0 then (0, s1) else refill_loop ks s1)"

text \<open>The result is the chosen index, or none where the source returns 0.\<close>

definition sched_pick_next_ready :: "sched \<Rightarrow> u16 option \<times> sched" where
  "sched_pick_next_ready s =
     (let best_index = pick_best (g_tasks s) in
      if best_index = SCHED_TASK_INDEX_NONE then (None, s)
      else
        let (kept, s1) = drain_loop (unat (g_ready_size s)) best_index [] s;
            s2 = s1\<lparr>g_ready_head := 0, g_ready_tail := 0, g_ready_size := 0\<rparr>;
            (refilled, s3) = refill_loop kept s2
        in if refilled = 0 then (None, s3) else (Some best_index, s3))"

section \<open>Creating tasks\<close>

definition zero_context :: task_context_t where
  "zero_context = \<lparr>ctx_rsp = 0, ctx_rbx = 0, ctx_rbp = 0, ctx_r12 = 0, ctx_r13 = 0, ctx_r14 = 0, ctx_r15 = 0\<rparr>"

definition sched_reset_task :: "task_t \<Rightarrow> task_t" where
  "sched_reset_task task =
     task\<lparr>tid := 0, tstate := TASK_UNUSED, tname := None, tprocess := None, tentry := 0, targ := 0,
          runtime_ticks := 0, vruntime := 0, context_switches := 0, tcontext := zero_context,
          kernel_stack_base := 0, kernel_stack_size := 0\<rparr>"

text \<open>The addresses the linker gives the two functions whose addresses go on a new stack.\<close>

record sched_code =
  addr_sched_task_exit :: u64
  addr_sched_task_trampoline :: u64

definition sched_prepare_task_stack :: "sched_code \<Rightarrow> task_ref \<Rightarrow> sched \<times> pmm \<Rightarrow> int \<times> sched \<times> pmm" where
  "sched_prepare_task_stack code task sp =
     (let (s, p) = sp;
          (page, p1) = pmm_alloc_page p;
          s1 = upd_task task (\<lambda>t. t\<lparr>kernel_stack_size := MM_PAGE_SIZE, kernel_stack_base := page\<rparr>) s
      in if page = 0 then (0, upd_task task (\<lambda>t. t\<lparr>kernel_stack_size := 0\<rparr>) s1, p1)
         else
           let stack_top = page + MM_PAGE_SIZE;
               s2 = s1\<lparr>g_kstack := (g_kstack s1)
                 (stack_top - 8 := addr_sched_task_exit code,
                  stack_top - 16 := addr_sched_task_trampoline code)\<rparr>
           in (1, upd_task task (\<lambda>t. t\<lparr>tcontext := zero_context\<lparr>ctx_rsp := stack_top - 16\<rparr>\<rparr>) s2, p1))"

definition sched_init :: "sched \<Rightarrow> sched" where
  "sched_init s = s\<lparr>
     g_processes := map (\<lambda>_. 0) (g_processes s),
     g_tasks := map sched_reset_task (g_tasks s),
     g_ready_head := 0, g_ready_tail := 0, g_ready_size := 0,
     g_next_pid := 1, g_next_tid := 1, g_sched_ticks := 0, g_need_resched := 0,
     g_preempt_switches := 0, g_preempt_log_emitted := 0, g_cfs_min_vruntime := 0,
     g_sched_trace_budget := 8,
     g_bootstrap_task := (sched_reset_task (g_bootstrap_task s))
        \<lparr>tid := 0, tstate := TASK_RUNNING, tname := Some ''bootstrap''\<rparr>,
     g_current_task := Some Bootstrap, g_current_index := SCHED_TASK_INDEX_NONE\<rparr>"

definition sched_current_task :: "sched \<Rightarrow> task_ref option" where
  "sched_current_task s = g_current_task s"

text \<open>
  \<^verbatim>\<open>sched_create_kernel_task\<close> holds the lock twice: to reserve a slot as a blocked task, and, once
  the stack exists, to publish it on the ready queue.
\<close>

definition create_reserve :: "string option \<Rightarrow> u64 \<Rightarrow> u64 \<Rightarrow> u16 \<Rightarrow> sched \<Rightarrow> sched" where
  "create_reserve nm entry arg index s =
     upd_task (TaskSlot index)
       (\<lambda>t. (sched_reset_task t)\<lparr>tid := g_next_tid s, tstate := TASK_BLOCKED, tname := nm,
          tprocess := Some index, tentry := entry, targ := arg, vruntime := g_cfs_min_vruntime s\<rparr>)
       (s\<lparr>g_processes := (g_processes s)[unat index := g_next_pid s],
          g_next_pid := g_next_pid s + 1, g_next_tid := g_next_tid s + 1\<rparr>)"

definition create_cancel :: "u16 \<Rightarrow> sched \<Rightarrow> sched" where
  "create_cancel index s =
     upd_task (TaskSlot index) sched_reset_task (s\<lparr>g_processes := (g_processes s)[unat index := 0]\<rparr>)"

definition create_publish :: "u16 \<Rightarrow> sched \<Rightarrow> u16 option \<times> sched" where
  "create_publish index s =
     (let (queued, s1) = sched_enqueue_task index (set_state (TaskSlot index) TASK_READY s) in
      if queued = 0 then (None, create_cancel index s1) else (Some index, s1))"

definition sched_create_kernel_task ::
  "sched_code \<Rightarrow> string option \<Rightarrow> u64 \<Rightarrow> u64 \<Rightarrow> sched \<times> pmm \<Rightarrow> u16 option \<times> sched \<times> pmm" where
  "sched_create_kernel_task code nm entry arg sp =
     (let (s, p) = sp in
      if entry = 0 then (None, s, p)
      else case sched_alloc_task_slot s of
          None \<Rightarrow> (None, s, p)
        | Some index \<Rightarrow>
            let s1 = create_reserve nm entry arg index s;
                (prepared, s2, p1) = sched_prepare_task_stack code (TaskSlot index) (s1, p)
            in if prepared = 0 then (None, create_cancel index s2, p1)
               else let (r, s3) = create_publish index s2 in (r, s3, p1))"

text \<open>\<open>idle_entry\<close> is the address of \<^verbatim>\<open>sched_idle_entry\<close>.\<close>

definition sched_create_idle_task :: "sched_code \<Rightarrow> u64 \<Rightarrow> sched \<times> pmm \<Rightarrow> u16 option \<times> sched \<times> pmm" where
  "sched_create_idle_task code idle_entry sp =
     sched_create_kernel_task code (Some ''idle'') idle_entry 0 sp"

section \<open>Switching\<close>

definition x86_64_context_switch :: "task_ref \<Rightarrow> task_ref \<Rightarrow> sched \<Rightarrow> sched" where
  "x86_64_context_switch from_task to_task s =
     (let s1 = upd_task from_task (\<lambda>t. t\<lparr>tcontext := g_cpu s\<rparr>) s
      in s1\<lparr>g_cpu := tcontext (task_at to_task s1)\<rparr>)"

definition to_bootstrap :: "task_ref \<Rightarrow> sched \<Rightarrow> sched" where
  "to_bootstrap current s =
     x86_64_context_switch current Bootstrap
       (s\<lparr>g_current_task := Some Bootstrap, g_current_index := SCHED_TASK_INDEX_NONE\<rparr>)"

text \<open>The running task, when it is one of the table: the guard shared by the calls below.\<close>

definition running_task :: "sched \<Rightarrow> task_ref option" where
  "running_task s =
     (case g_current_task s of
        None \<Rightarrow> None
      | Some current \<Rightarrow>
          if current = Bootstrap \<or> tstate (task_at current s) \<noteq> TASK_RUNNING \<or>
             g_current_index s = SCHED_TASK_INDEX_NONE
          then None else Some current)"

definition sched_wait_queue_init :: "wait_queue_t option \<Rightarrow> wait_queue_t option" where
  "sched_wait_queue_init queue =
     map_option (\<lambda>q. q\<lparr>wq_head := 0, wq_tail := 0, wq_size := 0\<rparr>) queue"

definition sched_wait_queue_wait :: "wait_queue_t option \<Rightarrow> sched \<Rightarrow> int \<times> wait_queue_t option \<times> sched" where
  "sched_wait_queue_wait queue s =
     (case queue of
        None \<Rightarrow> (0, None, s)
      | Some q \<Rightarrow>
          (case running_task s of
             None \<Rightarrow> (0, Some q, s)
           | Some current \<Rightarrow>
               let (queued, q1) = sched_waitq_enqueue q (g_current_index s) in
               if queued = 0 then (0, Some q1, s)
               else (1, Some q1, to_bootstrap current (set_state current TASK_BLOCKED s))))"

definition sched_wait_queue_wake_one :: "wait_queue_t option \<Rightarrow> sched \<Rightarrow> int \<times> wait_queue_t option \<times> sched" where
  "sched_wait_queue_wake_one queue s = sched_wake_one_locked queue s"

text \<open>
  \<^verbatim>\<open>while (sched_wake_one_locked(queue)) woke++\<close>: a loop that the code does not bound, so a partial
  function; \<open>None\<close> would be a loop that never ends.
\<close>

partial_function (option) wake_all_loop ::
  "u64 \<Rightarrow> wait_queue_t option \<Rightarrow> sched \<Rightarrow> (u64 \<times> wait_queue_t option \<times> sched) option" where
  [code]: "wake_all_loop woke queue s =
     (let (r, queue', s') = sched_wake_one_locked queue s in
      if r \<noteq> 0 then wake_all_loop (woke + 1) queue' s' else Some (woke, queue', s'))"

definition sched_wait_queue_wake_all ::
  "wait_queue_t option \<Rightarrow> sched \<Rightarrow> (u64 \<times> wait_queue_t option \<times> sched) option" where
  "sched_wait_queue_wake_all queue s = wake_all_loop 0 queue s"

definition sched_tick :: "sched \<Rightarrow> sched" where
  "sched_tick s =
     (let s1 = s\<lparr>g_sched_ticks := g_sched_ticks s + 1\<rparr> in
      case g_current_task s1 of
        None \<Rightarrow> s1
      | Some current \<Rightarrow>
          if current \<noteq> Bootstrap \<and> tstate (task_at current s1) = TASK_RUNNING then
            let s2 = upd_task current
                  (\<lambda>t. t\<lparr>runtime_ticks := runtime_ticks t + 1, vruntime := vruntime t + 1\<rparr>) s1
            in s2\<lparr>g_cfs_min_vruntime := vruntime (task_at current s2), g_need_resched := 1\<rparr>
          else s1)"

definition sched_request_resched :: "sched \<Rightarrow> sched" where
  "sched_request_resched s = s\<lparr>g_need_resched := 1\<rparr>"

definition sched_preempt_on_tick :: "sched \<Rightarrow> int \<times> sched" where
  "sched_preempt_on_tick s =
     (if g_need_resched s = 0 then (0, s)
      else case running_task s of
          None \<Rightarrow> (0, s\<lparr>g_need_resched := 0\<rparr>)
        | Some current \<Rightarrow>
            let (queued, s1) = sched_enqueue_task (g_current_index s) (set_state current TASK_READY s) in
            if queued = 0 then (0, (set_state current TASK_RUNNING s1)\<lparr>g_need_resched := 0\<rparr>)
            else (1, to_bootstrap current
                   (s1\<lparr>g_need_resched := 0, g_preempt_switches := g_preempt_switches s1 + 1,
                       g_preempt_log_emitted :=
                         (if g_preempt_log_emitted s1 = 0 then 1 else g_preempt_log_emitted s1)\<rparr>)))"

definition sched_run :: "sched \<Rightarrow> int \<times> sched" where
  "sched_run s =
     (if g_current_task s \<noteq> Some Bootstrap then (0, s)
      else case sched_pick_next_ready s of
          (None, s1) \<Rightarrow> (0, s1)
        | (Some next_index, s1) \<Rightarrow>
            let next_task = TaskSlot next_index;
                s2 = upd_task next_task
                  (\<lambda>t. t\<lparr>tstate := TASK_RUNNING, context_switches := context_switches t + 1\<rparr>) s1;
                s3 = s2\<lparr>g_need_resched := 0, g_current_task := Some next_task, g_current_index := next_index\<rparr>;
                s4 = (if g_sched_trace_budget s3 > 0
                      then s3\<lparr>g_sched_trace_budget := g_sched_trace_budget s3 - 1\<rparr> else s3)
            in (1, x86_64_context_switch Bootstrap next_task s4))"

definition sched_yield :: "sched \<Rightarrow> sched" where
  "sched_yield s =
     (case running_task s of
        None \<Rightarrow> s
      | Some current \<Rightarrow>
          let (queued, s1) = sched_enqueue_task (g_current_index s) (set_state current TASK_READY s) in
          if queued = 0 then set_state current TASK_RUNNING s1 else to_bootstrap current s1)"

definition sched_task_exit :: "sched \<Rightarrow> sched option" where
  "sched_task_exit s =
     (case g_current_task s of
        None \<Rightarrow> None
      | Some current \<Rightarrow>
          if current = Bootstrap then None
          else Some (to_bootstrap current
                 (upd_task current (\<lambda>t. t\<lparr>tstate := TASK_EXITED, tentry := 0, targ := 0\<rparr>) s)))"

text \<open>The call a new task's trampoline makes: the entry point and its argument.\<close>

definition sched_task_trampoline :: "sched \<Rightarrow> (u64 \<times> u64) option" where
  "sched_task_trampoline s =
     (case sched_current_task s of
        None \<Rightarrow> None
      | Some task \<Rightarrow>
          if tentry (task_at task s) = 0 then None
          else Some (tentry (task_at task s), targ (task_at task s)))"

definition sched_ready_count :: "sched \<Rightarrow> u64" where
  "sched_ready_count s = ucast (g_ready_size s)"

definition sched_total_ticks :: "sched \<Rightarrow> u64" where
  "sched_total_ticks s = g_sched_ticks s"

definition sched_preempt_count :: "sched \<Rightarrow> u64" where
  "sched_preempt_count s = g_preempt_switches s"

end
