(* ===== verification/Sched_Inv.thy ===== *)
theory Sched_Inv
  imports Sched Pmm_Props
begin

text \<open>
  The scheduler's invariant and the abstract machine it implements: a state per task, the list of
  ready tasks in order of arrival, and the running task.  Each call of kernel/sched/sched.c is a
  sequence of steps of that machine.
\<close>

section \<open>The queues\<close>

definition ready_list :: "sched \<Rightarrow> u16 list" where
  "ready_list s = ring_list (g_ready_queue s) (unat (g_ready_head s)) (unat (g_ready_size s))"

definition ready_ok :: "sched \<Rightarrow> bool" where
  "ready_ok s \<longleftrightarrow> length (g_ready_queue s) = 128 \<and>
     ring_ok (g_ready_queue s) (unat (g_ready_head s)) (unat (g_ready_tail s)) (unat (g_ready_size s))"

definition wait_list :: "wait_queue_t \<Rightarrow> u16 list" where
  "wait_list q = ring_list (wq_queue q) (unat (wq_head q)) (unat (wq_size q))"

definition wait_ok :: "wait_queue_t \<Rightarrow> bool" where
  "wait_ok q \<longleftrightarrow> length (wq_queue q) = 128 \<and>
     ring_ok (wq_queue q) (unat (wq_head q)) (unat (wq_tail q)) (unat (wq_size q))"

lemma sched_caps [simp]:
  "unat SCHED_MAX_TASKS = 128" "unat SCHED_READY_QUEUE_CAPACITY = 128" "unat SCHED_WAIT_QUEUE_CAPACITY = 128"
  by (simp_all add: SCHED_MAX_TASKS_def SCHED_READY_QUEUE_CAPACITY_def SCHED_WAIT_QUEUE_CAPACITY_def)

lemma length_ready_list: "length (ready_list s) = unat (g_ready_size s)"
  by (simp add: ready_list_def)

lemma length_wait_list: "length (wait_list q) = unat (wq_size q)"
  by (simp add: wait_list_def)

lemma enqueue_task_full:
  "128 \<le> length (ready_list s) \<Longrightarrow> sched_enqueue_task x s = (0, s)"
  by (simp add: sched_enqueue_task_def length_ready_list word_le_unat unat_ucast_up)

lemma enqueue_task_room:
  assumes ok: "ready_ok s" and n: "length (ready_list s) < 128" and r: "sched_enqueue_task x s = (v, t)"
  shows "v = 1" "ready_ok t" "ready_list t = ready_list s @ [x]"
    "\<exists>qu ta si. t = s\<lparr>g_ready_queue := qu, g_ready_tail := ta, g_ready_size := si\<rparr>"
proof -
  have c: "\<not> ucast (g_ready_size s) \<ge> SCHED_READY_QUEUE_CAPACITY"
    using n by (simp add: length_ready_list word_le_unat unat_ucast_up)
  note e = ring_enq_words(1,2) [of "g_ready_queue s" "g_ready_head s" "g_ready_tail s" "g_ready_size s"
      SCHED_READY_QUEUE_CAPACITY x]
  from r c have t: "v = 1" "t = s\<lparr>g_ready_queue := (g_ready_queue s)[unat (g_ready_tail s) := x],
                 g_ready_tail := ring_next (g_ready_tail s) SCHED_READY_QUEUE_CAPACITY,
                 g_ready_size := g_ready_size s + 1\<rparr>"
    by (simp_all add: sched_enqueue_task_def)
  show "v = 1" by (rule t)
  show "ready_ok t" "ready_list t = ready_list s @ [x]"
    using e ok n unfolding t(2) by (simp_all add: ready_ok_def ready_list_def)
  show "\<exists>qu ta si. t = s\<lparr>g_ready_queue := qu, g_ready_tail := ta, g_ready_size := si\<rparr>" using t(2) by blast
qed

lemma dequeue_task_empty: "ready_list s = [] \<Longrightarrow> sched_dequeue_task s = None"
  by (simp add: ready_list_def sched_dequeue_task_def unat_eq_0)

lemma dequeue_task_some:
  assumes ok: "ready_ok s" and n: "ready_list s = x # xs"
  shows "\<exists>t. sched_dequeue_task s = Some (x, t) \<and> ready_ok t \<and> ready_list t = xs \<and>
    (\<exists>he si. t = s\<lparr>g_ready_head := he, g_ready_size := si\<rparr>)"
proof -
  have z: "g_ready_size s \<noteq> 0" using n by (auto simp: ready_list_def)
  note d = ring_deq_words(1,2) [of "g_ready_queue s" "g_ready_head s" "g_ready_tail s" "g_ready_size s"
      SCHED_READY_QUEUE_CAPACITY]
  let ?t = "s\<lparr>g_ready_head := ring_next (g_ready_head s) SCHED_READY_QUEUE_CAPACITY, g_ready_size := g_ready_size s - 1\<rparr>"
  have r: "sched_dequeue_task s = Some (g_ready_queue s ! unat (g_ready_head s), ?t)"
    using z by (simp add: sched_dequeue_task_def)
  have "ready_list s = g_ready_queue s ! unat (g_ready_head s) # ready_list ?t"
    using d(2) ok z by (simp add: ready_ok_def ready_list_def)
  with n have "x = g_ready_queue s ! unat (g_ready_head s)" "ready_list ?t = xs" by simp_all
  moreover have "ready_ok ?t" using d(1) ok z by (simp add: ready_ok_def)
  ultimately show ?thesis using r by blast
qed

lemma waitq_enqueue_full: "128 \<le> length (wait_list q) \<Longrightarrow> sched_waitq_enqueue q x = (0, q)"
  by (simp add: sched_waitq_enqueue_def length_wait_list word_le_unat unat_ucast_up)

lemma waitq_enqueue_room:
  assumes ok: "wait_ok q" and n: "length (wait_list q) < 128"
  shows "\<exists>q'. sched_waitq_enqueue q x = (1, q') \<and> wait_ok q' \<and> wait_list q' = wait_list q @ [x]"
proof -
  have c: "\<not> ucast (wq_size q) \<ge> SCHED_WAIT_QUEUE_CAPACITY"
    using n by (simp add: length_wait_list word_le_unat unat_ucast_up)
  note e = ring_enq_words(1,2) [of "wq_queue q" "wq_head q" "wq_tail q" "wq_size q" SCHED_WAIT_QUEUE_CAPACITY x]
  show ?thesis using e ok n c by (simp add: sched_waitq_enqueue_def wait_ok_def wait_list_def)
qed

lemma waitq_dequeue_empty: "wait_list q = [] \<Longrightarrow> sched_waitq_dequeue q = None"
  by (simp add: wait_list_def sched_waitq_dequeue_def unat_eq_0)

lemma waitq_dequeue_some:
  assumes ok: "wait_ok q" and n: "wait_list q = x # xs"
  shows "\<exists>q'. sched_waitq_dequeue q = Some (x, q') \<and> wait_ok q' \<and> wait_list q' = xs"
proof -
  have z: "wq_size q \<noteq> 0" using n by (auto simp: wait_list_def)
  note d = ring_deq_words(1,2) [of "wq_queue q" "wq_head q" "wq_tail q" "wq_size q" SCHED_WAIT_QUEUE_CAPACITY]
  let ?t = "q\<lparr>wq_head := ring_next (wq_head q) SCHED_WAIT_QUEUE_CAPACITY, wq_size := wq_size q - 1\<rparr>"
  have "wait_list q = wq_queue q ! unat (wq_head q) # wait_list ?t"
    using d(2) ok z by (simp add: wait_ok_def wait_list_def)
  with n have "x = wq_queue q ! unat (wq_head q)" "wait_list ?t = xs" by simp_all
  moreover have "wait_ok ?t" using d(1) ok z by (simp add: wait_ok_def)
  ultimately show ?thesis using z by (simp add: sched_waitq_dequeue_def)
qed

lemma ready_bounded: "ready_ok s \<Longrightarrow> length (ready_list s) \<le> 128"
  by (simp add: ready_ok_def ring_ok_def length_ready_list)

lemma wait_bounded: "wait_ok q \<Longrightarrow> length (wait_list q) \<le> 128"
  by (simp add: wait_ok_def ring_ok_def length_wait_list)

text \<open>The two queues as bounded queues: the results of the C functions read as options.\<close>

definition ready_enq :: "u16 \<Rightarrow> sched \<Rightarrow> sched option" where
  "ready_enq x s = (case sched_enqueue_task x s of (r, t) \<Rightarrow> if r = 0 then None else Some t)"

definition wait_enq :: "u16 \<Rightarrow> wait_queue_t \<Rightarrow> wait_queue_t option" where
  "wait_enq x q = (case sched_waitq_enqueue q x of (r, t) \<Rightarrow> if r = 0 then None else Some t)"

lemma ready_enq_cases:
  assumes "ready_ok s"
  shows "ready_enq x s = None \<longleftrightarrow> length (ready_list s) = 128"
    "ready_enq x s = Some t \<Longrightarrow> ready_ok t \<and> ready_list t = ready_list s @ [x]"
proof -
  obtain v u where vu: "sched_enqueue_task x s = (v, u)" by (metis surj_pair)
  have n: "length (ready_list s) < 128 \<or> length (ready_list s) = 128" using ready_bounded [OF assms] by linarith
  then show "ready_enq x s = None \<longleftrightarrow> length (ready_list s) = 128"
    using enqueue_task_full [of s x] enqueue_task_room(1) [OF assms _ vu] vu by (auto simp: ready_enq_def)
  show "ready_ok t \<and> ready_list t = ready_list s @ [x]" if "ready_enq x s = Some t"
    using n enqueue_task_full [of s x] enqueue_task_room(1-3) [OF assms _ vu] vu that by (auto simp: ready_enq_def)
qed

lemma wait_enq_cases:
  assumes "wait_ok q"
  shows "wait_enq x q = None \<longleftrightarrow> length (wait_list q) = 128"
    "wait_enq x q = Some t \<Longrightarrow> wait_ok t \<and> wait_list t = wait_list q @ [x]"
proof -
  have n: "length (wait_list q) < 128 \<or> length (wait_list q) = 128" using wait_bounded [OF assms] by linarith
  then show "wait_enq x q = None \<longleftrightarrow> length (wait_list q) = 128"
    using waitq_enqueue_full [of q x] waitq_enqueue_room [OF assms, of x] by (auto simp: wait_enq_def)
  show "wait_ok t \<and> wait_list t = wait_list q @ [x]" if "wait_enq x q = Some t"
    using n waitq_enqueue_full [of q x] waitq_enqueue_room [OF assms, of x] that by (auto simp: wait_enq_def)
qed

interpretation readyq: bounded_fifo ready_ok ready_list ready_enq sched_dequeue_task 128
proof unfold_locales
  fix s t x
  assume ok: "ready_ok s"
  show "length (ready_list s) \<le> 128" using ok by (rule ready_bounded)
  show "(ready_enq x s = None) = (length (ready_list s) = 128)" using ok by (rule ready_enq_cases)
  show "ready_enq x s = Some t \<Longrightarrow> ready_ok t \<and> ready_list t = ready_list s @ [x]" using ok by (rule ready_enq_cases)
  show "(sched_dequeue_task s = None) = (ready_list s = [])"
    using dequeue_task_empty [of s] dequeue_task_some [OF ok] by (cases "ready_list s") auto
  show "sched_dequeue_task s = Some (x, t) \<Longrightarrow> ready_ok t \<and> ready_list s = x # ready_list t"
    using dequeue_task_empty [of s] dequeue_task_some [OF ok] by (cases "ready_list s") auto
qed

interpretation waitq: bounded_fifo wait_ok wait_list wait_enq sched_waitq_dequeue 128
proof unfold_locales
  fix q t x
  assume ok: "wait_ok q"
  show "length (wait_list q) \<le> 128" using ok by (rule wait_bounded)
  show "(wait_enq x q = None) = (length (wait_list q) = 128)" using ok by (rule wait_enq_cases)
  show "wait_enq x q = Some t \<Longrightarrow> wait_ok t \<and> wait_list t = wait_list q @ [x]" using ok by (rule wait_enq_cases)
  show "(sched_waitq_dequeue q = None) = (wait_list q = [])"
    using waitq_dequeue_empty [of q] waitq_dequeue_some [OF ok] by (cases "wait_list q") auto
  show "sched_waitq_dequeue q = Some (x, t) \<Longrightarrow> wait_ok t \<and> wait_list q = x # wait_list t"
    using waitq_dequeue_empty [of q] waitq_dequeue_some [OF ok] by (cases "wait_list q") auto
qed

section \<open>The abstract machine\<close>

record sched_abs =
  a_state :: "u16 \<Rightarrow> task_state_t"
  a_ready :: "u16 list"
  a_current :: "u16 option"

inductive astep :: "sched_abs \<Rightarrow> sched_abs \<Rightarrow> bool" where
  a_requeue: "a_current a = Some i \<Longrightarrow>
     astep a (a\<lparr>a_state := (a_state a)(i := TASK_READY), a_ready := a_ready a @ [i], a_current := None\<rparr>)"
| a_block: "a_current a = Some i \<Longrightarrow>
     astep a (a\<lparr>a_state := (a_state a)(i := TASK_BLOCKED), a_current := None\<rparr>)"
| a_exit: "a_current a = Some i \<Longrightarrow>
     astep a (a\<lparr>a_state := (a_state a)(i := TASK_EXITED), a_current := None\<rparr>)"
| a_wake: "a_state a i = TASK_BLOCKED \<Longrightarrow>
     astep a (a\<lparr>a_state := (a_state a)(i := TASK_READY), a_ready := a_ready a @ [i]\<rparr>)"
| a_dispatch: "a_current a = None \<Longrightarrow> i \<in> set (a_ready a) \<Longrightarrow>
     astep a (a\<lparr>a_state := (a_state a)(i := TASK_RUNNING), a_ready := remove1 i (a_ready a), a_current := Some i\<rparr>)"
| a_create: "a_state a i = TASK_UNUSED \<Longrightarrow> unat i < 128 \<Longrightarrow>
     astep a (a\<lparr>a_state := (a_state a)(i := TASK_READY), a_ready := a_ready a @ [i]\<rparr>)"

inductive_cases astepE: "astep a b"

text \<open>At most one task runs; the ready list holds every ready task once.\<close>

definition a_ok :: "sched_abs \<Rightarrow> bool" where
  "a_ok a \<longleftrightarrow> distinct (a_ready a) \<and> set (a_ready a) = {i. a_state a i = TASK_READY} \<and>
     (\<forall>i. a_state a i = TASK_RUNNING \<longleftrightarrow> a_current a = Some i) \<and>
     (\<forall>i. a_state a i \<noteq> TASK_UNUSED \<longrightarrow> unat i < 128)"

lemma a_okD:
  assumes "a_ok a"
  shows "distinct (a_ready a)" "\<And>i. i \<in> set (a_ready a) \<longleftrightarrow> a_state a i = TASK_READY"
    "\<And>i. a_state a i = TASK_RUNNING \<longleftrightarrow> a_current a = Some i" "\<And>i. a_state a i \<noteq> TASK_UNUSED \<Longrightarrow> unat i < 128"
  using assms by (auto simp: a_ok_def)

lemma a_current_facts:
  assumes "a_ok a" "a_current a = Some i"
  shows "a_state a i = TASK_RUNNING" "unat i < 128" "i \<notin> set (a_ready a)"
proof -
  show r: "a_state a i = TASK_RUNNING" using a_okD(3) [OF assms(1)] assms(2) by simp
  show "unat i < 128" using a_okD(4) [OF assms(1), of i] r by simp
  show "i \<notin> set (a_ready a)" using a_okD(2) [OF assms(1), of i] r by simp
qed

lemma astep_ok [kinv]:
  assumes "astep a b" "a_ok a"
  shows "a_ok b"
  using assms(1)
proof cases
  case (a_requeue i)
  then show ?thesis using assms(2) a_current_facts [OF assms(2) a_requeue(2)] by (auto simp: a_ok_def)
next
  case (a_block i)
  then show ?thesis using assms(2) a_current_facts [OF assms(2) a_block(2)] by (auto simp: a_ok_def)
next
  case (a_exit i)
  then show ?thesis using assms(2) a_current_facts [OF assms(2) a_exit(2)] by (auto simp: a_ok_def)
next
  case (a_wake i)
  moreover have "unat i < 128" "i \<notin> set (a_ready a)" "a_current a \<noteq> Some i"
    using a_wake(2) a_okD(2-4) [OF assms(2), of i] by auto
  ultimately show ?thesis using assms(2) by (auto simp: a_ok_def)
next
  case (a_dispatch i)
  moreover have "unat i < 128" using a_dispatch(3) a_okD(2,4) [OF assms(2), of i] by simp
  ultimately show ?thesis using assms(2) by (auto simp: a_ok_def)
next
  case (a_create i)
  moreover have "i \<notin> set (a_ready a)" "a_current a \<noteq> Some i"
    using a_create(2) a_okD(2,3) [OF assms(2), of i] by auto
  ultimately show ?thesis using assms(2) by (auto simp: a_ok_def)
qed

lemma asteps_ok: "astep\<^sup>*\<^sup>* a b \<Longrightarrow> a_ok a \<Longrightarrow> a_ok b"
  by (induction rule: rtranclp_induct) (auto intro: astep_ok)

text \<open>So there is always room in a ready queue of 128 entries.\<close>

lemma a_ready_room:
  assumes "a_ok a" "unat i < 128" "a_state a i \<noteq> TASK_READY"
  shows "length (a_ready a) < 128"
proof -
  let ?T = "{j :: u16. unat j < 128}"
  have "set (a_ready a) \<subseteq> ?T - {i}" using a_okD(2,4) [OF assms(1)] assms(3) by force
  then have "card (set (a_ready a)) \<le> card (?T - {i})" by (intro card_mono) simp_all
  also have "\<dots> < card ?T" using assms(2) by (intro card_Diff1_less) simp_all
  also have "\<dots> = card (unat ` ?T)"
    by (rule card_image [symmetric]) (use word_eq_unat in \<open>unfold inj_on_def, blast\<close>)
  also have "\<dots> \<le> card {..<128 :: nat}" by (rule card_mono) auto
  finally have "card (set (a_ready a)) < 128" by simp
  then show ?thesis using a_okD(1) [OF assms(1)] by (simp add: distinct_card)
qed

section \<open>The invariant\<close>

abbreviation st :: "sched \<Rightarrow> u16 \<Rightarrow> task_state_t" where
  "st s i \<equiv> tstate (g_tasks s ! unat i)"

definition abs_of :: "sched \<Rightarrow> sched_abs" where
  "abs_of s = \<lparr>a_state = (\<lambda>i. if unat i < 128 then st s i else TASK_UNUSED),
     a_ready = ready_list s,
     a_current = (case g_current_task s of Some (TaskSlot i) \<Rightarrow> Some i | _ \<Rightarrow> None)\<rparr>"

definition sched_wf :: "sched \<Rightarrow> bool" where
  "sched_wf s \<longleftrightarrow> length (g_tasks s) = 128 \<and> length (g_processes s) = 128 \<and> ready_ok s \<and> a_ok (abs_of s) \<and>
     g_current_task s \<noteq> None \<and>
     g_current_index s = (case g_current_task s of Some (TaskSlot i) \<Rightarrow> i | _ \<Rightarrow> SCHED_TASK_INDEX_NONE)"

lemma sched_wfD:
  assumes "sched_wf s"
  shows "length (g_tasks s) = 128" "length (g_processes s) = 128" "ready_ok s" "a_ok (abs_of s)"
    "\<exists>r. g_current_task s = Some r"
  using assms by (auto simp: sched_wf_def)

lemma abs_simps [simp]:
  "a_ready (abs_of s) = ready_list s"
  "a_current (abs_of s) = (case g_current_task s of Some (TaskSlot i) \<Rightarrow> Some i | _ \<Rightarrow> None)"
  "unat i < 128 \<Longrightarrow> a_state (abs_of s) i = st s i"
  by (simp_all add: abs_of_def)

lemma wf_current:
  assumes "sched_wf s" "g_current_task s = Some (TaskSlot i)"
  shows "unat i < 128" "st s i = TASK_RUNNING" "g_current_index s = i" "i \<noteq> SCHED_TASK_INDEX_NONE"
proof -
  note ok = a_okD [OF sched_wfD(4) [OF assms(1)]]
  have r: "a_state (abs_of s) i = TASK_RUNNING" using ok(3) [of i] assms(2) by simp
  then show i: "unat i < 128" using ok(4) [of i] by simp
  with r show "st s i = TASK_RUNNING" by simp
  show "g_current_index s = i" using assms by (simp add: sched_wf_def)
  show "i \<noteq> SCHED_TASK_INDEX_NONE" using i by (auto simp: SCHED_TASK_INDEX_NONE_def)
qed

lemma running_task_wf:
  assumes "sched_wf s"
  shows "running_task s = (case g_current_task s of Some (TaskSlot i) \<Rightarrow> Some (TaskSlot i) | _ \<Rightarrow> None)"
  using wf_current [OF assms] by (auto simp: running_task_def split: option.splits task_ref.splits)

text \<open>The invariant reads only these fields.\<close>

lemma sched_wf_cong:
  assumes "sched_wf s" "g_tasks t = g_tasks s" "g_processes t = g_processes s" "g_ready_queue t = g_ready_queue s"
    "g_ready_head t = g_ready_head s" "g_ready_tail t = g_ready_tail s" "g_ready_size t = g_ready_size s"
    "g_current_task t = g_current_task s" "g_current_index t = g_current_index s"
  shows "sched_wf t" "abs_of t = abs_of s"
proof -
  have r: "ready_list t = ready_list s" "ready_ok t = ready_ok s" using assms by (simp_all add: ready_list_def ready_ok_def)
  show a: "abs_of t = abs_of s" using assms r by (auto simp: abs_of_def fun_eq_iff)
  show "sched_wf t" using assms a r by (simp add: sched_wf_def)
qed

lemma upd_slot_fields [simp]:
  "g_processes (upd_task (TaskSlot i) f s) = g_processes s"
  "g_ready_queue (upd_task (TaskSlot i) f s) = g_ready_queue s"
  "g_ready_head (upd_task (TaskSlot i) f s) = g_ready_head s"
  "g_ready_tail (upd_task (TaskSlot i) f s) = g_ready_tail s"
  "g_ready_size (upd_task (TaskSlot i) f s) = g_ready_size s"
  "g_current_task (upd_task (TaskSlot i) f s) = g_current_task s"
  "g_current_index (upd_task (TaskSlot i) f s) = g_current_index s"
  "g_cpu (upd_task (TaskSlot i) f s) = g_cpu s"
  "g_bootstrap_task (upd_task (TaskSlot i) f s) = g_bootstrap_task s"
  "length (g_tasks (upd_task (TaskSlot i) f s)) = length (g_tasks s)"
  by simp_all

lemma ready_upd_slot [simp]:
  "ready_list (upd_task (TaskSlot i) f s) = ready_list s" "ready_ok (upd_task (TaskSlot i) f s) = ready_ok s"
  by (simp_all add: ready_list_def ready_ok_def)

lemma st_upd:
  assumes "unat i < length (g_tasks s)"
  shows "st (upd_task (TaskSlot i) f s) j = (if j = i then tstate (f (g_tasks s ! unat i)) else st s j)"
  using assms by (simp add: nth_list_update word_eq_unat [symmetric])

declare upd_task.simps [simp del]

definition shape_ok :: "sched \<Rightarrow> bool" where
  "shape_ok s \<longleftrightarrow> length (g_tasks s) = 128 \<and> length (g_processes s) = 128 \<and> ready_ok s"

definition current_ok :: "sched \<Rightarrow> bool" where
  "current_ok s \<longleftrightarrow> g_current_task s \<noteq> None \<and>
     g_current_index s = (case g_current_task s of Some (TaskSlot i) \<Rightarrow> i | _ \<Rightarrow> SCHED_TASK_INDEX_NONE)"

lemma sched_wf_parts: "sched_wf s \<longleftrightarrow> shape_ok s \<and> current_ok s \<and> a_ok (abs_of s)"
  by (auto simp: sched_wf_def shape_ok_def current_ok_def)

lemma abs_upd:
  assumes "length (g_tasks s) = 128" "unat i < 128"
  shows "abs_of (upd_task (TaskSlot i) f s) =
    (abs_of s)\<lparr>a_state := (a_state (abs_of s))(i := tstate (f (g_tasks s ! unat i)))\<rparr>"
proof -
  have "a_state (abs_of (upd_task (TaskSlot i) f s)) =
    (a_state (abs_of s))(i := tstate (f (g_tasks s ! unat i)))"
  proof
    fix j
    show "a_state (abs_of (upd_task (TaskSlot i) f s)) j =
      ((a_state (abs_of s))(i := tstate (f (g_tasks s ! unat i)))) j"
      using st_upd [of i s f j] assms by (cases "j = i") (simp_all add: abs_of_def)
  qed
  then show ?thesis by (simp add: abs_of_def)
qed

lemma shape_upd [simp]: "shape_ok (upd_task (TaskSlot i) f s) = shape_ok s"
  by (simp add: shape_ok_def ready_ok_def)

lemma enqueue_slot:
  assumes sh: "shape_ok s" and n: "length (ready_list s) < 128" and r: "sched_enqueue_task i s = (v, t)"
  shows "v = 1" "shape_ok t" "abs_of t = (abs_of s)\<lparr>a_ready := ready_list s @ [i]\<rparr>"
    "g_tasks t = g_tasks s" "g_processes t = g_processes s" "g_current_task t = g_current_task s"
    "g_current_index t = g_current_index s" "g_cpu t = g_cpu s" "g_bootstrap_task t = g_bootstrap_task s"
proof -
  have ok: "ready_ok s" using sh by (simp add: shape_ok_def)
  note e = enqueue_task_room [OF ok n r]
  show "v = 1" by (rule e)
  from e(4) obtain qu ta si where t: "t = s\<lparr>g_ready_queue := qu, g_ready_tail := ta, g_ready_size := si\<rparr>" by blast
  then show "g_tasks t = g_tasks s" "g_processes t = g_processes s" "g_current_task t = g_current_task s"
    "g_current_index t = g_current_index s" "g_cpu t = g_cpu s" "g_bootstrap_task t = g_bootstrap_task s" by simp_all
  then show "shape_ok t" "abs_of t = (abs_of s)\<lparr>a_ready := ready_list s @ [i]\<rparr>"
    using e(2,3) sh by (simp_all add: shape_ok_def abs_of_def cong: if_cong)
qed

lemma make_ready:
  assumes wf: "sched_wf s" and i: "unat i < 128" "st s i \<noteq> TASK_READY"
    and r: "sched_enqueue_task i (set_state (TaskSlot i) TASK_READY s) = (v, t)"
  shows "v = 1" "shape_ok t"
    "abs_of t = (abs_of s)\<lparr>a_state := (a_state (abs_of s))(i := TASK_READY), a_ready := ready_list s @ [i]\<rparr>"
    "g_tasks t = g_tasks (set_state (TaskSlot i) TASK_READY s)" "g_processes t = g_processes s"
    "g_current_task t = g_current_task s" "g_current_index t = g_current_index s" "g_cpu t = g_cpu s"
    "g_bootstrap_task t = g_bootstrap_task s"
proof -
  let ?s = "set_state (TaskSlot i) TASK_READY s"
  have sh: "shape_ok ?s" using wf by (simp add: sched_wf_parts)
  have n: "length (ready_list ?s) < 128"
    using a_ready_room [OF sched_wfD(4) [OF wf] i(1)] i by simp
  note e = enqueue_slot [OF sh n r]
  show "v = 1" "shape_ok t" by (rule e)+
  show "abs_of t = (abs_of s)\<lparr>a_state := (a_state (abs_of s))(i := TASK_READY), a_ready := ready_list s @ [i]\<rparr>"
    using e(3) abs_upd [OF sched_wfD(1) [OF wf] i(1), of "\<lambda>t. t\<lparr>tstate := TASK_READY\<rparr>"]
    by simp
  show "g_tasks t = g_tasks ?s" "g_processes t = g_processes s" "g_current_task t = g_current_task s"
    "g_current_index t = g_current_index s" "g_cpu t = g_cpu s" "g_bootstrap_task t = g_bootstrap_task s"
    using e(4-9) by simp_all
qed

lemma to_bootstrap_facts:
  assumes sh: "shape_ok s" and i: "unat i < 128"
  shows "shape_ok (to_bootstrap (TaskSlot i) s)" "current_ok (to_bootstrap (TaskSlot i) s)"
    "abs_of (to_bootstrap (TaskSlot i) s) = (abs_of s)\<lparr>a_current := None\<rparr>"
proof -
  let ?u = "s\<lparr>g_current_task := Some Bootstrap, g_current_index := SCHED_TASK_INDEX_NONE\<rparr>"
  let ?f = "\<lambda>t. t\<lparr>tcontext := g_cpu s\<rparr>"
  let ?v = "upd_task (TaskSlot i) ?f ?u"
  have tb: "to_bootstrap (TaskSlot i) s = ?v\<lparr>g_cpu := tcontext (task_at Bootstrap ?v)\<rparr>"
    by (simp add: to_bootstrap_def x86_64_context_switch_def Let_def)
  have shu: "shape_ok ?u" using sh by (simp add: shape_ok_def ready_ok_def)
  then show "shape_ok (to_bootstrap (TaskSlot i) s)"
    unfolding tb using shape_upd [of i ?f ?u] by (simp add: shape_ok_def ready_ok_def)
  show "current_ok (to_bootstrap (TaskSlot i) s)" unfolding tb by (simp add: current_ok_def)
  have "abs_of (?v\<lparr>g_cpu := x\<rparr>) = abs_of ?v" for x by (simp add: abs_of_def ready_list_def cong: if_cong)
  moreover have "abs_of ?v = abs_of ?u"
  proof -
    have len: "length (g_tasks ?u) = 128" using sh by (simp add: shape_ok_def)
    have "(a_state (abs_of ?u))(i := st ?u i) = a_state (abs_of ?u)" using i by (simp add: fun_eq_iff)
    then show ?thesis unfolding abs_upd [OF len i] by simp
  qed
  moreover have "abs_of ?u = (abs_of s)\<lparr>a_current := None\<rparr>" by (simp add: abs_of_def ready_list_def cong: if_cong)
  ultimately show "abs_of (to_bootstrap (TaskSlot i) s) = (abs_of s)\<lparr>a_current := None\<rparr>" unfolding tb by metis
qed

end
