(* ===== verification/Sched_Pick.thy ===== *)
theory Sched_Pick
  imports Sched_Inv
begin

text \<open>
  The choice of the next task: \<^verbatim>\<open>sched_pick_next_ready\<close> takes the ready task with the least
  virtual runtime, the task id breaking ties, and leaves the queue of the others as it was.
\<close>

section \<open>Choosing the next task\<close>

definition task_le :: "task_t \<Rightarrow> task_t \<Rightarrow> bool" where
  "task_le t u \<longleftrightarrow> vruntime t < vruntime u \<or> (vruntime t = vruntime u \<and> tid t \<le> tid u)"

lemma task_le_refl [simp]: "task_le t t"
  by (simp add: task_le_def)

lemma task_le_trans: "task_le t u \<Longrightarrow> task_le u v \<Longrightarrow> task_le t v"
  by (auto simp: task_le_def)

lemma not_task_le: "\<not> task_le t u \<longleftrightarrow> vruntime u < vruntime t \<or> (vruntime u = vruntime t \<and> tid u < tid t)"
  by (auto simp: task_le_def)

definition least_ready :: "task_t list \<Rightarrow> nat \<Rightarrow> u16 \<Rightarrow> bool" where
  "least_ready ts n b \<longleftrightarrow>
     (if b = SCHED_TASK_INDEX_NONE then \<forall>j<n. tstate (ts ! j) \<noteq> TASK_READY
      else unat b < n \<and> tstate (ts ! unat b) = TASK_READY \<and>
        (\<forall>j<n. tstate (ts ! j) = TASK_READY \<longrightarrow> task_le (ts ! unat b) (ts ! j)))"

lemma pick_scan_least:
  assumes "least_ready ts n b" "n < 128"
  shows "least_ready ts (Suc n) (pick_scan ts (of_nat n) b)"
proof -
  let ?i = "of_nat n :: u16"
  have u: "unat ?i = n" using assms(2) by (simp add: unat_of_nat)
  have ne: "?i \<noteq> SCHED_TASK_INDEX_NONE" using assms(2) u by (auto simp: SCHED_TASK_INDEX_NONE_def)
  show ?thesis
  proof (cases "tstate (ts ! n) = TASK_READY")
    case False
    then show ?thesis using assms(1) u
      by (auto simp: pick_scan_def least_ready_def Let_def less_Suc_eq split: if_splits)
  next
    case r: True
    show ?thesis
    proof (cases "b = SCHED_TASK_INDEX_NONE \<or> \<not> task_le (ts ! unat b) (ts ! n)")
      case True
      then have "pick_scan ts ?i b = ?i" using r u by (auto simp: pick_scan_def Let_def not_task_le)
      moreover have "task_le (ts ! n) (ts ! unat b)" if "b \<noteq> SCHED_TASK_INDEX_NONE"
        using True that by (auto simp: task_le_def)
      ultimately show ?thesis using assms(1) r u ne True
        by (auto simp: least_ready_def less_Suc_eq split: if_splits intro: task_le_trans)
    next
      case False
      then have "pick_scan ts ?i b = b" using r u by (auto simp: pick_scan_def Let_def task_le_def)
      then show ?thesis using assms(1) r u ne False
        by (auto simp: least_ready_def less_Suc_eq split: if_splits)
    qed
  qed
qed

lemma pick_best_least: "least_ready ts 128 (pick_best ts)"
proof -
  have "least_ready ts n (fold (\<lambda>i. pick_scan ts (of_nat i)) [0..<n] SCHED_TASK_INDEX_NONE)" if "n \<le> 128" for n
    using that
  proof (induction n)
    case 0
    show ?case by (simp add: least_ready_def)
  next
    case (Suc n)
    then show ?case using pick_scan_least [of ts n] by simp
  qed
  then show ?thesis by (simp add: pick_best_def)
qed

text \<open>Two states that differ in the ready queue only.\<close>

definition ready_only :: "sched \<Rightarrow> sched \<Rightarrow> bool" where
  "ready_only s t \<longleftrightarrow> (\<exists>qu he ta si.
     t = s\<lparr>g_ready_queue := qu, g_ready_head := he, g_ready_tail := ta, g_ready_size := si\<rparr>)"

lemma ready_only_intro: "ready_only s (s\<lparr>g_ready_queue := qu, g_ready_head := he, g_ready_tail := ta, g_ready_size := si\<rparr>)"
  by (auto simp: ready_only_def)

lemma ready_only_refl [simp]: "ready_only s s"
  using ready_only_intro [where s = s and qu = "g_ready_queue s" and he = "g_ready_head s" and ta = "g_ready_tail s" and si = "g_ready_size s"] by simp

lemma ready_only_head: "ready_only s (s\<lparr>g_ready_head := he, g_ready_size := si\<rparr>)"
  using ready_only_intro [where s = s and qu = "g_ready_queue s" and ta = "g_ready_tail s"] by simp

lemma ready_only_tail: "ready_only s (s\<lparr>g_ready_queue := qu, g_ready_tail := ta, g_ready_size := si\<rparr>)"
  using ready_only_intro [where s = s and he = "g_ready_head s"] by simp

lemma ready_only_trans: "ready_only s t \<Longrightarrow> ready_only t u \<Longrightarrow> ready_only s u"
  unfolding ready_only_def by (elim exE, hypsubst) (auto intro!: exI)

lemma ready_only_fields:
  assumes "ready_only s t"
  shows "g_tasks t = g_tasks s" "g_processes t = g_processes s" "g_current_task t = g_current_task s"
    "g_current_index t = g_current_index s" "g_cpu t = g_cpu s" "g_bootstrap_task t = g_bootstrap_task s"
    "g_sched_trace_budget t = g_sched_trace_budget s"
  using assms by (auto simp: ready_only_def)

lemma drain_loop_spec:
  assumes "shape_ok s" "n = length (ready_list s)" "length kept + n \<le> 128" "drain_loop n best kept s = (kept', t)"
  shows "kept' = kept @ filter (\<lambda>c. c \<noteq> best \<and> unat c < 128 \<and> st s c = TASK_READY) (ready_list s) \<and>
    shape_ok t \<and> ready_only s t"
  using assms
proof (induction n arbitrary: kept s)
  case 0
  then show ?case by simp
next
  case (Suc n)
  then obtain x xs where xs: "ready_list s = x # xs" by (metis Suc_length_conv)
  have ok: "ready_ok s" using Suc.prems(1) by (simp add: shape_ok_def)
  from dequeue_task_some [OF ok xs] obtain u where u: "sched_dequeue_task s = Some (x, u)"
    "ready_ok u" "ready_list u = xs" "ready_only s u" using ready_only_head by blast
  note f = ready_only_fields [OF u(4)]
  have su: "shape_ok u" using Suc.prems(1) u(2) f by (simp add: shape_ok_def)
  let ?keep = "x \<noteq> best \<and> unat x < 128 \<and> st s x = TASK_READY"
  let ?k = "if ?keep then kept @ [x] else kept"
  have r: "drain_loop n best ?k u = (kept', t)"
    using Suc.prems(3,4) u(1) f(1) by (auto simp: word_le_unat unat_ucast_up split: if_splits)
  have "kept' = ?k @ filter (\<lambda>c. c \<noteq> best \<and> unat c < 128 \<and> st u c = TASK_READY) (ready_list u) \<and>
    shape_ok t \<and> ready_only u t"
    by (rule Suc.IH [OF su _ _ r]) (use Suc.prems xs u(3) in auto)
  then show ?case using xs u(3) f(1) ready_only_trans [OF u(4)] by auto
qed

lemma refill_loop_spec:
  assumes "shape_ok s" "length (ready_list s) + length ks \<le> 128" "refill_loop ks s = (v, t)"
  shows "v = 1 \<and> shape_ok t \<and> ready_list t = ready_list s @ ks \<and> ready_only s t"
  using assms
proof (induction ks arbitrary: s)
  case Nil
  then show ?case by simp
next
  case (Cons k ks)
  have ok: "ready_ok s" using Cons.prems(1) by (simp add: shape_ok_def)
  obtain w u where wu: "sched_enqueue_task k s = (w, u)" by (metis surj_pair)
  have n: "length (ready_list s) < 128" using Cons.prems(2) by simp
  note e = enqueue_task_room [OF ok n wu]
  have u: "ready_only s u" using e(4) ready_only_tail by blast
  have su: "shape_ok u" using Cons.prems(1) e(2) ready_only_fields [OF u] by (simp add: shape_ok_def)
  have r: "refill_loop ks u = (v, t)" using Cons.prems(3) wu e(1) by simp
  have "v = 1 \<and> shape_ok t \<and> ready_list t = ready_list u @ ks \<and> ready_only u t"
    by (rule Cons.IH [OF su _ r]) (use Cons.prems(2) e(3) in simp)
  then show ?case using e(3) ready_only_trans [OF u] by auto
qed

text \<open>
  What \<^verbatim>\<open>sched_pick_next_ready\<close> does: it takes the least ready task off the queue and leaves the
  others there in their order.
\<close>

lemma ready_member:
  assumes "sched_wf s"
  shows "i \<in> set (ready_list s) \<longleftrightarrow> unat i < 128 \<and> st s i = TASK_READY"
  using a_okD(2) [OF sched_wfD(4) [OF assms], of i] by (auto simp: abs_of_def split: if_splits)

lemma pick_next_ready_spec:
  assumes wf: "sched_wf s" and r: "sched_pick_next_ready s = (res, t)"
  shows "if ready_list s = [] then res = None \<and> t = s
    else \<exists>b. res = Some b \<and> b \<in> set (ready_list s) \<and> least_ready (g_tasks s) 128 b \<and>
      b \<noteq> SCHED_TASK_INDEX_NONE \<and> shape_ok t \<and> ready_list t = remove1 b (ready_list s) \<and> ready_only s t"
proof -
  let ?b = "pick_best (g_tasks s)"
  have sh: "shape_ok s" using wf by (simp add: sched_wf_parts)
  note mem = ready_member [OF wf]
  have least: "least_ready (g_tasks s) 128 ?b" by (rule pick_best_least)
  show ?thesis
  proof (cases "?b = SCHED_TASK_INDEX_NONE")
    case True
    then have "\<forall>j<128. tstate (g_tasks s ! j) \<noteq> TASK_READY" using least by (simp add: least_ready_def)
    then have "ready_list s = []" using mem by (cases "ready_list s") auto
    then show ?thesis using True r by (simp add: sched_pick_next_ready_def Let_def)
  next
    case False
    then have b: "?b \<in> set (ready_list s)" using least mem by (simp add: least_ready_def)
    obtain kept u where ku: "drain_loop (unat (g_ready_size s)) ?b [] s = (kept, u)" by (metis surj_pair)
    let ?u = "u\<lparr>g_ready_head := 0, g_ready_tail := 0, g_ready_size := 0\<rparr>"
    have n: "unat (g_ready_size s) = length (ready_list s)" by (simp add: length_ready_list)
    have n128: "length (ready_list s) \<le> 128" using sh by (simp add: shape_ok_def ready_bounded)
    have d: "kept = filter (\<lambda>c. c \<noteq> ?b \<and> unat c < 128 \<and> st s c = TASK_READY) (ready_list s)"
      "shape_ok u" "ready_only s u" using drain_loop_spec [OF sh n _ ku] n n128 by auto
    have "kept = filter (\<lambda>c. c \<noteq> ?b) (ready_list s)" unfolding d(1) by (rule filter_cong) (use mem in auto)
    then have k: "kept = remove1 ?b (ready_list s)"
      using a_okD(1) [OF sched_wfD(4) [OF wf]]
      by (simp add: distinct_remove1_removeAll removeAll_filter_not_eq neq_commute)
    have su: "shape_ok ?u" "ready_list ?u = []"
      using d(2) by (simp_all add: shape_ok_def ready_ok_def ring_ok_def ready_list_def)
    have ru: "ready_only u ?u" using ready_only_intro [where s = u and qu = "g_ready_queue u"] by simp
    obtain v w where vw: "refill_loop kept ?u = (v, w)" by (cases "refill_loop kept ?u")
    have len: "length kept \<le> 128" unfolding d(1) by (rule le_trans [OF length_filter_le n128])
    have w: "v = 1" "shape_ok w" "ready_list w = kept" "ready_only ?u w"
      using refill_loop_spec [OF su(1) _ vw] su(2) len by auto
    have "res = Some ?b" "t = w"
      using r False ku vw w(1) by (simp_all add: sched_pick_next_ready_def Let_def)
    moreover have "ready_list s \<noteq> []" using b by auto
    moreover have "ready_only s w" by (rule ready_only_trans [OF d(3) ready_only_trans [OF ru w(4)]])
    ultimately show ?thesis using b least False w(2,3) k by (simp only: if_False) blast
  qed
qed

end
