(* ===== verification/Sched_Ops.thy ===== *)
theory Sched_Ops
  imports Sched_Pick
begin

text \<open>
  What each call of kernel/sched/sched.c does to the abstract machine of \<open>Sched_Inv\<close>.
\<close>

lemma abs_frame [simp]:
  "abs_of (s\<lparr>g_need_resched := a\<rparr>) = abs_of s" "abs_of (s\<lparr>g_preempt_switches := b\<rparr>) = abs_of s"
  "abs_of (s\<lparr>g_preempt_log_emitted := c\<rparr>) = abs_of s" "abs_of (s\<lparr>g_sched_ticks := d\<rparr>) = abs_of s"
  "abs_of (s\<lparr>g_cfs_min_vruntime := e\<rparr>) = abs_of s" "abs_of (s\<lparr>g_sched_trace_budget := f\<rparr>) = abs_of s"
  "abs_of (s\<lparr>g_cpu := g\<rparr>) = abs_of s" "abs_of (s\<lparr>g_kstack := h\<rparr>) = abs_of s"
  "abs_of (s\<lparr>g_next_pid := i\<rparr>) = abs_of s" "abs_of (s\<lparr>g_next_tid := j\<rparr>) = abs_of s"
  "abs_of (s\<lparr>g_processes := k\<rparr>) = abs_of s" "abs_of (s\<lparr>g_bootstrap_task := l\<rparr>) = abs_of s"
  by (simp_all add: abs_of_def ready_list_def cong: if_cong)

lemma shape_frame [simp]:
  "shape_ok (s\<lparr>g_need_resched := a\<rparr>) = shape_ok s" "shape_ok (s\<lparr>g_preempt_switches := b\<rparr>) = shape_ok s"
  "shape_ok (s\<lparr>g_preempt_log_emitted := c\<rparr>) = shape_ok s" "shape_ok (s\<lparr>g_sched_ticks := d\<rparr>) = shape_ok s"
  "shape_ok (s\<lparr>g_cfs_min_vruntime := e\<rparr>) = shape_ok s" "shape_ok (s\<lparr>g_sched_trace_budget := f\<rparr>) = shape_ok s"
  "shape_ok (s\<lparr>g_cpu := g\<rparr>) = shape_ok s" "shape_ok (s\<lparr>g_kstack := h\<rparr>) = shape_ok s"
  "shape_ok (s\<lparr>g_next_pid := i\<rparr>) = shape_ok s" "shape_ok (s\<lparr>g_next_tid := j\<rparr>) = shape_ok s"
  "shape_ok (s\<lparr>g_current_task := k\<rparr>) = shape_ok s" "shape_ok (s\<lparr>g_current_index := l\<rparr>) = shape_ok s"
  "shape_ok (s\<lparr>g_bootstrap_task := m\<rparr>) = shape_ok s"
  by (simp_all add: shape_ok_def ready_ok_def)

lemma current_frame [simp]:
  "current_ok (s\<lparr>g_need_resched := a\<rparr>) = current_ok s" "current_ok (s\<lparr>g_preempt_switches := b\<rparr>) = current_ok s"
  "current_ok (s\<lparr>g_preempt_log_emitted := c\<rparr>) = current_ok s" "current_ok (s\<lparr>g_sched_ticks := d\<rparr>) = current_ok s"
  "current_ok (s\<lparr>g_cfs_min_vruntime := e\<rparr>) = current_ok s" "current_ok (s\<lparr>g_sched_trace_budget := f\<rparr>) = current_ok s"
  "current_ok (s\<lparr>g_cpu := g\<rparr>) = current_ok s" "current_ok (s\<lparr>g_kstack := h\<rparr>) = current_ok s"
  "current_ok (s\<lparr>g_next_pid := i\<rparr>) = current_ok s" "current_ok (s\<lparr>g_next_tid := j\<rparr>) = current_ok s"
  "current_ok (s\<lparr>g_processes := k\<rparr>) = current_ok s" "current_ok (s\<lparr>g_bootstrap_task := m\<rparr>) = current_ok s"
  "current_ok (upd_task (TaskSlot n) u s) = current_ok s"
  by (simp_all add: current_ok_def)

lemma current_cong: "g_current_task t = g_current_task s \<Longrightarrow> g_current_index t = g_current_index s \<Longrightarrow> current_ok t = current_ok s"
  by (simp add: current_ok_def)

text \<open>The current task, in a well-formed state.\<close>

lemma current_cases:
  assumes "sched_wf s"
  obtains "g_current_task s = Some Bootstrap" "running_task s = None" "a_current (abs_of s) = None"
  | i where "g_current_task s = Some (TaskSlot i)" "running_task s = Some (TaskSlot i)" "a_current (abs_of s) = Some i"
      "unat i < 128" "st s i = TASK_RUNNING" "g_current_index s = i"
proof -
  obtain r where r: "g_current_task s = Some r" using sched_wfD(5) [OF assms] by blast
  show ?thesis
  proof (cases r)
    case Bootstrap
    then show ?thesis using r running_task_wf [OF assms] that(1) by simp
  next
    case (TaskSlot i)
    then show ?thesis using r running_task_wf [OF assms] wf_current [OF assms, of i] that(2) [of i] by simp
  qed
qed

lemma leave_wf:
  assumes wf: "sched_wf s" and i: "unat i < 128" and sh: "shape_ok t"
    and ab: "astep (abs_of s) ((abs_of t)\<lparr>a_current := None\<rparr>)"
  shows "sched_wf (to_bootstrap (TaskSlot i) t) \<and> astep (abs_of s) (abs_of (to_bootstrap (TaskSlot i) t))"
  using to_bootstrap_facts [OF sh i] ab astep_ok [OF ab sched_wfD(4) [OF wf]] by (simp add: sched_wf_parts)

lemma requeue_current:
  assumes wf: "sched_wf s" and c: "a_current (abs_of s) = Some i" "unat i < 128" "st s i = TASK_RUNNING"
    and r: "sched_enqueue_task i (set_state (TaskSlot i) TASK_READY s) = (v, t)"
    and u: "abs_of u = abs_of t" "shape_ok u = shape_ok t"
  shows "v = 1" "sched_wf (to_bootstrap (TaskSlot i) u) \<and> astep (abs_of s) (abs_of (to_bootstrap (TaskSlot i) u))"
proof -
  note m = make_ready [OF wf c(2) _ r]
  have nr: "st s i \<noteq> TASK_READY" using c(3) by simp
  show "v = 1" by (rule m(1) [OF nr])
  have "astep (abs_of s) ((abs_of u)\<lparr>a_current := None\<rparr>)"
    using a_requeue [OF c(1)] m(3) [OF nr] u(1) by simp
  then show "sched_wf (to_bootstrap (TaskSlot i) u) \<and> astep (abs_of s) (abs_of (to_bootstrap (TaskSlot i) u))"
    using leave_wf [OF wf c(2)] m(2) [OF nr] u(2) by blast
qed

lemma sched_yield_step:
  assumes wf: "sched_wf s"
  shows "if g_current_task s = Some Bootstrap then sched_yield s = s
    else sched_wf (sched_yield s) \<and> astep (abs_of s) (abs_of (sched_yield s))"
  using wf
proof (rule current_cases)
  fix i
  assume c: "g_current_task s = Some (TaskSlot i)" "running_task s = Some (TaskSlot i)" "a_current (abs_of s) = Some i"
      "unat i < 128" "st s i = TASK_RUNNING" "g_current_index s = i"
  obtain v t where r: "sched_enqueue_task i (set_state (TaskSlot i) TASK_READY s) = (v, t)"
    by (cases "sched_enqueue_task i (set_state (TaskSlot i) TASK_READY s)")
  note q = requeue_current [OF wf c(3-5) r refl refl]
  have "sched_yield s = to_bootstrap (TaskSlot i) t" using c r q(1) by (simp add: sched_yield_def)
  then show ?thesis using q(2) c(1) by simp
qed (simp add: sched_yield_def)

lemma sched_preempt_step:
  assumes wf: "sched_wf s" and r: "sched_preempt_on_tick s = (v, t)"
  shows "sched_wf t \<and> (if v = 1 then g_need_resched s \<noteq> 0 \<and> g_current_task s \<noteq> Some Bootstrap \<and> astep (abs_of s) (abs_of t)
    else v = 0 \<and> abs_of t = abs_of s)"
proof (cases "g_need_resched s = 0")
  case True
  then show ?thesis using r wf by (simp add: sched_preempt_on_tick_def)
next
  case False
  show ?thesis
    using wf
  proof (rule current_cases)
    assume "running_task s = None"
    then have "t = s\<lparr>g_need_resched := 0\<rparr>" "v = 0" using r False by (simp_all add: sched_preempt_on_tick_def)
    then show ?thesis using wf by (simp add: sched_wf_parts)
  next
    fix i
    assume c: "g_current_task s = Some (TaskSlot i)" "running_task s = Some (TaskSlot i)" "a_current (abs_of s) = Some i"
        "unat i < 128" "st s i = TASK_RUNNING" "g_current_index s = i"
    obtain w u where e: "sched_enqueue_task i (set_state (TaskSlot i) TASK_READY s) = (w, u)"
      by (cases "sched_enqueue_task i (set_state (TaskSlot i) TASK_READY s)")
    let ?u = "u\<lparr>g_need_resched := 0, g_preempt_switches := g_preempt_switches u + 1,
      g_preempt_log_emitted := (if g_preempt_log_emitted u = 0 then 1 else g_preempt_log_emitted u)\<rparr>"
    have fr: "abs_of ?u = abs_of u" "shape_ok ?u = shape_ok u" by simp_all
    note q = requeue_current [OF wf c(3-5) e fr]
    have "t = to_bootstrap (TaskSlot i) ?u" "v = 1" using r c e q(1) False by (simp_all add: sched_preempt_on_tick_def)
    then show ?thesis using q(2) c(1) False by simp
  qed
qed

lemma sched_exit_step:
  assumes wf: "sched_wf s"
  shows "case sched_task_exit s of
      None \<Rightarrow> g_current_task s = Some Bootstrap
    | Some t \<Rightarrow> sched_wf t \<and> astep (abs_of s) (abs_of t)"
  using wf
proof (rule current_cases)
  fix i
  assume c: "g_current_task s = Some (TaskSlot i)" "running_task s = Some (TaskSlot i)" "a_current (abs_of s) = Some i"
      "unat i < 128" "st s i = TASK_RUNNING" "g_current_index s = i"
  let ?f = "\<lambda>t. t\<lparr>tstate := TASK_EXITED, tentry := 0, targ := 0\<rparr>"
  have sh: "shape_ok (upd_task (TaskSlot i) ?f s)" using wf by (simp add: sched_wf_parts)
  have "astep (abs_of s) ((abs_of (upd_task (TaskSlot i) ?f s))\<lparr>a_current := None\<rparr>)"
    using a_exit [OF c(3)] abs_upd [OF sched_wfD(1) [OF wf] c(4), of ?f] by simp
  then show ?thesis using leave_wf [OF wf c(4) sh] c(1) by (simp add: sched_task_exit_def)
qed (simp add: sched_task_exit_def)

lemma sched_run_step:
  assumes wf: "sched_wf s" and r: "sched_run s = (v, t)"
  shows "if g_current_task s = Some Bootstrap \<and> ready_list s \<noteq> []
    then v = 1 \<and> sched_wf t \<and> astep (abs_of s) (abs_of t) \<and>
      (\<exists>b. g_current_task t = Some (TaskSlot b) \<and> least_ready (g_tasks s) 128 b \<and> b \<in> set (ready_list s) \<and>
        ready_list t = remove1 b (ready_list s) \<and> g_cpu t = tcontext (g_tasks s ! unat b) \<and>
        g_bootstrap_task t = (g_bootstrap_task s)\<lparr>tcontext := g_cpu s\<rparr> \<and>
        g_tasks t = (g_tasks s)[unat b := (g_tasks s ! unat b)\<lparr>tstate := TASK_RUNNING,
          context_switches := context_switches (g_tasks s ! unat b) + 1\<rparr>])
    else v = 0 \<and> t = s"
proof (cases "g_current_task s = Some Bootstrap")
  case False
  then show ?thesis using r by (simp add: sched_run_def)
next
  case cb: True
  obtain res u where pu: "sched_pick_next_ready s = (res, u)" by (cases "sched_pick_next_ready s")
  note p = pick_next_ready_spec [OF wf pu]
  show ?thesis
  proof (cases "ready_list s = []")
    case True
    then show ?thesis using p pu r cb by (simp add: sched_run_def)
  next
    case False
    then obtain b where b: "res = Some b" "b \<in> set (ready_list s)" "least_ready (g_tasks s) 128 b"
      "shape_ok u" "ready_list u = remove1 b (ready_list s)" "ready_only s u" using p by auto
    note f = ready_only_fields [OF b(6)]
    have bi: "unat b < 128" using ready_member [OF wf] b(2) by simp
    let ?f = "\<lambda>t. t\<lparr>tstate := TASK_RUNNING, context_switches := context_switches t + 1\<rparr>"
    define s2 where "s2 = upd_task (TaskSlot b) ?f u"
    define s4 where "s4 = (let s3 = s2\<lparr>g_need_resched := 0, g_current_task := Some (TaskSlot b), g_current_index := b\<rparr> in
      if g_sched_trace_budget s3 > 0 then s3\<lparr>g_sched_trace_budget := g_sched_trace_budget s3 - 1\<rparr> else s3)"
    have t: "v = 1" "t = x86_64_context_switch Bootstrap (TaskSlot b) s4"
      using r cb pu b(1) by (simp_all add: sched_run_def s2_def s4_def Let_def)
    have a4: "abs_of s4 = (abs_of s)\<lparr>a_state := (a_state (abs_of s))(b := TASK_RUNNING), a_ready := remove1 b (ready_list s),
      a_current := Some b\<rparr>" (is "_ = ?a")
    proof -
      have len: "length (g_tasks u) = 128" using b(4) by (simp add: shape_ok_def)
      have "abs_of s2 = (abs_of u)\<lparr>a_state := (a_state (abs_of u))(b := TASK_RUNNING)\<rparr>"
        unfolding s2_def abs_upd [OF len bi] by simp
      moreover have "abs_of u = (abs_of s)\<lparr>a_ready := remove1 b (ready_list s)\<rparr>"
        using f b(5) by (simp add: abs_of_def cong: if_cong)
      moreover have "abs_of (s2\<lparr>g_current_task := Some (TaskSlot b), g_current_index := b\<rparr>) = (abs_of s2)\<lparr>a_current := Some b\<rparr>"
        by (simp add: abs_of_def ready_list_def cong: if_cong)
      moreover have "abs_of s4 = abs_of (s2\<lparr>g_current_task := Some (TaskSlot b), g_current_index := b\<rparr>)"
        by (simp add: s4_def Let_def abs_of_def ready_list_def cong: if_cong)
      ultimately show ?thesis by simp
    qed
    have len: "length (g_tasks s) = 128" by (rule sched_wfD(1) [OF wf])
    have s4: "g_tasks s4 = (g_tasks s)[unat b := ?f (g_tasks s ! unat b)]" "g_cpu s4 = g_cpu s"
      "g_bootstrap_task s4 = g_bootstrap_task s" "g_current_task s4 = Some (TaskSlot b)" "g_current_index s4 = b"
      "shape_ok s4"
      using f b(4) by (simp_all add: s4_def s2_def Let_def upd_task.simps(2)) (simp_all add: shape_ok_def ready_ok_def)
    have t': "t = s4\<lparr>g_bootstrap_task := (g_bootstrap_task s4)\<lparr>tcontext := g_cpu s4\<rparr>, g_cpu := tcontext (g_tasks s4 ! unat b)\<rparr>"
      by (simp add: t(2) x86_64_context_switch_def upd_task.simps Let_def)
    have st: "astep (abs_of s) ?a" using a_dispatch [of "abs_of s" b] cb b(2) by simp
    have "abs_of t = ?a" using a4 by (simp add: t')
    moreover have "sched_wf t"
      using astep_ok [OF st sched_wfD(4) [OF wf]] s4 calculation by (simp add: sched_wf_parts t' current_ok_def)
    moreover have "ready_list t = remove1 b (ready_list s)" using arg_cong [OF calculation(1), of a_ready] by simp
    ultimately show ?thesis using cb False t(1) st b(2,3) s4 len bi by (simp add: t')
  qed
qed

end
