(* ===== verification/Sched_Wait.thy ===== *)
theory Sched_Wait
  imports Sched_Ops
begin

text \<open>
  Blocking on a wait queue and waking: \<^verbatim>\<open>sched_wait_queue_wait\<close>, \<^verbatim>\<open>sched_wait_queue_wake_one\<close> and
  \<^verbatim>\<open>sched_wait_queue_wake_all\<close>.
\<close>

lemma wait_queue_wait_step:
  assumes wf: "sched_wf s" and q: "wait_ok q" and r: "sched_wait_queue_wait (Some q) s = (v, q', t)"
  shows "if g_current_task s \<noteq> Some Bootstrap \<and> length (wait_list q) < 128
    then v = 1 \<and> sched_wf t \<and> astep (abs_of s) (abs_of t) \<and> st t (g_current_index s) = TASK_BLOCKED \<and>
      (\<exists>p. q' = Some p \<and> wait_ok p \<and> wait_list p = wait_list q @ [g_current_index s])
    else v = 0 \<and> q' = Some q \<and> t = s"
  using wf
proof (rule current_cases)
  assume "g_current_task s = Some Bootstrap" "running_task s = None"
  then show ?thesis using r by (simp add: sched_wait_queue_wait_def)
next
  fix i
  assume c: "g_current_task s = Some (TaskSlot i)" "running_task s = Some (TaskSlot i)" "a_current (abs_of s) = Some i"
      "unat i < 128" "st s i = TASK_RUNNING" "g_current_index s = i"
  show ?thesis
  proof (cases "length (wait_list q) < 128")
    case False
    then show ?thesis using waitq_enqueue_full [of q i] r c by (simp add: sched_wait_queue_wait_def)
  next
    case True
    from waitq_enqueue_room [OF q True, of i] obtain p where
      p: "sched_waitq_enqueue q i = (1, p)" "wait_ok p" "wait_list p = wait_list q @ [i]" by blast
    let ?f = "\<lambda>t. t\<lparr>tstate := TASK_BLOCKED\<rparr>"
    have t: "v = 1" "q' = Some p" "t = to_bootstrap (TaskSlot i) (upd_task (TaskSlot i) ?f s)"
      using r c p(1) by (simp_all add: sched_wait_queue_wait_def)
    have sh: "shape_ok (upd_task (TaskSlot i) ?f s)" using wf by (simp add: sched_wf_parts)
    have ab: "abs_of t = (abs_of s)\<lparr>a_state := (a_state (abs_of s))(i := TASK_BLOCKED), a_current := None\<rparr>"
      using to_bootstrap_facts(3) [OF sh c(4)] abs_upd [OF sched_wfD(1) [OF wf] c(4), of ?f] t(3) by simp
    have "sched_wf t \<and> astep (abs_of s) (abs_of t)"
      unfolding t(3)
    proof (rule leave_wf [OF wf c(4) sh])
      show "astep (abs_of s) ((abs_of (upd_task (TaskSlot i) ?f s))\<lparr>a_current := None\<rparr>)"
        using a_block [OF c(3)] abs_upd [OF sched_wfD(1) [OF wf] c(4), of ?f] by simp
    qed
    moreover have "st t i = TASK_BLOCKED"
      using arg_cong [OF ab, of "\<lambda>a. a_state a i"] c(4) by simp
    ultimately show ?thesis using True c t p by simp
  qed
qed

abbreviation wakeable :: "sched \<Rightarrow> u16 \<Rightarrow> bool" where
  "wakeable s c \<equiv> unat c < 128 \<and> st s c = TASK_BLOCKED"

text \<open>The task a wake-up takes is put in state READY and queued; nothing else of any task changes.\<close>

definition only_wakes :: "u16 list \<Rightarrow> sched \<Rightarrow> sched \<Rightarrow> bool" where
  "only_wakes ws s t \<longleftrightarrow>
     t = s\<lparr>g_tasks := g_tasks t, g_ready_queue := g_ready_queue t, g_ready_tail := g_ready_tail t,
           g_ready_size := g_ready_size t, g_need_resched := g_need_resched t\<rparr> \<and>
     (\<forall>i. unat i < 128 \<longrightarrow> g_tasks t ! unat i =
        (if i \<in> set ws then (g_tasks s ! unat i)\<lparr>tstate := TASK_READY\<rparr> else g_tasks s ! unat i))"

lemma only_wakes_refl [simp]: "only_wakes [] s s"
  by (simp add: only_wakes_def)

lemma only_wakes_trans:
  assumes "only_wakes xs s t" "only_wakes ys t u"
  shows "only_wakes (xs @ ys) s u"
proof -
  note t = conjunct1 [OF assms(1) [unfolded only_wakes_def]] and u = conjunct1 [OF assms(2) [unfolded only_wakes_def]]
  have "u = s\<lparr>g_tasks := g_tasks u, g_ready_queue := g_ready_queue u, g_ready_tail := g_ready_tail u,
      g_ready_size := g_ready_size u, g_need_resched := g_need_resched u\<rparr>"
    by (rule trans [OF u], subst t) simp
  moreover have "g_tasks u ! unat i =
      (if i \<in> set (xs @ ys) then (g_tasks s ! unat i)\<lparr>tstate := TASK_READY\<rparr> else g_tasks s ! unat i)" if "unat i < 128" for i
    using assms that by (simp add: only_wakes_def)
  ultimately show ?thesis by (simp add: only_wakes_def)
qed

lemma make_ready_only_wakes:
  assumes "length (g_tasks s) = 128" "sched_enqueue_task x (set_state (TaskSlot x) TASK_READY s) = (w, u)"
  shows "only_wakes [x] s (u\<lparr>g_need_resched := 1\<rparr>)"
proof -
  let ?ts = "(g_tasks s)[unat x := (g_tasks s ! unat x)\<lparr>tstate := TASK_READY\<rparr>]"
  have "u = s\<lparr>g_tasks := ?ts, g_ready_queue := g_ready_queue u, g_ready_tail := g_ready_tail u, g_ready_size := g_ready_size u\<rparr>"
    using assms(2) by (auto simp: sched_enqueue_task_def upd_task.simps split: if_splits)
  then obtain rq rt rs where u: "u = s\<lparr>g_tasks := ?ts, g_ready_queue := rq, g_ready_tail := rt, g_ready_size := rs\<rparr>" by blast
  have "?ts ! unat i = (if i \<in> set [x] then (g_tasks s ! unat i)\<lparr>tstate := TASK_READY\<rparr> else g_tasks s ! unat i)"
    if "unat i < 128" for i using that assms(1) by (auto simp: nth_list_update word_eq_unat)
  then show ?thesis unfolding u only_wakes_def by simp
qed

lemma wake_loop_spec:
  assumes "sched_wf s" "wait_ok q" "n = length (wait_list q)" "wake_loop n q s = (v, p, t)"
  shows "wait_ok p \<and> (case dropWhile (\<lambda>c. \<not> wakeable s c) (wait_list q) of
      [] \<Rightarrow> v = 0 \<and> t = s \<and> wait_list p = []
    | c # cs \<Rightarrow> v = 1 \<and> wait_list p = cs \<and> sched_wf t \<and> g_need_resched t = 1 \<and> only_wakes [c] s t \<and>
        abs_of t = (abs_of s)\<lparr>a_state := (a_state (abs_of s))(c := TASK_READY), a_ready := ready_list s @ [c]\<rparr>)"
  using assms
proof (induction n arbitrary: q)
  case 0
  then show ?case by simp
next
  case (Suc n)
  then obtain x xs where xs: "wait_list q = x # xs" by (metis Suc_length_conv)
  from waitq_dequeue_some [OF Suc.prems(2) xs] obtain q1 where
    q1: "sched_waitq_dequeue q = Some (x, q1)" "wait_ok q1" "wait_list q1 = xs" by blast
  show ?case
  proof (cases "wakeable s x")
    case False
    then have "wake_loop n q1 s = (v, p, t)"
      using Suc.prems(4) q1(1) by (auto simp: word_le_unat unat_ucast_up split: if_splits)
    from Suc.IH [OF Suc.prems(1) q1(2) _ this] Suc.prems(3) xs q1(3) False show ?thesis by simp
  next
    case True
    obtain w u where e: "sched_enqueue_task x (set_state (TaskSlot x) TASK_READY s) = (w, u)"
      by (cases "sched_enqueue_task x (set_state (TaskSlot x) TASK_READY s)")
    have nr: "st s x \<noteq> TASK_READY" using True by simp
    note m = make_ready [OF Suc.prems(1) conjunct1 [OF True] nr e]
    have r: "v = 1" "p = q1" "t = u\<lparr>g_need_resched := 1\<rparr>"
      using Suc.prems(4) q1(1) True e m(1) by (simp_all add: word_le_unat unat_ucast_up)
    have "astep (abs_of s) (abs_of u)" using a_wake [of "abs_of s" x] True m(3) by simp
    then have "sched_wf t"
      using astep_ok [OF _ sched_wfD(4) [OF Suc.prems(1)]] m(2,6,7) Suc.prems(1) current_cong [of u s] r(3)
      by (simp add: sched_wf_parts)
    moreover have "only_wakes [x] s t"
      using make_ready_only_wakes [OF sched_wfD(1) [OF Suc.prems(1)] e] r(3) by simp
    ultimately show ?thesis using r m(3) True xs q1(2,3) by simp
  qed
qed

lemma wake_one_spec:
  assumes "sched_wf s" "wait_ok q" "sched_wake_one_locked (Some q) s = (v, q', t)"
  shows "\<exists>p. q' = Some p \<and> wait_ok p \<and> (case dropWhile (\<lambda>c. \<not> wakeable s c) (wait_list q) of
      [] \<Rightarrow> v = 0 \<and> t = s \<and> wait_list p = []
    | c # cs \<Rightarrow> v = 1 \<and> wait_list p = cs \<and> sched_wf t \<and> g_need_resched t = 1 \<and> only_wakes [c] s t \<and>
        abs_of t = (abs_of s)\<lparr>a_state := (a_state (abs_of s))(c := TASK_READY), a_ready := ready_list s @ [c]\<rparr>)"
proof -
  obtain w p u where r: "wake_loop (unat (wq_size q)) q s = (w, p, u)" by (cases "wake_loop (unat (wq_size q)) q s") auto
  then have e: "v = w" "q' = Some p" "t = u" using assms(3) by (simp_all add: sched_wake_one_locked_def)
  have n: "unat (wq_size q) = length (wait_list q)" by (simp add: length_wait_list)
  show ?thesis unfolding e using wake_loop_spec [OF assms(1,2) n r] by blast
qed

lemma dropWhile_length: "dropWhile P xs = c # cs \<Longrightarrow> length cs < length xs"
  by (metis length_Cons length_dropWhile_le less_Suc_eq_le less_le_trans lessI)

lemma dropWhile_ConsD:
  assumes "dropWhile P xs = c # cs"
  shows "\<exists>as. xs = as @ c # cs \<and> (\<forall>a\<in>set as. P a) \<and> \<not> P c"
proof -
  have "xs = takeWhile P xs @ c # cs" using assms by (metis takeWhile_dropWhile_id)
  moreover have "\<not> P c" using assms by (metis hd_dropWhile list.distinct(1) list.sel(1))
  ultimately show ?thesis by (metis set_takeWhileD)
qed

text \<open>The entries of a queue in order, each at its first place only.\<close>

fun firsts :: "'a list \<Rightarrow> 'a list" where
  "firsts [] = []"
| "firsts (x # xs) = x # removeAll x (firsts xs)"

lemma set_firsts [simp]: "set (firsts xs) = set xs"
  by (induction xs) auto

lemma distinct_firsts [simp]: "distinct (firsts xs)"
  by (induction xs) (auto simp: distinct_removeAll)

lemma firsts_removeAll: "firsts (removeAll x xs) = removeAll x (firsts xs)"
  by (induction xs) (auto simp: removeAll_filter_not_eq intro: filter_cong)

text \<open>Waking all: the loop ends, and every blocked task of the queue becomes ready, in queue order.\<close>

definition wake_order :: "sched \<Rightarrow> u16 list \<Rightarrow> u16 list" where
  "wake_order s cs = firsts (filter (\<lambda>c. wakeable s c) cs)"

lemma wake_order_none: "dropWhile (\<lambda>c. \<not> wakeable s c) cs = [] \<Longrightarrow> wake_order s cs = []"
  by (auto simp: wake_order_def dropWhile_eq_Nil_conv filter_empty_conv)

lemma wake_order_some:
  assumes "dropWhile (\<lambda>c. \<not> wakeable s c) cs = x # ds" "\<And>i. unat i < 128 \<Longrightarrow> st u i = (if i = x then TASK_READY else st s i)"
  shows "wake_order s cs = x # wake_order u ds"
proof -
  from dropWhile_ConsD [OF assms(1)] obtain as where
    as: "cs = as @ x # ds" "\<forall>a\<in>set as. \<not> wakeable s a" "wakeable s x" by blast
  have "filter (\<lambda>c. wakeable s c) as = []" using as(2) by (simp add: filter_empty_conv)
  then have "filter (\<lambda>c. wakeable s c) cs = x # filter (\<lambda>c. wakeable s c) ds" using as(1,3) by simp
  moreover have "filter (\<lambda>c. wakeable u c) ds = removeAll x (filter (\<lambda>c. wakeable s c) ds)"
    using assms(2) by (auto simp: removeAll_filter_not_eq intro!: filter_cong split: if_splits)
  ultimately show ?thesis by (simp add: wake_order_def firsts_removeAll)
qed

lemma wake_order_facts: "distinct (wake_order s cs)" "set (wake_order s cs) = {c \<in> set cs. wakeable s c}"
  by (auto simp: wake_order_def)

lemma only_wakes_abs:
  assumes "only_wakes ws s t" "ready_list t = ready_list s @ ws" "\<forall>c\<in>set ws. unat c < 128"
  shows "abs_of t = (abs_of s)\<lparr>a_state := (\<lambda>i. if i \<in> set ws then TASK_READY else a_state (abs_of s) i),
    a_ready := ready_list s @ ws\<rparr>"
proof -
  have "g_current_task t = g_current_task s"
    using arg_cong [OF conjunct1 [OF assms(1) [unfolded only_wakes_def]], of g_current_task] by simp
  moreover have "st t i = (if i \<in> set ws then TASK_READY else st s i)" if "unat i < 128" for i
    using assms(1) that by (simp add: only_wakes_def)
  ultimately show ?thesis using assms(2,3) by (auto simp: abs_of_def fun_eq_iff)
qed

lemma wake_all_spec:
  assumes "sched_wf s" "wait_ok q" "unat w + length (wait_list q) < 2 ^ 64"
  shows "\<exists>w' p t. wake_all_loop w (Some q) s = Some (w', Some p, t) \<and> sched_wf t \<and> wait_ok p \<and> wait_list p = [] \<and>
    unat w' = unat w + length (wake_order s (wait_list q)) \<and> only_wakes (wake_order s (wait_list q)) s t \<and>
    ready_list t = ready_list s @ wake_order s (wait_list q)"
  using assms
proof (induction "length (wait_list q)" arbitrary: q s w rule: less_induct)
  case less
  obtain v q' u where r: "sched_wake_one_locked (Some q) s = (v, q', u)" by (cases "sched_wake_one_locked (Some q) s") auto
  from wake_one_spec [OF less.prems(1,2) r] obtain p where p: "q' = Some p" "wait_ok p"
    and c: "case dropWhile (\<lambda>c. \<not> wakeable s c) (wait_list q) of
      [] \<Rightarrow> v = 0 \<and> u = s \<and> wait_list p = []
    | c # cs \<Rightarrow> v = 1 \<and> wait_list p = cs \<and> sched_wf u \<and> g_need_resched u = 1 \<and> only_wakes [c] s u \<and>
        abs_of u = (abs_of s)\<lparr>a_state := (a_state (abs_of s))(c := TASK_READY), a_ready := ready_list s @ [c]\<rparr>"
    by blast
  have loop: "wake_all_loop w (Some q) s = (if v \<noteq> 0 then wake_all_loop (w + 1) (Some p) u else Some (w, Some p, u))"
    by (subst wake_all_loop.simps) (simp add: r p(1))
  show ?case
  proof (cases "dropWhile (\<lambda>c. \<not> wakeable s c) (wait_list q)")
    case Nil
    have "v = 0" "u = s" "wait_list p = []" using c [unfolded Nil] by simp_all
    then show ?thesis using loop less.prems(1) p(2) wake_order_none [OF Nil]
      by (intro exI [of _ w] exI [of _ p] exI [of _ s]) simp
  next
    case (Cons x cs)
    have u: "v = 1" "wait_list p = cs" "sched_wf u" "only_wakes [x] s u"
      "abs_of u = (abs_of s)\<lparr>a_state := (a_state (abs_of s))(x := TASK_READY), a_ready := ready_list s @ [x]\<rparr>"
      using c [unfolded Cons] by simp_all
    have stu: "st u i = (if i = x then TASK_READY else st s i)" if "unat i < 128" for i
      using arg_cong [OF u(5), of "\<lambda>a. a_state a i"] that by (simp split: if_splits)
    have ru: "ready_list u = ready_list s @ [x]" using arg_cong [OF u(5), of a_ready] by simp
    have wo: "wake_order s (wait_list q) = x # wake_order u (wait_list p)"
      unfolding u(2) by (rule wake_order_some [OF Cons stu])
    have len: "length (wait_list p) < length (wait_list q)" using dropWhile_length [OF Cons] u(2) by simp
    then have w1: "unat (w + 1) = unat w + 1" using less.prems(3) by (intro unat_Suc_small) simp
    have "unat (w + 1) + length (wait_list p) < 2 ^ 64" using less.prems(3) w1 len by simp
    then obtain w' p' t where ih: "wake_all_loop (w + 1) (Some p) u = Some (w', Some p', t)" "sched_wf t"
      "wait_ok p'" "wait_list p' = []" "unat w' = unat (w + 1) + length (wake_order u (wait_list p))"
      "only_wakes (wake_order u (wait_list p)) u t" "ready_list t = ready_list u @ wake_order u (wait_list p)"
      using less.hyps [OF len u(3) p(2), of "w + 1"] by blast
    have "only_wakes (wake_order s (wait_list q)) s t" using only_wakes_trans [OF u(4) ih(6)] wo by simp
    then show ?thesis using loop ih u(1) wo ru w1 by (intro exI [of _ w'] exI [of _ p'] exI [of _ t]) simp
  qed
qed

end
