(* ===== verification/Sched_Sys.thy ===== *)
theory Sched_Sys
  imports Sched_Wait
begin

text \<open>
  Task creation, the timer tick, start-up, and the scheduler as a transition system over all its
  calls.
\<close>

section \<open>Start-up and the timer\<close>

lemma sched_init_wf:
  assumes "length (g_tasks s) = 128" "length (g_processes s) = 128" "length (g_ready_queue s) = 128"
  shows "sched_wf (sched_init s)"
    "abs_of (sched_init s) = \<lparr>a_state = (\<lambda>_. TASK_UNUSED), a_ready = [], a_current = None\<rparr>"
proof -
  show a: "abs_of (sched_init s) = \<lparr>a_state = (\<lambda>_. TASK_UNUSED), a_ready = [], a_current = None\<rparr>"
    using assms by (auto simp: abs_of_def sched_init_def ready_list_def sched_reset_task_def fun_eq_iff)
  have "shape_ok (sched_init s)" using assms by (simp add: shape_ok_def ready_ok_def ring_ok_def sched_init_def)
  moreover have "current_ok (sched_init s)" by (simp add: current_ok_def sched_init_def)
  ultimately show "sched_wf (sched_init s)" by (simp add: sched_wf_parts a a_ok_def)
qed

lemma sched_tick_step:
  assumes wf: "sched_wf s"
  shows "sched_wf (sched_tick s)" "abs_of (sched_tick s) = abs_of s" "g_current_task (sched_tick s) = g_current_task s"
    "g_cpu (sched_tick s) = g_cpu s" "tcontext (g_tasks (sched_tick s) ! unat j) = tcontext (g_tasks s ! unat j)"
proof -
  have "sched_wf (sched_tick s) \<and> abs_of (sched_tick s) = abs_of s \<and> g_current_task (sched_tick s) = g_current_task s \<and>
    g_cpu (sched_tick s) = g_cpu s \<and> tcontext (g_tasks (sched_tick s) ! unat j) = tcontext (g_tasks s ! unat j)"
    using wf
  proof (rule current_cases)
    assume "g_current_task s = Some Bootstrap"
    then show ?thesis using wf by (simp add: sched_tick_def sched_wf_parts)
  next
    fix i
    assume c: "g_current_task s = Some (TaskSlot i)" "unat i < 128" "st s i = TASK_RUNNING"
    let ?u = "s\<lparr>g_sched_ticks := g_sched_ticks s + 1\<rparr>"
    let ?f = "\<lambda>t. t\<lparr>runtime_ticks := runtime_ticks t + 1, vruntime := vruntime t + 1\<rparr>"
    let ?v = "upd_task (TaskSlot i) ?f ?u"
    have len: "length (g_tasks ?u) = 128" using sched_wfD(1) [OF wf] by simp
    have t: "sched_tick s = ?v\<lparr>g_cfs_min_vruntime := vruntime (task_at (TaskSlot i) ?v), g_need_resched := 1\<rparr>"
      using c(1,3) by (simp add: sched_tick_def Let_def)
    have "(a_state (abs_of ?u))(i := st ?u i) = a_state (abs_of ?u)" using c(2) by (simp add: fun_eq_iff)
    then have a: "abs_of ?v = abs_of s" unfolding abs_upd [OF len c(2)] using c(2) by simp
    have "tcontext (g_tasks ?v ! unat j) = tcontext (g_tasks s ! unat j)"
      using c(2) sched_wfD(1) [OF wf] by (simp add: upd_task.simps nth_list_update)
    then show ?thesis unfolding t using a wf by (simp add: sched_wf_parts)
  qed
  then show "sched_wf (sched_tick s)" "abs_of (sched_tick s) = abs_of s" "g_current_task (sched_tick s) = g_current_task s"
    "g_cpu (sched_tick s) = g_cpu s" "tcontext (g_tasks (sched_tick s) ! unat j) = tcontext (g_tasks s ! unat j)" by simp_all
qed

section \<open>Creating a task\<close>

lemma a_ok_dormant:
  assumes "a_ok a" "unat i < 128" "a_state a i \<notin> {TASK_READY, TASK_RUNNING}" "new \<notin> {TASK_READY, TASK_RUNNING}"
  shows "a_ok (a\<lparr>a_state := (a_state a)(i := new)\<rparr>)"
proof -
  have "i \<notin> set (a_ready a)" "a_current a \<noteq> Some i" using a_okD(2,3) [OF assms(1), of i] assms(3) by auto
  then show ?thesis using assms by (auto simp: a_ok_def)
qed

lemma alloc_slot:
  assumes "sched_wf s" "sched_alloc_task_slot s = Some i"
  shows "unat i < 128" "st s i = TASK_UNUSED"
proof -
  obtain k where k: "first_index (\<lambda>t. tstate t = TASK_UNUSED) (g_tasks s) = Some k" "i = of_nat k"
    using assms(2) by (auto simp: sched_alloc_task_slot_def)
  note f = first_index_SomeD [OF k(1)]
  have k128: "k < 128" using f sched_wfD(1) [OF assms(1)] by simp
  then have "unat i = k" using k(2) by (simp add: unat_of_nat)
  then show "unat i < 128" "st s i = TASK_UNUSED" using f k128 by simp_all
qed

text \<open>An update that keeps the state field of one slot is invisible in the abstract machine.\<close>

lemma upd_same_state:
  assumes "length (g_tasks s) = 128" "unat i < 128" "\<And>t. tstate (f t) = tstate t"
  shows "abs_of (upd_task (TaskSlot i) f s) = abs_of s"
proof -
  have "(a_state (abs_of s))(i := st s i) = a_state (abs_of s)" using assms(2) by (simp add: fun_eq_iff)
  then show ?thesis unfolding abs_upd [OF assms(1,2)] using assms(3) by simp
qed

lemma other_slot: "j \<noteq> i \<Longrightarrow> g_tasks (upd_task (TaskSlot i) f s) ! unat j = g_tasks s ! unat j"
  by (simp add: upd_task.simps nth_list_update word_eq_unat [symmetric])

lemma this_slot: "unat i < length (g_tasks s) \<Longrightarrow> g_tasks (upd_task (TaskSlot i) f s) ! unat i = f (g_tasks s ! unat i)"
  by (simp add: upd_task.simps)

lemma prepare_stack:
  assumes len: "length (g_tasks s) = 128" and i: "unat i < 128"
    and r: "sched_prepare_task_stack code (TaskSlot i) (s, p) = (v, t, p')"
  shows "abs_of t = abs_of s" "shape_ok t = shape_ok s" "current_ok t = current_ok s" "g_cpu t = g_cpu s"
    "g_current_task t = g_current_task s" "\<And>j. j \<noteq> i \<Longrightarrow> g_tasks t ! unat j = g_tasks s ! unat j"
    "length (g_tasks t) = 128" "p' = snd (pmm_alloc_page p)" "v = (if fst (pmm_alloc_page p) = 0 then 0 else 1)"
proof -
  obtain page p1 where a: "pmm_alloc_page p = (page, p1)" by (cases "pmm_alloc_page p")
  let ?f = "\<lambda>t. t\<lparr>kernel_stack_size := MM_PAGE_SIZE, kernel_stack_base := page\<rparr>"
  let ?s1 = "upd_task (TaskSlot i) ?f s"
  let ?s2 = "?s1\<lparr>g_kstack := (g_kstack ?s1)(page + MM_PAGE_SIZE - 8 := addr_sched_task_exit code,
    page + MM_PAGE_SIZE - 16 := addr_sched_task_trampoline code)\<rparr>"
  have t: "t = (if page = 0 then upd_task (TaskSlot i) (\<lambda>t. t\<lparr>kernel_stack_size := 0\<rparr>) ?s1
      else upd_task (TaskSlot i) (\<lambda>t. t\<lparr>tcontext := zero_context\<lparr>ctx_rsp := page + MM_PAGE_SIZE - 16\<rparr>\<rparr>) ?s2)"
    and v: "v = (if page = 0 then 0 else 1)" "p' = p1"
    using r a by (auto simp: sched_prepare_task_stack_def Let_def split: if_splits)
  have l1: "length (g_tasks ?s1) = 128" "length (g_tasks ?s2) = 128" using len by simp_all
  have "abs_of ?s1 = abs_of s" by (rule upd_same_state [OF len i]) simp
  then show "abs_of t = abs_of s"
    using upd_same_state [OF l1(1) i, of "\<lambda>t. t\<lparr>kernel_stack_size := 0\<rparr>"]
      upd_same_state [OF l1(2) i, of "\<lambda>t. t\<lparr>tcontext := zero_context\<lparr>ctx_rsp := page + MM_PAGE_SIZE - 16\<rparr>\<rparr>"]
    by (cases "page = 0") (simp_all add: t)
  show "shape_ok t = shape_ok s" "current_ok t = current_ok s" "g_cpu t = g_cpu s" "g_current_task t = g_current_task s"
    "length (g_tasks t) = 128" using len by (simp_all add: t)
  show "g_tasks t ! unat j = g_tasks s ! unat j" if "j \<noteq> i" for j using that by (simp add: t other_slot)
  show "p' = snd (pmm_alloc_page p)" "v = (if fst (pmm_alloc_page p) = 0 then 0 else 1)" using v a by simp_all
qed

lemma create_reserve_facts:
  assumes wf: "sched_wf s" and i: "unat i < 128" "st s i = TASK_UNUSED"
  shows "sched_wf (create_reserve nm entry arg i s)" "st (create_reserve nm entry arg i s) i = TASK_BLOCKED"
    "abs_of (create_reserve nm entry arg i s) = (abs_of s)\<lparr>a_state := (a_state (abs_of s))(i := TASK_BLOCKED)\<rparr>"
    "g_cpu (create_reserve nm entry arg i s) = g_cpu s" "g_current_task (create_reserve nm entry arg i s) = g_current_task s"
    "\<And>j. j \<noteq> i \<Longrightarrow> g_tasks (create_reserve nm entry arg i s) ! unat j = g_tasks s ! unat j"
proof -
  let ?u = "s\<lparr>g_processes := (g_processes s)[unat i := g_next_pid s], g_next_pid := g_next_pid s + 1, g_next_tid := g_next_tid s + 1\<rparr>"
  let ?f = "\<lambda>t. (sched_reset_task t)\<lparr>tid := g_next_tid s, tstate := TASK_BLOCKED, tname := nm,
          tprocess := Some i, tentry := entry, targ := arg, vruntime := g_cfs_min_vruntime s\<rparr>"
  have cr: "create_reserve nm entry arg i s = upd_task (TaskSlot i) ?f ?u" by (simp add: create_reserve_def)
  have len: "length (g_tasks ?u) = 128" using sched_wfD(1) [OF wf] by simp
  show a: "abs_of (create_reserve nm entry arg i s) = (abs_of s)\<lparr>a_state := (a_state (abs_of s))(i := TASK_BLOCKED)\<rparr>"
    unfolding cr abs_upd [OF len i(1)] by simp
  have "a_ok (abs_of (create_reserve nm entry arg i s))"
    unfolding a by (rule a_ok_dormant [OF sched_wfD(4) [OF wf] i(1)]) (use i in simp_all)
  moreover have "shape_ok ?u" using wf by (simp add: sched_wf_def shape_ok_def ready_ok_def)
  moreover have "current_ok ?u" using wf by (simp add: sched_wf_parts)
  ultimately show "sched_wf (create_reserve nm entry arg i s)" by (simp add: sched_wf_parts cr)
  show "st (create_reserve nm entry arg i s) i = TASK_BLOCKED" using i(1) len by (simp add: cr this_slot)
  show "g_cpu (create_reserve nm entry arg i s) = g_cpu s" "g_current_task (create_reserve nm entry arg i s) = g_current_task s"
    by (simp_all add: cr)
  show "g_tasks (create_reserve nm entry arg i s) ! unat j = g_tasks s ! unat j" if "j \<noteq> i" for j using that by (simp add: cr other_slot)
qed

lemma create_cancel_facts:
  assumes wf: "sched_wf s" and i: "unat i < 128" "st s i = TASK_BLOCKED"
  shows "sched_wf (create_cancel i s)" "abs_of (create_cancel i s) = (abs_of s)\<lparr>a_state := (a_state (abs_of s))(i := TASK_UNUSED)\<rparr>"
    "g_cpu (create_cancel i s) = g_cpu s" "g_current_task (create_cancel i s) = g_current_task s"
    "\<And>j. j \<noteq> i \<Longrightarrow> g_tasks (create_cancel i s) ! unat j = g_tasks s ! unat j"
proof -
  let ?u = "s\<lparr>g_processes := (g_processes s)[unat i := 0]\<rparr>"
  have cc: "create_cancel i s = upd_task (TaskSlot i) sched_reset_task ?u" by (simp add: create_cancel_def)
  have len: "length (g_tasks ?u) = 128" using sched_wfD(1) [OF wf] by simp
  show a: "abs_of (create_cancel i s) = (abs_of s)\<lparr>a_state := (a_state (abs_of s))(i := TASK_UNUSED)\<rparr>"
    unfolding cc abs_upd [OF len i(1)] by (simp add: sched_reset_task_def)
  have "a_ok (abs_of (create_cancel i s))"
    unfolding a by (rule a_ok_dormant [OF sched_wfD(4) [OF wf] i(1)]) (use i in simp_all)
  moreover have "shape_ok ?u" using wf by (simp add: sched_wf_def shape_ok_def ready_ok_def)
  moreover have "current_ok ?u" using wf by (simp add: sched_wf_parts)
  ultimately show "sched_wf (create_cancel i s)" by (simp add: sched_wf_parts cc)
  show "g_cpu (create_cancel i s) = g_cpu s" "g_current_task (create_cancel i s) = g_current_task s" by (simp_all add: cc)
  show "g_tasks (create_cancel i s) ! unat j = g_tasks s ! unat j" if "j \<noteq> i" for j using that by (simp add: cc other_slot)
qed

lemma create_task_step:
  assumes wf: "sched_wf s" and r: "sched_create_kernel_task code nm entry arg (s, p) = (res, t, p')"
  shows "sched_wf t \<and> g_cpu t = g_cpu s \<and> g_current_task t = g_current_task s \<and>
    (\<forall>j. unat j < 128 \<longrightarrow> st s j \<noteq> TASK_UNUSED \<longrightarrow> g_tasks t ! unat j = g_tasks s ! unat j) \<and>
    (case res of None \<Rightarrow> abs_of t = abs_of s
     | Some i \<Rightarrow> unat i < 128 \<and> st s i = TASK_UNUSED \<and>
        abs_of t = (abs_of s)\<lparr>a_state := (a_state (abs_of s))(i := TASK_READY), a_ready := ready_list s @ [i]\<rparr>)"
proof (cases "entry = 0 \<or> sched_alloc_task_slot s = None")
  case True
  then have "res = None" "t = s" using r by (auto simp: sched_create_kernel_task_def split: if_splits)
  then show ?thesis using wf by simp
next
  case False
  then obtain i where i: "sched_alloc_task_slot s = Some i" "entry \<noteq> 0" by auto
  note a = alloc_slot [OF wf i(1)]
  let ?s1 = "create_reserve nm entry arg i s"
  note cr = create_reserve_facts [OF wf a, where nm = nm and entry = entry and arg = arg]
  obtain v s2 p1 where ps: "sched_prepare_task_stack code (TaskSlot i) (?s1, p) = (v, s2, p1)"
    by (cases "sched_prepare_task_stack code (TaskSlot i) (?s1, p)") auto
  note pr = prepare_stack [OF sched_wfD(1) [OF cr(1)] a(1) ps]
  have wf2: "sched_wf s2" using cr(1) pr(1-3) by (simp add: sched_wf_parts)
  have b2: "st s2 i = TASK_BLOCKED" using cr(2,3) pr(1) a(1) by (metis abs_simps(3))
  have ne: "j \<noteq> i" if "st s j \<noteq> TASK_UNUSED" for j using that a(2) by auto
  have keep: "g_tasks s2 ! unat j = g_tasks s ! unat j" if "st s j \<noteq> TASK_UNUSED" for j
    using pr(6) cr(6) ne [OF that] by simp
  have abs2: "abs_of s2 = (abs_of s)\<lparr>a_state := (a_state (abs_of s))(i := TASK_BLOCKED)\<rparr>" using pr(1) cr(3) by simp
  have unused: "(a_state (abs_of s))(i := TASK_UNUSED) = a_state (abs_of s)" using a by (simp add: fun_eq_iff)
  show ?thesis
  proof (cases "v = 0")
    case True
    then have t: "t = create_cancel i s2" "res = None" using r i ps by (simp_all add: sched_create_kernel_task_def)
    note cc = create_cancel_facts [OF wf2 a(1) b2]
    show ?thesis using cc cr(4,5) pr(4,5) keep ne abs2 unused by (simp add: t)
  next
    case vn: False
    obtain w u where e: "sched_enqueue_task i (set_state (TaskSlot i) TASK_READY s2) = (w, u)"
      by (cases "sched_enqueue_task i (set_state (TaskSlot i) TASK_READY s2)")
    have nr: "st s2 i \<noteq> TASK_READY" using b2 by simp
    note m = make_ready [OF wf2 a(1) nr e]
    have t: "t = u" "res = Some i"
      using r i ps vn e m(1) by (simp_all add: sched_create_kernel_task_def create_publish_def)
    have rl: "ready_list s2 = ready_list s" using arg_cong [OF abs2, of a_ready] by simp
    have ab: "abs_of u = (abs_of s)\<lparr>a_state := (a_state (abs_of s))(i := TASK_READY), a_ready := ready_list s @ [i]\<rparr>"
      using m(3) abs2 rl by simp
    have "astep (abs_of s) (abs_of u)" using a_create [of "abs_of s" i] a ab by simp
    then have "sched_wf u"
      using astep_ok [OF _ sched_wfD(4) [OF wf]] m(2,6,7) wf2 current_cong [of u s2] by (simp add: sched_wf_parts)
    moreover have "g_tasks u ! unat j = g_tasks s ! unat j" if "st s j \<noteq> TASK_UNUSED" for j
      using m(4) other_slot [OF ne [OF that], of "\<lambda>t. t\<lparr>tstate := TASK_READY\<rparr>" s2] keep [OF that] by simp
    ultimately show ?thesis using t m(6,8) pr(4,5) cr(4,5) a ab by simp
  qed
qed

section \<open>The transition system\<close>

type_synonym sched_sys = "sched \<times> pmm \<times> (nat \<Rightarrow> wait_queue_t)"

inductive sched_step :: "sched_code \<Rightarrow> sched_sys \<Rightarrow> sched_sys \<Rightarrow> bool" for code where
  s_compute: "sched_step code (s, p, w) (s\<lparr>g_cpu := regs\<rparr>, p, w)"
| s_yield: "sched_step code (s, p, w) (sched_yield s, p, w)"
| s_tick: "sched_step code (s, p, w) (sched_tick s, p, w)"
| s_resched: "sched_step code (s, p, w) (sched_request_resched s, p, w)"
| s_preempt: "sched_preempt_on_tick s = (v, t) \<Longrightarrow> sched_step code (s, p, w) (t, p, w)"
| s_run: "sched_run s = (v, t) \<Longrightarrow> sched_step code (s, p, w) (t, p, w)"
| s_exit: "sched_task_exit s = Some t \<Longrightarrow> sched_step code (s, p, w) (t, p, w)"
| s_create: "sched_create_kernel_task code nm entry arg (s, p) = (r, t, p') \<Longrightarrow>
     sched_step code (s, p, w) (t, p', w)"
| s_wq_init: "sched_wait_queue_init (Some (w k)) = Some q \<Longrightarrow> sched_step code (s, p, w) (s, p, w(k := q))"
| s_wait: "sched_wait_queue_wait (Some (w k)) s = (v, Some q, t) \<Longrightarrow> sched_step code (s, p, w) (t, p, w(k := q))"
| s_wake_one: "sched_wait_queue_wake_one (Some (w k)) s = (v, Some q, t) \<Longrightarrow>
     sched_step code (s, p, w) (t, p, w(k := q))"
| s_wake_all: "sched_wait_queue_wake_all (Some (w k)) s = Some (n, Some q, t) \<Longrightarrow>
     sched_step code (s, p, w) (t, p, w(k := q))"

definition sys_ok :: "sched_sys \<Rightarrow> bool" where
  "sys_ok = (\<lambda>(s, p, w). sched_wf s \<and> (\<forall>k. wait_ok (w k)))"

text \<open>Several tasks woken one after the other.\<close>

lemma wake_many:
  assumes "distinct ws" "\<And>c. c \<in> set ws \<Longrightarrow> a_state a c = TASK_BLOCKED"
  shows "astep\<^sup>*\<^sup>* a (a\<lparr>a_state := (\<lambda>i. if i \<in> set ws then TASK_READY else a_state a i), a_ready := a_ready a @ ws\<rparr>)"
  using assms
proof (induction ws arbitrary: a)
  case Nil
  then show ?case by simp
next
  case (Cons c ws)
  let ?b = "a\<lparr>a_state := (a_state a)(c := TASK_READY), a_ready := a_ready a @ [c]\<rparr>"
  have st: "astep a ?b" by (rule a_wake) (use Cons.prems in simp)
  have "astep\<^sup>*\<^sup>* ?b (?b\<lparr>a_state := (\<lambda>i. if i \<in> set ws then TASK_READY else a_state ?b i), a_ready := a_ready ?b @ ws\<rparr>)"
    by (rule Cons.IH) (use Cons.prems in auto)
  moreover have "(\<lambda>i. if i \<in> set ws then TASK_READY else a_state ?b i) = (\<lambda>i. if i \<in> set (c # ws) then TASK_READY else a_state a i)"
    by (auto simp: fun_eq_iff)
  ultimately have "astep\<^sup>*\<^sup>* ?b (a\<lparr>a_state := (\<lambda>i. if i \<in> set (c # ws) then TASK_READY else a_state a i), a_ready := a_ready a @ c # ws\<rparr>)"
    by simp
  with st show ?case by (rule converse_rtranclp_into_rtranclp)
qed

lemma wait_init_ok: "wait_ok q \<Longrightarrow> wait_ok (q\<lparr>wq_head := 0, wq_tail := 0, wq_size := 0\<rparr>)"
  by (simp add: wait_ok_def ring_ok_def)

lemma sched_step_ok:
  assumes "sched_step code a b" "sys_ok a"
  shows "sys_ok b \<and> astep\<^sup>*\<^sup>* (abs_of (fst a)) (abs_of (fst b))"
  using assms
proof cases
  case (s_compute s p w regs)
  then show ?thesis using assms(2) by (simp add: sys_ok_def sched_wf_parts)
next
  case (s_yield s p w)
  then show ?thesis using assms(2) sched_yield_step [of s] by (auto simp: sys_ok_def split: if_splits)
next
  case (s_tick s p w)
  then show ?thesis using assms(2) sched_tick_step [of s] by (simp add: sys_ok_def)
next
  case (s_resched s p w)
  then show ?thesis using assms(2) by (simp add: sys_ok_def sched_request_resched_def sched_wf_parts)
next
  case (s_preempt s v t p w)
  then show ?thesis using assms(2) sched_preempt_step [of s v t] by (auto simp: sys_ok_def split: if_splits)
next
  case (s_run s v t p w)
  then show ?thesis using assms(2) sched_run_step [of s v t] by (auto simp: sys_ok_def split: if_splits)
next
  case (s_exit s t p w)
  then show ?thesis using assms(2) sched_exit_step [of s] by (auto simp: sys_ok_def)
next
  case (s_create nm entry arg s p r t p' w)
  then have wf: "sched_wf s" using assms(2) by (simp add: sys_ok_def)
  note c = create_task_step [OF wf s_create(3)]
  have "astep\<^sup>*\<^sup>* (abs_of s) (abs_of t)"
  proof (cases r)
    case None
    then show ?thesis using c by simp
  next
    case (Some i)
    then show ?thesis using c a_create [of "abs_of s" i] by (intro r_into_rtranclp) simp
  qed
  then show ?thesis using c s_create assms(2) by (simp add: sys_ok_def)
next
  case (s_wq_init w k q s p)
  then show ?thesis using assms(2) wait_init_ok by (auto simp: sys_ok_def sched_wait_queue_init_def)
next
  case (s_wait w k s v q t p)
  then have ok: "sched_wf s" "wait_ok (w k)" using assms(2) by (simp_all add: sys_ok_def)
  show ?thesis using wait_queue_wait_step [OF ok s_wait(3)] s_wait assms(2) by (auto simp: sys_ok_def split: if_splits)
next
  case (s_wake_one w k s v q t p)
  then have ok: "sched_wf s" "wait_ok (w k)" using assms(2) by (simp_all add: sys_ok_def)
  have r: "sched_wake_one_locked (Some (w k)) s = (v, Some q, t)" using s_wake_one(3) by (simp add: sched_wait_queue_wake_one_def)
  from wake_one_spec [OF ok r] have q: "wait_ok q" and c: "case dropWhile (\<lambda>c. \<not> wakeable s c) (wait_list (w k)) of
      [] \<Rightarrow> v = 0 \<and> t = s \<and> wait_list q = []
    | c # cs \<Rightarrow> v = 1 \<and> wait_list q = cs \<and> sched_wf t \<and> g_need_resched t = 1 \<and> only_wakes [c] s t \<and>
        abs_of t = (abs_of s)\<lparr>a_state := (a_state (abs_of s))(c := TASK_READY), a_ready := ready_list s @ [c]\<rparr>" by auto
  have "sched_wf t \<and> astep\<^sup>*\<^sup>* (abs_of s) (abs_of t)"
  proof (cases "dropWhile (\<lambda>c. \<not> wakeable s c) (wait_list (w k))")
    case Nil
    then show ?thesis using c [unfolded Nil] ok by simp
  next
    case (Cons x xs)
    have "wakeable s x" using dropWhile_ConsD [OF Cons] by blast
    then show ?thesis using c [unfolded Cons] a_wake [of "abs_of s" x] by (auto intro: r_into_rtranclp)
  qed
  then show ?thesis using s_wake_one assms(2) q by (simp add: sys_ok_def)
next
  case (s_wake_all w k s n q t p)
  then have ok: "sched_wf s" "wait_ok (w k)" using assms(2) by (simp_all add: sys_ok_def)
  have "length (wait_list (w k)) < 2 ^ 64" using wait_bounded [OF ok(2)] by simp
  then have t: "sched_wf t" "wait_ok q" "only_wakes (wake_order s (wait_list (w k))) s t"
    "ready_list t = ready_list s @ wake_order s (wait_list (w k))"
    using wake_all_spec [OF ok, of 0] s_wake_all(3) by (auto simp: sched_wait_queue_wake_all_def)
  note ws = t(1,2) wake_order_facts [of s "wait_list (w k)"] only_wakes_abs [OF t(3,4)]
  have "astep\<^sup>*\<^sup>* (abs_of s) (abs_of t)" using wake_many [OF ws(3), of "abs_of s"] ws(4,5) by auto
  then show ?thesis using s_wake_all assms(2) ws(1,2) by (simp add: sys_ok_def)
qed

lemma sched_steps_ok:
  assumes "(sched_step code)\<^sup>*\<^sup>* a b" "sys_ok a"
  shows "sys_ok b \<and> astep\<^sup>*\<^sup>* (abs_of (fst a)) (abs_of (fst b))"
  using assms
proof (induction rule: rtranclp_induct)
  case (step y z)
  then show ?case using sched_step_ok [OF step.hyps(2)] by (meson rtranclp_trans)
qed simp

end
