(* ===== verification/Sched_Props.thy ===== *)
theory Sched_Props
  imports Sched_Sys
begin

text \<open>
  The saved registers of tasks that are off the processor, and the properties of the scheduler.
\<close>

section \<open>Saved contexts\<close>

abbreviation ctx :: "sched \<Rightarrow> u16 \<Rightarrow> task_context_t" where
  "ctx s i \<equiv> tcontext (g_tasks s ! unat i)"

lemma to_bootstrap_tasks:
  "j \<noteq> i \<Longrightarrow> g_tasks (to_bootstrap (TaskSlot i) s) ! unat j = g_tasks s ! unat j"
  "unat i < length (g_tasks s) \<Longrightarrow> ctx (to_bootstrap (TaskSlot i) s) i = g_cpu s"
  "g_current_task (to_bootstrap (TaskSlot i) s) = Some Bootstrap"
  by (simp_all add: to_bootstrap_def x86_64_context_switch_def Let_def other_slot this_slot)

text \<open>The task that gives up the processor, and what the other tasks see of it.\<close>

definition left_by :: "u16 \<Rightarrow> sched \<Rightarrow> sched \<Rightarrow> bool" where
  "left_by i s t \<longleftrightarrow> (\<forall>j. j \<noteq> i \<longrightarrow> g_tasks t ! unat j = g_tasks s ! unat j) \<and> ctx t i = g_cpu s \<and>
     g_current_task t = Some Bootstrap"

lemma left_by_requeue:
  assumes wf: "sched_wf s" and i: "unat i < 128" "st s i = TASK_RUNNING"
    and e: "sched_enqueue_task i (set_state (TaskSlot i) TASK_READY s) = (v, t)"
    and u: "g_tasks u = g_tasks t" "g_cpu u = g_cpu t"
  shows "left_by i s (to_bootstrap (TaskSlot i) u)"
proof -
  have nr: "st s i \<noteq> TASK_READY" using i(2) by simp
  note m = make_ready [OF wf i(1) nr e]
  have "g_tasks t ! unat j = g_tasks s ! unat j" if "j \<noteq> i" for j
    using m(4) other_slot [OF that] by simp
  moreover have "length (g_tasks t) = 128" using m(2) by (simp add: shape_ok_def)
  ultimately show ?thesis using to_bootstrap_tasks [where s = u and i = i] i(1) m(8) u by (simp add: left_by_def)
qed

lemma yield_left:
  assumes wf: "sched_wf s" and c: "g_current_task s = Some (TaskSlot i)"
  shows "left_by i s (sched_yield s)"
proof -
  note w = wf_current [OF wf c]
  have r: "running_task s = Some (TaskSlot i)" using running_task_wf [OF wf] c by simp
  obtain v t where e: "sched_enqueue_task i (set_state (TaskSlot i) TASK_READY s) = (v, t)"
    by (cases "sched_enqueue_task i (set_state (TaskSlot i) TASK_READY s)")
  have "v = 1" using make_ready(1) [OF wf w(1) _ e] w(2) by simp
  then have "sched_yield s = to_bootstrap (TaskSlot i) t" using r w(3) e by (simp add: sched_yield_def)
  then show ?thesis using left_by_requeue [OF wf w(1,2) e refl refl] by simp
qed

lemma preempt_left:
  assumes wf: "sched_wf s" and r: "sched_preempt_on_tick s = (v, t)"
  shows "(g_tasks t = g_tasks s \<and> g_current_task t = g_current_task s \<and> g_cpu t = g_cpu s) \<or>
    (\<exists>i. g_current_task s = Some (TaskSlot i) \<and> left_by i s t)"
  using wf
proof (rule current_cases)
  assume "running_task s = None"
  then show ?thesis using r by (auto simp: sched_preempt_on_tick_def split: if_splits)
next
  fix i
  assume c: "g_current_task s = Some (TaskSlot i)" "running_task s = Some (TaskSlot i)"
      "unat i < 128" "st s i = TASK_RUNNING" "g_current_index s = i"
  show ?thesis
  proof (cases "g_need_resched s = 0")
    case True
    then show ?thesis using r by (simp add: sched_preempt_on_tick_def)
  next
    case False
    obtain w u where e: "sched_enqueue_task i (set_state (TaskSlot i) TASK_READY s) = (w, u)"
      by (cases "sched_enqueue_task i (set_state (TaskSlot i) TASK_READY s)")
    have w1: "w = 1" using make_ready(1) [OF wf c(3) _ e] c(4) by simp
    have "left_by i s t"
      using r c e w1 False left_by_requeue [OF wf c(3,4) e] by (auto simp: sched_preempt_on_tick_def)
    then show ?thesis using c(1) by blast
  qed
qed

lemma leave_left:
  assumes len: "length (g_tasks s) = 128" and i: "unat i < 128"
  shows "left_by i s (to_bootstrap (TaskSlot i) (upd_task (TaskSlot i) f s))"
  using to_bootstrap_tasks [where s = "upd_task (TaskSlot i) f s" and i = i] assms other_slot
  by (simp add: left_by_def)

lemma wake_loop_tasks:
  "wake_loop n q s = (v, p, t) \<Longrightarrow> length (g_tasks s) = 128 \<Longrightarrow>
     ctx t j = ctx s j \<and> g_current_task t = g_current_task s \<and> g_cpu t = g_cpu s \<and> length (g_tasks t) = 128"
proof (induction n arbitrary: q)
  case (Suc n)
  have up: "ctx (set_state (TaskSlot c) x s') j = ctx s' j" if "length (g_tasks s') = 128" "unat c < 128" for c x s'
    using that other_slot [of j c "\<lambda>t. t\<lparr>tstate := x\<rparr>" s'] this_slot [of c s' "\<lambda>t. t\<lparr>tstate := x\<rparr>"] by (cases "j = c") simp_all
  have en: "g_tasks u = g_tasks s' \<and> g_current_task u = g_current_task s' \<and> g_cpu u = g_cpu s'"
    if "sched_enqueue_task c s' = (w, u)" for c s' w u
    using that by (auto simp: sched_enqueue_task_def split: if_splits)
  show ?case
  proof (cases "sched_waitq_dequeue q")
    case None
    then show ?thesis using Suc.prems by simp
  next
    case (Some cq)
    obtain c q1 where cq: "cq = (c, q1)" by (cases cq)
    obtain w u where e: "sched_enqueue_task c (set_state (TaskSlot c) TASK_READY s) = (w, u)"
      by (cases "sched_enqueue_task c (set_state (TaskSlot c) TASK_READY s)")
    show ?thesis
      using Suc.prems Suc.IH [of q1] Some cq e en [OF e] up [of s c TASK_READY] up [of u c TASK_BLOCKED]
      by (auto simp: word_le_unat unat_ucast_up Let_def split: if_splits)
  qed
qed simp

lemma wake_one_tasks:
  assumes "sched_wake_one_locked q s = (v, p, t)" "length (g_tasks s) = 128"
  shows "ctx t j = ctx s j \<and> g_current_task t = g_current_task s \<and> g_cpu t = g_cpu s \<and> length (g_tasks t) = 128"
proof (cases q)
  case (Some q0)
  obtain w p0 u where "wake_loop (unat (wq_size q0)) q0 s = (w, p0, u)" by (cases "wake_loop (unat (wq_size q0)) q0 s") auto
  then show ?thesis using wake_loop_tasks [of "unat (wq_size q0)" q0 s w p0 u j] assms Some by (simp add: sched_wake_one_locked_def)
qed (use assms in \<open>simp add: sched_wake_one_locked_def\<close>)

lemma wake_all_tasks:
  assumes "wake_all_loop n q s = Some r" "length (g_tasks s) = 128"
  shows "ctx (snd (snd r)) j = ctx s j \<and> g_current_task (snd (snd r)) = g_current_task s \<and> g_cpu (snd (snd r)) = g_cpu s"
proof -
  let ?P = "\<lambda>n q s r. length (g_tasks s) = 128 \<longrightarrow>
    ctx (snd (snd r)) j = ctx s j \<and> g_current_task (snd (snd r)) = g_current_task s \<and> g_cpu (snd (snd r)) = g_cpu s"
  have "?P n q s r"
  proof (rule wake_all_loop.raw_induct [where P = ?P, OF _ assms(1)])
    fix wal n q s r
    assume ih: "\<And>n q s r. wal n q s = Some r \<Longrightarrow> ?P n q s r"
      and r: "(let (v, q', u) = sched_wake_one_locked q s in if v \<noteq> 0 then wal (n + 1) q' u else Some (n, q', u)) = Some r"
    obtain v q' u where w: "sched_wake_one_locked q s = (v, q', u)" by (cases "sched_wake_one_locked q s") auto
    show "?P n q s r"
      using r w wake_one_tasks [OF w, of j] ih [of "n + 1" q' u r] by (auto split: if_splits)
  qed
  then show ?thesis using assms(2) by simp
qed

text \<open>
  A step of the system leaves the saved registers of a task that is not running alone, and a step
  that makes it run loads them.
\<close>

lemma step_context:
  assumes st: "sched_step code (s, p, w) (t, p', w')" and ok: "sys_ok (s, p, w)"
    and j: "unat j < 128" "st s j \<noteq> TASK_UNUSED" and away: "g_current_task s \<noteq> Some (TaskSlot j)"
  shows "ctx t j = ctx s j \<and> (g_current_task t = Some (TaskSlot j) \<longrightarrow> g_cpu t = ctx s j)"
proof -
  have wf: "sched_wf s" using ok by (simp add: sys_ok_def)
  have len: "length (g_tasks s) = 128" by (rule sched_wfD(1) [OF wf])
  have left: "ctx t j = ctx s j \<and> (g_current_task t = Some (TaskSlot j) \<longrightarrow> g_cpu t = ctx s j)"
    if "g_current_task s = Some (TaskSlot i)" "left_by i s t" for i
    using that away by (auto simp: left_by_def)
  obtain r where r: "g_current_task s = Some r" using sched_wfD(5) [OF wf] by blast
  from st show ?thesis
  proof cases
    case (s_compute regs)
    then show ?thesis using away by simp
  next
    case s_yield
    then show ?thesis using r left yield_left [OF wf] sched_yield_step [OF wf] by (cases r) auto
  next
    case s_tick
    then show ?thesis using sched_tick_step(3,5) [OF wf] away by simp
  next
    case s_resched
    then show ?thesis using away by (simp add: sched_request_resched_def)
  next
    case (s_preempt v)
    then show ?thesis using preempt_left [OF wf s_preempt(3)] left away by auto
  next
    case (s_run v)
    have "ctx t j = ctx s j \<and> (g_current_task t = Some (TaskSlot j) \<longrightarrow> g_cpu t = ctx s j)"
      using sched_run_step [OF wf s_run(3)] away len j(1) by (auto simp: nth_list_update ready_member [OF wf] split: if_splits)
    then show ?thesis .
  next
    case s_exit
    then obtain i where i: "r = TaskSlot i" using r by (cases r) (auto simp: sched_task_exit_def)
    have i128: "unat i < 128" using wf_current [OF wf] r i by simp
    have "left_by i s t" using s_exit(3) r i leave_left [OF len i128] by (auto simp: sched_task_exit_def)
    then show ?thesis using left r i by simp
  next
    case (s_create nm entry arg res)
    then show ?thesis using create_task_step [OF wf s_create(2)] j away by auto
  next
    case (s_wq_init k q)
    then show ?thesis using away by simp
  next
    case (s_wait k v q)
    have wo: "wait_ok (w k)" using ok by (simp add: sys_ok_def)
    show ?thesis
    proof (cases "t = s")
      case True
      then show ?thesis using away by simp
    next
      case False
      from wf show ?thesis
      proof (rule current_cases)
        assume "running_task s = None"
        then show ?thesis using s_wait(3) False by (simp add: sched_wait_queue_wait_def)
      next
        fix i
        assume c: "g_current_task s = Some (TaskSlot i)" "running_task s = Some (TaskSlot i)" "unat i < 128" "g_current_index s = i"
        obtain e q1 where eq: "sched_waitq_enqueue (w k) i = (e, q1)" by (cases "sched_waitq_enqueue (w k) i")
        have "t = to_bootstrap (TaskSlot i) (set_state (TaskSlot i) TASK_BLOCKED s)"
          using s_wait(3) False c eq by (auto simp: sched_wait_queue_wait_def split: if_splits)
        then show ?thesis using left [OF c(1)] leave_left [OF len c(3)] by simp
      qed
    qed
  next
    case (s_wake_one k v q)
    then show ?thesis using wake_one_tasks [OF _ len, of "Some (w k)" v "Some q" t j] away by (simp add: sched_wait_queue_wake_one_def)
  next
    case (s_wake_all k n q)
    then show ?thesis using wake_all_tasks [OF _ len, of 0 "Some (w k)" "(n, Some q, t)" j] away by (simp add: sched_wait_queue_wake_all_def)
  qed
qed

text \<open>Runs in which task \<open>i\<close> does not run before the last state.\<close>

inductive off_cpu :: "sched_code \<Rightarrow> u16 \<Rightarrow> sched_sys \<Rightarrow> sched_sys \<Rightarrow> bool" for code i a where
  off_refl: "off_cpu code i a a"
| off_step: "off_cpu code i a b \<Longrightarrow> g_current_task (fst b) \<noteq> Some (TaskSlot i) \<Longrightarrow> sched_step code b c \<Longrightarrow>
     off_cpu code i a c"

lemma asteps_used: "astep\<^sup>*\<^sup>* a b \<Longrightarrow> a_state a i \<noteq> TASK_UNUSED \<Longrightarrow> a_state b i \<noteq> TASK_UNUSED"
  by (induction rule: rtranclp_induct) (auto elim!: astepE split: if_splits)

lemma off_cpu_context:
  assumes "off_cpu code i a b" "sys_ok a" "unat i < 128" "st (fst a) i \<noteq> TASK_UNUSED"
    "g_current_task (fst a) \<noteq> Some (TaskSlot i)"
  shows "sys_ok b \<and> st (fst b) i \<noteq> TASK_UNUSED \<and> ctx (fst b) i = ctx (fst a) i \<and>
    (g_current_task (fst b) = Some (TaskSlot i) \<longrightarrow> g_cpu (fst b) = ctx (fst a) i)"
  using assms
proof (induction rule: off_cpu.induct)
  case off_refl
  then show ?case by simp
next
  case (off_step b c)
  obtain s p w where b: "b = (s, p, w)" by (cases b) auto
  obtain t p' w' where c: "c = (t, p', w')" by (cases c) auto
  have ih: "sys_ok b" "st s i \<noteq> TASK_UNUSED" "ctx s i = ctx (fst a) i" using off_step b by simp_all
  have ok: "sys_ok c" "astep\<^sup>*\<^sup>* (abs_of s) (abs_of t)" using sched_step_ok [OF off_step.hyps(3) ih(1)] b c by simp_all
  have "st t i \<noteq> TASK_UNUSED" using asteps_used [OF ok(2), of i] ih(2) off_step.prems(2) by simp
  moreover have "ctx t i = ctx s i \<and> (g_current_task t = Some (TaskSlot i) \<longrightarrow> g_cpu t = ctx s i)"
    using step_context [of code s p w t p' w' i] off_step.hyps(2,3) off_step.prems(2) ih b c by simp
  ultimately show ?case using ok(1) ih(3) c by simp
qed

section \<open>Properties\<close>

text \<open>Zeroed static data, and a system with one running task, for the examples.\<close>

definition zero_task :: task_t where
  "zero_task = \<lparr>tid = 0, tstate = TASK_UNUSED, tname = None, tprocess = None, tentry = 0, targ = 0,
     runtime_ticks = 0, vruntime = 0, context_switches = 0, tcontext = zero_context,
     kernel_stack_base = 0, kernel_stack_size = 0\<rparr>"

definition sched_bss :: sched where
  "sched_bss = \<lparr>g_processes = replicate 128 0, g_tasks = replicate 128 zero_task, g_bootstrap_task = zero_task,
     g_ready_queue = replicate 128 0, g_ready_head = 0, g_ready_tail = 0, g_ready_size = 0, g_next_pid = 1,
     g_next_tid = 1, g_current_task = None, g_current_index = SCHED_TASK_INDEX_NONE, g_sched_ticks = 0,
     g_need_resched = 0, g_preempt_switches = 0, g_preempt_log_emitted = 0, g_cfs_min_vruntime = 0,
     g_sched_trace_budget = 0, g_cpu = zero_context, g_kstack = (\<lambda>_. 0)\<rparr>"

definition empty_wait_queue :: wait_queue_t where
  "empty_wait_queue = \<lparr>wq_queue = replicate 128 0, wq_head = 0, wq_tail = 0, wq_size = 0\<rparr>"

definition one_running :: sched where
  "one_running = (upd_task (TaskSlot 3) (\<lambda>t. t\<lparr>tid := 1, tstate := TASK_RUNNING, tentry := 64\<rparr>) (sched_init sched_bss))
     \<lparr>g_current_task := Some (TaskSlot 3), g_current_index := 3, g_cpu := zero_context\<lparr>ctx_rbx := 42\<rparr>\<rparr>"

lemma bss_lengths: "length (g_tasks sched_bss) = 128" "length (g_processes sched_bss) = 128" "length (g_ready_queue sched_bss) = 128"
  by (simp_all add: sched_bss_def)

lemma empty_wait_ok: "wait_ok empty_wait_queue" "wait_list empty_wait_queue = []"
  by (simp_all add: wait_ok_def ring_ok_def wait_list_def empty_wait_queue_def)

lemma one_running_abs:
  "abs_of one_running = \<lparr>a_state = (\<lambda>_. TASK_UNUSED)(3 := TASK_RUNNING), a_ready = [], a_current = Some 3\<rparr>"
proof -
  let ?i = "sched_init sched_bss"
  let ?u = "upd_task (TaskSlot 3) (\<lambda>t. t\<lparr>tid := 1, tstate := TASK_RUNNING, tentry := 64\<rparr>) ?i"
  note iw = sched_init_wf [OF bss_lengths]
  have "unat (3 :: u16) < 128" by simp
  then have au: "abs_of ?u = (abs_of ?i)\<lparr>a_state := (a_state (abs_of ?i))(3 := TASK_RUNNING)\<rparr>"
    using abs_upd [OF sched_wfD(1) [OF iw(1)]] by simp
  have "abs_of one_running = (abs_of ?u)\<lparr>a_current := Some 3\<rparr>"
    by (simp add: one_running_def abs_of_def ready_list_def cong: if_cong)
  then show ?thesis unfolding au iw(2) by simp
qed

lemma one_running_wf: "sched_wf one_running" "ready_list one_running = []"
proof -
  have "shape_ok one_running"
    using sched_init_wf(1) [OF bss_lengths] shape_upd [of 3 "\<lambda>t. t\<lparr>tid := 1, tstate := TASK_RUNNING, tentry := 64\<rparr>" "sched_init sched_bss"]
    by (simp add: sched_wf_parts one_running_def)
  moreover have "a_ok (abs_of one_running)" unfolding one_running_abs by (auto simp: a_ok_def)
  moreover have "current_ok one_running" by (simp add: one_running_def current_ok_def)
  ultimately show "sched_wf one_running" by (simp add: sched_wf_parts)
  show "ready_list one_running = []" using arg_cong [OF one_running_abs, of a_ready] by simp
qed

lemma one_running_current: "g_current_task one_running = Some (TaskSlot 3)"
  by (simp add: one_running_def)

text \<open>
  C2. In every state the system reaches from \<^verbatim>\<open>sched_init\<close> by any sequence of scheduler calls, ticks
  and preemptions, the ready queue holds every ready task exactly once and nothing else, the one
  task in state RUNNING is the current task, and the run is a run of the abstract machine.
\<close>

theorem sched_invariant:
  assumes "length (g_tasks b) = 128" "length (g_processes b) = 128" "length (g_ready_queue b) = 128"
    "\<And>k. wait_ok (w k)" "(sched_step code)\<^sup>*\<^sup>* (sched_init b, p, w) (s, p', w')"
  shows "distinct (ready_list s) \<and> set (ready_list s) = {i. unat i < 128 \<and> st s i = TASK_READY} \<and>
    (\<forall>i. unat i < 128 \<longrightarrow> (st s i = TASK_RUNNING \<longleftrightarrow> g_current_task s = Some (TaskSlot i))) \<and>
    (\<forall>k. wait_ok (w' k)) \<and> astep\<^sup>*\<^sup>* (abs_of (sched_init b)) (abs_of s)"
proof -
  have "sys_ok (sched_init b, p, w)" using sched_init_wf(1) [OF assms(1-3)] assms(4) by (simp add: sys_ok_def)
  with sched_steps_ok [OF assms(5)] have ok: "sched_wf s" "\<forall>k. wait_ok (w' k)" "astep\<^sup>*\<^sup>* (abs_of (sched_init b)) (abs_of s)"
    by (simp_all add: sys_ok_def)
  note a = a_okD [OF sched_wfD(4) [OF ok(1)]]
  have "st s i = TASK_RUNNING \<longleftrightarrow> g_current_task s = Some (TaskSlot i)" if "unat i < 128" for i
    using a(3) [of i] that by (auto split: option.splits task_ref.splits)
  then show ?thesis using ready_member [OF ok(1)] a(1) ok(2,3) by auto
qed

theorem sched_invariant_witness:
  "distinct (ready_list (sched_tick (sched_yield (sched_init sched_bss))))"
proof -
  let ?w = "\<lambda>_ :: nat. empty_wait_queue" and ?c = "\<lparr>addr_sched_task_exit = 1, addr_sched_task_trampoline = 2\<rparr>"
  have "(sched_step ?c)\<^sup>*\<^sup>* (sched_init sched_bss, pmm_bss, ?w) (sched_tick (sched_yield (sched_init sched_bss)), pmm_bss, ?w)"
    by (rule rtranclp.rtrancl_into_rtrancl, rule r_into_rtranclp, rule s_yield, rule s_tick)
  with sched_invariant [OF bss_lengths empty_wait_ok(1)] show ?thesis by blast
qed

text \<open>
  C17. \<^verbatim>\<open>sched_run\<close> from the bootstrap task picks, among all ready tasks, the one with the least
  virtual runtime, the least task id breaking ties; it takes that task alone off the ready queue,
  marks it running and loads its saved registers.  With no ready task it changes nothing.
\<close>

theorem sched_run_picks_least:
  assumes "sched_wf s" "g_current_task s = Some Bootstrap" "sched_run s = (v, t)"
  shows "if \<forall>i. unat i < 128 \<longrightarrow> st s i \<noteq> TASK_READY then v = 0 \<and> t = s
    else v = 1 \<and> (\<exists>b. unat b < 128 \<and> st s b = TASK_READY \<and> st t b = TASK_RUNNING \<and> g_current_task t = Some (TaskSlot b) \<and>
      (\<forall>j. unat j < 128 \<longrightarrow> st s j = TASK_READY \<longrightarrow> task_le (g_tasks s ! unat b) (g_tasks s ! unat j)) \<and>
      ready_list t = remove1 b (ready_list s) \<and> g_cpu t = ctx s b)"
proof -
  note mem = ready_member [OF assms(1)] and len = sched_wfD(1) [OF assms(1)]
  have e: "(\<forall>i. unat i < 128 \<longrightarrow> st s i \<noteq> TASK_READY) \<longleftrightarrow> ready_list s = []" using mem by (cases "ready_list s") auto
  show ?thesis
  proof (cases "ready_list s = []")
    case True
    then show ?thesis using sched_run_step [OF assms(1,3)] e by simp
  next
    case False
    then obtain b where b: "v = 1" "g_current_task t = Some (TaskSlot b)" "least_ready (g_tasks s) 128 b" "b \<in> set (ready_list s)"
      "ready_list t = remove1 b (ready_list s)" "g_cpu t = ctx s b"
      "g_tasks t = (g_tasks s)[unat b := (g_tasks s ! unat b)\<lparr>tstate := TASK_RUNNING,
          context_switches := context_switches (g_tasks s ! unat b) + 1\<rparr>]"
      using sched_run_step [OF assms(1,3)] assms(2) by auto
    have bb: "unat b < 128" "st s b = TASK_READY" using mem b(4) by simp_all
    then have "b \<noteq> SCHED_TASK_INDEX_NONE" by (auto simp: SCHED_TASK_INDEX_NONE_def)
    then show ?thesis using e False b bb len by (auto simp: least_ready_def)
  qed
qed

theorem sched_run_picks_least_witness:
  "fst (sched_run (sched_yield one_running)) = 1"
proof -
  let ?s = "sched_yield one_running"
  have y: "sched_wf ?s" using sched_yield_step [OF one_running_wf(1)] one_running_current by simp
  have c: "g_current_task ?s = Some Bootstrap" using yield_left [OF one_running_wf(1) one_running_current] by (simp add: left_by_def)
  have "unat (3 :: u16) < 128" "st ?s 3 = TASK_READY" by code_simp+
  then have "\<not> (\<forall>i. unat i < 128 \<longrightarrow> st ?s i \<noteq> TASK_READY)" by blast
  then show ?thesis using sched_run_picks_least [OF y c, of "fst (sched_run ?s)" "snd (sched_run ?s)"] by (simp add: split: if_splits)
qed

text \<open>
  C18. The registers a task had when it gave up the processor with \<^verbatim>\<open>sched_yield\<close> are the registers
  it has when it next runs, whatever the scheduler and the other tasks do in between.
\<close>

theorem sched_context_preserved:
  assumes "sys_ok (s, p, w)" "g_current_task s = Some (TaskSlot i)"
    "off_cpu code i (sched_yield s, p, w) (u, p', w')" "g_current_task u = Some (TaskSlot i)"
  shows "g_cpu u = g_cpu s"
proof -
  have wf: "sched_wf s" using assms(1) by (simp add: sys_ok_def)
  note l = yield_left [OF wf assms(2)]
  have y: "sched_wf (sched_yield s)" "astep (abs_of s) (abs_of (sched_yield s))"
    using sched_yield_step [OF wf] assms(2) by simp_all
  have i: "unat i < 128" "st s i = TASK_RUNNING" using wf_current [OF wf assms(2)] by simp_all
  have "st (sched_yield s) i \<noteq> TASK_UNUSED"
    using asteps_used [OF r_into_rtranclp [of astep, OF y(2)], of i] i by simp
  moreover have "sys_ok (sched_yield s, p, w)" using assms(1) y(1) by (simp add: sys_ok_def)
  ultimately show ?thesis using off_cpu_context [OF assms(3)] i(1) l assms(4) by (simp add: left_by_def)
qed

theorem sched_context_preserved_witness:
  "g_cpu (snd (sched_run (sched_yield one_running))) = zero_context\<lparr>ctx_rbx := 42\<rparr>"
proof -
  let ?c = "\<lparr>addr_sched_task_exit = 1, addr_sched_task_trampoline = 2\<rparr>"
  let ?y = "sched_yield one_running" and ?w = "\<lambda>_ :: nat. empty_wait_queue"
  let ?u = "snd (sched_run ?y)"
  have "sys_ok (one_running, pmm_bss, ?w)" using one_running_wf(1) empty_wait_ok by (simp add: sys_ok_def)
  moreover have "g_current_task ?y \<noteq> Some (TaskSlot 3)"
    using yield_left [OF one_running_wf(1) one_running_current] by (simp add: left_by_def)
  then have "off_cpu ?c 3 (?y, pmm_bss, ?w) (?u, pmm_bss, ?w)"
    by (intro off_step [OF off_refl] s_run [of _ "fst (sched_run ?y)"]) simp_all
  moreover have "g_current_task ?u = Some (TaskSlot 3)" by code_simp
  ultimately have "g_cpu ?u = g_cpu one_running" by (rule sched_context_preserved [OF _ one_running_current])
  then show ?thesis by (simp add: one_running_def)
qed

text \<open>
  C30. \<^verbatim>\<open>sched_wait_queue_wake_one\<close> wakes the task that has waited longest: it skips the entries of the
  queue that no longer name a blocked task, makes the first that does ready at the end of the ready
  queue and removes it with the skipped ones; when no entry does, it empties the queue and returns
  0.  Nothing else changes state.
\<close>

theorem sched_wake_one_fifo:
  assumes "sched_wf s" "wait_ok q" "sched_wait_queue_wake_one (Some q) s = (v, q', t)"
  shows "\<exists>p. q' = Some p \<and> wait_ok p \<and> (case dropWhile (\<lambda>c. \<not> wakeable s c) (wait_list q) of
      [] \<Rightarrow> v = 0 \<and> t = s \<and> wait_list p = []
    | c # cs \<Rightarrow> v = 1 \<and> wait_list p = cs \<and> sched_wf t \<and> ready_list t = ready_list s @ [c] \<and>
        (\<forall>i. unat i < 128 \<longrightarrow> st t i = (if i = c then TASK_READY else st s i)))"
proof -
  have r: "sched_wake_one_locked (Some q) s = (v, q', t)" using assms(3) by (simp add: sched_wait_queue_wake_one_def)
  from wake_one_spec [OF assms(1,2) r] obtain p where p: "q' = Some p" "wait_ok p"
    and c: "case dropWhile (\<lambda>c. \<not> wakeable s c) (wait_list q) of
      [] \<Rightarrow> v = 0 \<and> t = s \<and> wait_list p = []
    | c # cs \<Rightarrow> v = 1 \<and> wait_list p = cs \<and> sched_wf t \<and> g_need_resched t = 1 \<and> only_wakes [c] s t \<and>
        abs_of t = (abs_of s)\<lparr>a_state := (a_state (abs_of s))(c := TASK_READY), a_ready := ready_list s @ [c]\<rparr>" by blast
  show ?thesis
  proof (cases "dropWhile (\<lambda>c. \<not> wakeable s c) (wait_list q)")
    case Nil
    show ?thesis unfolding Nil using c [unfolded Nil] p by simp
  next
    case (Cons x xs)
    have a: "abs_of t = (abs_of s)\<lparr>a_state := (a_state (abs_of s))(x := TASK_READY), a_ready := ready_list s @ [x]\<rparr>"
      using c [unfolded Cons] by simp
    have "ready_list t = ready_list s @ [x]" using arg_cong [OF a, of a_ready] by simp
    moreover have "st t i = (if i = x then TASK_READY else st s i)" if "unat i < 128" for i
      using arg_cong [OF a, of "\<lambda>a. a_state a i"] that by (simp split: if_splits)
    ultimately show ?thesis unfolding Cons using c [unfolded Cons] p by simp
  qed
qed

theorem sched_wake_one_fifo_witness:
  "(let (_, q, s) = sched_wait_queue_wait (Some empty_wait_queue) one_running;
        (v, _, t) = sched_wait_queue_wake_one q s
    in v = 1 \<and> ready_list t = [3])"
proof -
  obtain e q s where r: "sched_wait_queue_wait (Some empty_wait_queue) one_running = (e, q, s)"
    by (cases "sched_wait_queue_wait (Some empty_wait_queue) one_running") auto
  have ci: "g_current_index one_running = 3" by (simp add: one_running_def)
  from wait_queue_wait_step [OF one_running_wf(1) empty_wait_ok(1) r] obtain p where
    p: "sched_wf s" "st s 3 = TASK_BLOCKED" "q = Some p" "wait_ok p" "wait_list p = [3]" "astep (abs_of one_running) (abs_of s)"
    using one_running_current ci by (auto simp: empty_wait_ok)
  obtain v q' t where w: "sched_wait_queue_wake_one (Some p) s = (v, q', t)" by (cases "sched_wait_queue_wake_one (Some p) s") auto
  have "ready_list (snd (snd (sched_wait_queue_wait (Some empty_wait_queue) one_running))) = []" by code_simp
  then have rl: "ready_list s = []" using r by simp
  have "v = 1 \<and> ready_list t = [3]" using sched_wake_one_fifo [OF p(1,4) w] p(2,5) rl by auto
  then show ?thesis using r w p(3) by simp
qed

text \<open>
  C31. \<^verbatim>\<open>sched_wait_queue_wake_all\<close> always returns.  It empties the queue and appends to the ready queue,
  in queue order, every blocked task the queue names, once each however often it is named; it returns
  their number.  Each of them only has its state set to READY; every other task keeps its whole
  record, and besides the ready queue and the request to reschedule nothing of the scheduler changes.
\<close>

theorem sched_wake_all_wakes:
  assumes "sched_wf s" "wait_ok q"
  shows "\<exists>n p t ws. sched_wait_queue_wake_all (Some q) s = Some (n, Some p, t) \<and> sched_wf t \<and> wait_ok p \<and>
    wait_list p = [] \<and> ws = firsts (filter (\<lambda>c. unat c < 128 \<and> tstate (g_tasks s ! unat c) = TASK_BLOCKED) (wait_list q)) \<and>
    unat n = length ws \<and> ready_list t = ready_list s @ ws \<and>
    (\<forall>i. unat i < 128 \<longrightarrow> g_tasks t ! unat i =
       (if i \<in> set ws then (g_tasks s ! unat i)\<lparr>tstate := TASK_READY\<rparr> else g_tasks s ! unat i)) \<and>
    t = s\<lparr>g_tasks := g_tasks t, g_ready_queue := g_ready_queue t, g_ready_tail := g_ready_tail t,
          g_ready_size := g_ready_size t, g_need_resched := g_need_resched t\<rparr>"
proof -
  have n: "unat (0 :: u64) + length (wait_list q) < 2 ^ 64" using wait_bounded [OF assms(2)] by simp
  let ?ws = "wake_order s (wait_list q)"
  from wake_all_spec [OF assms n] obtain n p t where
    r: "wake_all_loop 0 (Some q) s = Some (n, Some p, t)" "sched_wf t" "wait_ok p" "wait_list p = []"
      "unat n = unat (0 :: u64) + length ?ws" "only_wakes ?ws s t" "ready_list t = ready_list s @ ?ws" by blast
  have "sched_wait_queue_wake_all (Some q) s = Some (n, Some p, t)" using r(1) by (simp add: sched_wait_queue_wake_all_def)
  moreover note conjunct1 [OF r(6) [unfolded only_wakes_def]] conjunct2 [OF r(6) [unfolded only_wakes_def]]
  moreover have "unat n = length ?ws" using r(5) by simp
  ultimately show ?thesis using r(2,3,4,7) unfolding wake_order_def by blast
qed

text \<open>Two tasks of a queue that names one of them twice and a task that is not blocked.\<close>

definition two_blocked :: sched where
  "two_blocked = upd_task (TaskSlot 5) (\<lambda>t. t\<lparr>tid := 2, tstate := TASK_BLOCKED\<rparr>)
     (upd_task (TaskSlot 4) (\<lambda>t. t\<lparr>tid := 3, tstate := TASK_BLOCKED\<rparr>) one_running)"

definition full_wait_queue :: wait_queue_t where
  "full_wait_queue = \<lparr>wq_queue = [5, 3, 4, 5] @ replicate 124 0, wq_head = 0, wq_tail = 4, wq_size = 4\<rparr>"

lemma two_blocked_wf: "sched_wf two_blocked" "ready_list two_blocked = []"
proof -
  let ?u = "upd_task (TaskSlot 4) (\<lambda>t. t\<lparr>tid := 3, tstate := TASK_BLOCKED\<rparr>) one_running"
  have len: "length (g_tasks one_running) = 128" "length (g_tasks ?u) = 128"
    using sched_wfD(1) [OF one_running_wf(1)] by (simp_all add: upd_task.simps)
  have "unat (4 :: u16) < 128" "unat (5 :: u16) < 128" by simp_all
  then have ab: "abs_of two_blocked = (abs_of one_running)\<lparr>a_state :=
      (a_state (abs_of one_running))(4 := TASK_BLOCKED, 5 := TASK_BLOCKED)\<rparr>"
    using abs_upd [OF len(1), of 4] abs_upd [OF len(2), of 5] by (simp add: two_blocked_def)
  have "a_ok (abs_of two_blocked)"
    unfolding ab one_running_abs by (auto simp: a_ok_def)
  moreover have "shape_ok two_blocked" "current_ok two_blocked"
    using one_running_wf(1) by (simp_all add: sched_wf_parts two_blocked_def current_ok_def upd_task.simps shape_ok_def ready_ok_def)
  ultimately show "sched_wf two_blocked" by (simp add: sched_wf_parts)
  show "ready_list two_blocked = []" using one_running_wf(2) arg_cong [OF ab, of a_ready] by simp
qed

theorem sched_wake_all_wakes_witness:
  "\<exists>n p t. sched_wait_queue_wake_all (Some full_wait_queue) two_blocked = Some (n, Some p, t) \<and> n = 2 \<and>
     ready_list t = [5, 4] \<and> g_tasks t ! 3 = g_tasks two_blocked ! 3"
proof -
  have q: "wait_ok full_wait_queue" by code_simp
  have f: "firsts (filter (\<lambda>c. unat c < 128 \<and> tstate (g_tasks two_blocked ! unat c) = TASK_BLOCKED) (wait_list full_wait_queue)) = [5, 4]"
    by code_simp
  from sched_wake_all_wakes [OF two_blocked_wf(1) q, unfolded f two_blocked_wf(2)] obtain n p t ws where
    t: "sched_wait_queue_wake_all (Some full_wait_queue) two_blocked = Some (n, Some p, t)" "ws = [5, 4]" "unat n = length ws"
      "ready_list t = [] @ ws" and tasks: "\<forall>i. unat i < 128 \<longrightarrow> g_tasks t ! unat i =
       (if i \<in> set ws then (g_tasks two_blocked ! unat i)\<lparr>tstate := TASK_READY\<rparr> else g_tasks two_blocked ! unat i)" by blast
  have "n = 2" using t(2,3) by (simp add: word_eq_unat)
  then show ?thesis using t spec [OF tasks, of 3] by simp
qed

text \<open>
  C32. \<^verbatim>\<open>sched_create_kernel_task\<close>: a task it returns sits in a slot that was unused and is the last of the
  ready queue; it has the next task id, the current minimum runtime and the entry point and argument
  asked for; its stack is a frame the page allocator took from its free ones, with the exit routine
  and above it the trampoline on top, where its saved stack pointer points.  When it returns NULL (no
  entry point, no slot, no memory) every slot keeps its state.
\<close>

theorem sched_create_task_spec:
  assumes "sched_wf s" "pmm_ok p" "sched_create_kernel_task code nm entry arg (s, p) = (res, t, p')"
  shows "sched_wf t \<and> (case res of
      None \<Rightarrow> ready_list t = ready_list s \<and> (\<forall>i. unat i < 128 \<longrightarrow> st t i = st s i)
    | Some i \<Rightarrow> unat i < 128 \<and> st s i = TASK_UNUSED \<and> ready_list t = ready_list s @ [i] \<and>
        (let k = g_tasks t ! unat i; top = kernel_stack_base k + MM_PAGE_SIZE in
          tid k = g_next_tid s \<and> vruntime k = g_cfs_min_vruntime s \<and> tentry k = entry \<and> targ k = arg \<and>
          kernel_stack_base k \<in> free_frames p \<and> kernel_stack_base k \<in> used_frames p' \<and>
          ctx_rsp (tcontext k) = top - 16 \<and> g_kstack t (top - 16) = addr_sched_task_trampoline code \<and>
          g_kstack t (top - 8) = addr_sched_task_exit code))"
proof (cases res)
  case None
  note c = create_task_step [OF assms(1,3)]
  have a: "abs_of t = abs_of s" using c None by simp
  have "st t i = st s i" if "unat i < 128" for i using arg_cong [OF a, of "\<lambda>a. a_state a i"] that by simp
  moreover have "ready_list t = ready_list s" using arg_cong [OF a, of a_ready] by simp
  ultimately show ?thesis using c None by simp
next
  case (Some i)
  note c = create_task_step [OF assms(1,3)]
  have i: "unat i < 128" "st s i = TASK_UNUSED"
    and a: "abs_of t = (abs_of s)\<lparr>a_state := (a_state (abs_of s))(i := TASK_READY), a_ready := ready_list s @ [i]\<rparr>"
    using c Some by simp_all
  have len: "length (g_tasks s) = 128" by (rule sched_wfD(1) [OF assms(1)])
  obtain page p1 where pa: "pmm_alloc_page p = (page, p1)" by (cases "pmm_alloc_page p")
  have en: "g_tasks u = g_tasks s' \<and> g_kstack u = g_kstack s'" if "sched_enqueue_task x s' = (w, u)" for x s' w u
    using that by (auto simp: sched_enqueue_task_def split: if_splits)
  have r: "page \<noteq> 0" "p' = p1" "sched_alloc_task_slot s = Some i"
    "g_tasks t ! unat i = (sched_reset_task (g_tasks s ! unat i))\<lparr>tid := g_next_tid s, tstate := TASK_READY, tname := nm,
          tprocess := Some i, tentry := entry, targ := arg, vruntime := g_cfs_min_vruntime s,
          kernel_stack_size := MM_PAGE_SIZE, kernel_stack_base := page,
          tcontext := zero_context\<lparr>ctx_rsp := page + MM_PAGE_SIZE - 16\<rparr>\<rparr>"
    "g_kstack t = (g_kstack s)(page + MM_PAGE_SIZE - 8 := addr_sched_task_exit code,
       page + MM_PAGE_SIZE - 16 := addr_sched_task_trampoline code)"
    using assms(3) Some pa i(1) len
    by (auto simp: sched_create_kernel_task_def sched_prepare_task_stack_def create_reserve_def create_publish_def Let_def
        upd_task.simps dest!: en split: if_splits option.splits prod.splits)
  have "page \<in> free_frames p" "page \<in> used_frames p1"
    using pmm_alloc_page_spec [OF assms(2) pa] r(1) by (auto split: if_splits)
  moreover have "ready_list t = ready_list s @ [i]" using arg_cong [OF a, of a_ready] by simp
  ultimately show ?thesis using c Some i r by (simp add: Let_def)
qed

theorem sched_create_task_spec_witness:
  "(let (res, s, p) = sched_create_kernel_task \<lparr>addr_sched_task_exit = 8, addr_sched_task_trampoline = 16\<rparr> None 64 0
      (sched_init sched_bss, pmm_init 0 0x2000 pmm_bss) in res = Some 0 \<and> ready_list s = [0] \<and> kernel_stack_base (g_tasks s ! 0) \<in> used_frames p)"
proof -
  let ?c = "\<lparr>addr_sched_task_exit = 8, addr_sched_task_trampoline = 16\<rparr>"
  let ?i = "sched_init sched_bss" and ?p = "pmm_init 0 0x2000 pmm_bss"
  obtain res s p where r: "sched_create_kernel_task ?c None 64 0 (?i, ?p) = (res, s, p)"
    by (cases "sched_create_kernel_task ?c None 64 0 (?i, ?p)") auto
  have "fst (sched_create_kernel_task ?c None 64 0 (?i, ?p)) = Some 0" by code_simp
  then have e: "res = Some 0" using r by simp
  have rl: "ready_list ?i = []" using arg_cong [OF sched_init_wf(2) [OF bss_lengths], of a_ready] by simp
  show ?thesis
    using sched_create_task_spec [OF sched_init_wf(1) [OF bss_lengths] pmm_init_spec(1) [OF refl] r] e r rl by (simp add: Let_def)
qed

text \<open>
  C33. A wait queue behaves as a bounded first-in first-out queue of 128 entries: every sequence of
  its enqueue and dequeue operations gives the results of the same sequence on a list, across the
  wrap-around of its indices.
\<close>

theorem sched_waitq_fifo:
  assumes "wait_ok q"
  shows "fifo_run wait_enq sched_waitq_dequeue q ops = fifo_spec_run 128 (wait_list q) ops"
  using assms by (rule waitq.run_refines)

theorem sched_waitq_fifo_witness:
  "fifo_run wait_enq sched_waitq_dequeue empty_wait_queue [Enq 5, Enq 6, Deq, Deq, Deq]
     = [Accepted, Accepted, Got 5, Got 6, Empty]"
  unfolding sched_waitq_fifo [OF empty_wait_ok(1)] by (simp add: empty_wait_ok)

end
