(* ===== verification/Workqueue.thy ===== *)
theory Workqueue
  imports Sched_Props
begin

text \<open>
  Deferred work, kernel/sched/workqueue.c: a ring of 128 function calls, a wait queue for idle
  workers, and counters.  A function pointer is its address, 0 for NULL.

  \<^verbatim>\<open>workqueue_execute_one\<close> loops until it has run an item; one pass over its body is one step, which
  returns, or runs an item, or goes round again after waiting.  The queue's lock is released
  between taking an item and waiting, so other tasks may run in between: a pass is split there.
\<close>

section \<open>Data and operations\<close>

definition WORKQUEUE_CAPACITY :: u32 where "WORKQUEUE_CAPACITY = 128"

record work_item_t =
  wi_func :: u64
  wi_arg :: u64

record work_queue_t =
  wk_name :: "string option"
  wk_items :: "work_item_t list"
  wk_head :: u16
  wk_tail :: u16
  wk_size :: u16
  wk_submitted :: u64
  wk_completed :: u64
  wk_waiters :: wait_queue_t

definition workqueue_pop_locked :: "work_queue_t \<Rightarrow> (work_item_t \<times> work_queue_t) option" where
  "workqueue_pop_locked q =
     (if wk_size q = 0 then None
      else Some (wk_items q ! unat (wk_head q),
                 q\<lparr>wk_head := ring_next (wk_head q) WORKQUEUE_CAPACITY, wk_size := wk_size q - 1\<rparr>))"

definition workqueue_init :: "work_queue_t option \<Rightarrow> string option \<Rightarrow> work_queue_t option" where
  "workqueue_init queue nm =
     map_option (\<lambda>q. q\<lparr>wk_name := nm, wk_head := 0, wk_tail := 0, wk_size := 0, wk_submitted := 0, wk_completed := 0,
       wk_waiters := the (sched_wait_queue_init (Some (wk_waiters q)))\<rparr>) queue"

text \<open>The part of \<^verbatim>\<open>workqueue_submit\<close> under the queue's lock.\<close>

definition submit_locked :: "u64 \<Rightarrow> u64 \<Rightarrow> work_queue_t \<Rightarrow> int \<times> work_queue_t" where
  "submit_locked func arg q =
     (if ucast (wk_size q) < WORKQUEUE_CAPACITY then
        (1, q\<lparr>wk_items := (wk_items q)[unat (wk_tail q) := \<lparr>wi_func = func, wi_arg = arg\<rparr>],
              wk_tail := ring_next (wk_tail q) WORKQUEUE_CAPACITY,
              wk_size := wk_size q + 1, wk_submitted := wk_submitted q + 1\<rparr>)
      else (0, q))"

definition workqueue_submit ::
  "work_queue_t option \<Rightarrow> u64 \<Rightarrow> u64 \<Rightarrow> sched \<Rightarrow> int \<times> work_queue_t option \<times> sched" where
  "workqueue_submit queue func arg s =
     (case queue of
        None \<Rightarrow> (0, None, s)
      | Some q \<Rightarrow>
          if func = 0 then (0, Some q, s)
          else
            let (submitted, q1) = submit_locked func arg q in
            if submitted \<noteq> 0 then
              let (_, waiters, s1) = sched_wait_queue_wake_one (Some (wk_waiters q1)) s
              in (submitted, Some (q1\<lparr>wk_waiters := the waiters\<rparr>), s1)
            else (submitted, Some q1, s))"

text \<open>What one pass of \<^verbatim>\<open>workqueue_execute_one\<close> decides after looking at the queue.\<close>

datatype exec_outcome = ExecReturn int | ExecRun work_item_t | ExecWait

definition execute_take :: "work_queue_t \<Rightarrow> int \<Rightarrow> exec_outcome \<times> work_queue_t" where
  "execute_take q block_if_empty =
     (case workqueue_pop_locked q of
        None \<Rightarrow> (if block_if_empty = 0 then ExecReturn 0 else ExecWait, q)
      | Some (item, q1) \<Rightarrow> (ExecRun item, q1))"

text \<open>The wait before the next pass: the task blocks, or yields where it cannot block.\<close>

definition execute_wait :: "work_queue_t \<Rightarrow> sched \<Rightarrow> work_queue_t \<times> sched" where
  "execute_wait q s =
     (let (r, waiters, s1) = sched_wait_queue_wait (Some (wk_waiters q)) s;
          q1 = q\<lparr>wk_waiters := the waiters\<rparr>
      in if r = 0 then (q1, sched_yield s1) else (q1, s1))"

definition execute_done :: "work_queue_t \<Rightarrow> int \<times> work_queue_t" where
  "execute_done q = (1, q\<lparr>wk_completed := wk_completed q + 1\<rparr>)"

text \<open>
  The call as a whole when no other task interferes: \<open>run\<close> is the effect of the item's function on
  the queue and the scheduler.  A pass that has to wait ends the modelled part: what follows depends
  on the tasks that run meanwhile.
\<close>

definition workqueue_execute_one ::
  "(work_item_t \<Rightarrow> work_queue_t \<times> sched \<Rightarrow> work_queue_t \<times> sched) \<Rightarrow> work_queue_t option \<Rightarrow> int \<Rightarrow> sched \<Rightarrow>
     int option \<times> work_queue_t option \<times> sched" where
  "workqueue_execute_one run queue block_if_empty s =
     (case queue of
        None \<Rightarrow> (Some 0, None, s)
      | Some q \<Rightarrow>
          (case execute_take q block_if_empty of
             (ExecReturn v, q1) \<Rightarrow> (Some v, Some q1, s)
           | (ExecWait, q1) \<Rightarrow> (let (q2, s1) = execute_wait q1 s in (None, Some q2, s1))
           | (ExecRun item, q1) \<Rightarrow>
               let (q2, s1) = run item (q1, s); (v, q3) = execute_done q2 in (Some v, Some q3, s1)))"

definition workqueue_pending :: "work_queue_t option \<Rightarrow> u64" where
  "workqueue_pending queue = (case queue of None \<Rightarrow> 0 | Some q \<Rightarrow> ucast (wk_size q))"

definition workqueue_submitted :: "work_queue_t option \<Rightarrow> u64" where
  "workqueue_submitted queue = (case queue of None \<Rightarrow> 0 | Some q \<Rightarrow> wk_submitted q)"

definition workqueue_completed :: "work_queue_t option \<Rightarrow> u64" where
  "workqueue_completed queue = (case queue of None \<Rightarrow> 0 | Some q \<Rightarrow> wk_completed q)"

section \<open>The queue of items\<close>

definition work_list :: "work_queue_t \<Rightarrow> work_item_t list" where
  "work_list q = ring_list (wk_items q) (unat (wk_head q)) (unat (wk_size q))"

definition work_ok :: "work_queue_t \<Rightarrow> bool" where
  "work_ok q \<longleftrightarrow> length (wk_items q) = 128 \<and>
     ring_ok (wk_items q) (unat (wk_head q)) (unat (wk_tail q)) (unat (wk_size q))"

definition work_enq :: "work_item_t \<Rightarrow> work_queue_t \<Rightarrow> work_queue_t option" where
  "work_enq x q = (case submit_locked (wi_func x) (wi_arg x) q of (r, q') \<Rightarrow> if r = 0 then None else Some q')"

lemma work_cap [simp]: "unat WORKQUEUE_CAPACITY = 128"
  by (simp add: WORKQUEUE_CAPACITY_def)

lemma submit_full: "128 \<le> length (work_list q) \<Longrightarrow> submit_locked f a q = (0, q)"
  by (simp add: submit_locked_def work_list_def word_less_unat unat_ucast_up)

lemma submit_room:
  assumes ok: "work_ok q" and n: "length (work_list q) < 128"
  shows "\<exists>q'. submit_locked f a q = (1, q') \<and> work_ok q' \<and> work_list q' = work_list q @ [\<lparr>wi_func = f, wi_arg = a\<rparr>] \<and>
    wk_submitted q' = wk_submitted q + 1 \<and> wk_completed q' = wk_completed q \<and> wk_waiters q' = wk_waiters q"
proof -
  have c: "ucast (wk_size q) < WORKQUEUE_CAPACITY" using n by (simp add: work_list_def word_less_unat unat_ucast_up)
  note e = ring_enq_words(1,2) [of "wk_items q" "wk_head q" "wk_tail q" "wk_size q" WORKQUEUE_CAPACITY "\<lparr>wi_func = f, wi_arg = a\<rparr>"]
  show ?thesis using e ok n c by (simp add: submit_locked_def work_ok_def work_list_def)
qed

lemma work_bounded: "work_ok q \<Longrightarrow> length (work_list q) \<le> 128"
  by (simp add: work_ok_def ring_ok_def work_list_def)

lemma pop_empty: "work_list q = [] \<Longrightarrow> workqueue_pop_locked q = None"
  by (simp add: work_list_def workqueue_pop_locked_def unat_eq_0)

lemma pop_some:
  assumes ok: "work_ok q" and n: "work_list q = x # xs"
  shows "\<exists>q'. workqueue_pop_locked q = Some (x, q') \<and> work_ok q' \<and> work_list q' = xs \<and>
    wk_submitted q' = wk_submitted q \<and> wk_completed q' = wk_completed q \<and> wk_waiters q' = wk_waiters q"
proof -
  have z: "wk_size q \<noteq> 0" using n by (auto simp: work_list_def)
  note d = ring_deq_words(1,2) [of "wk_items q" "wk_head q" "wk_tail q" "wk_size q" WORKQUEUE_CAPACITY]
  let ?t = "q\<lparr>wk_head := ring_next (wk_head q) WORKQUEUE_CAPACITY, wk_size := wk_size q - 1\<rparr>"
  have "work_list q = wk_items q ! unat (wk_head q) # work_list ?t" using d(2) ok z by (simp add: work_ok_def work_list_def)
  with n have "x = wk_items q ! unat (wk_head q)" "work_list ?t = xs" by simp_all
  moreover have "work_ok ?t" using d(1) ok z by (simp add: work_ok_def)
  ultimately show ?thesis using z by (simp add: workqueue_pop_locked_def)
qed

interpretation workq: bounded_fifo work_ok work_list work_enq workqueue_pop_locked 128
proof unfold_locales
  fix q t x
  assume ok: "work_ok q"
  have n: "length (work_list q) < 128 \<or> length (work_list q) = 128" using work_bounded [OF ok] by linarith
  show "length (work_list q) \<le> 128" using ok by (rule work_bounded)
  show "(work_enq x q = None) = (length (work_list q) = 128)"
    using n submit_full [of q] submit_room [OF ok, of "wi_func x" "wi_arg x"] by (auto simp: work_enq_def)
  show "work_enq x q = Some t \<Longrightarrow> work_ok t \<and> work_list t = work_list q @ [x]"
    using n submit_full [of q] submit_room [OF ok, of "wi_func x" "wi_arg x"] by (auto simp: work_enq_def)
  show "(workqueue_pop_locked q = None) = (work_list q = [])"
    using pop_empty [of q] pop_some [OF ok] by (cases "work_list q") auto
  show "workqueue_pop_locked q = Some (x, t) \<Longrightarrow> work_ok t \<and> work_list q = x # work_list t"
    using pop_empty [of q] pop_some [OF ok] by (cases "work_list q") auto
qed

section \<open>Submitters and workers together\<close>

text \<open>
  The queue shared by any number of submitters and workers: the items taken and not yet completed
  are the third component, the items ever taken the fourth.
\<close>

type_synonym work_sys = "work_queue_t \<times> sched \<times> work_item_t list \<times> work_item_t list"

inductive work_step :: "work_sys \<Rightarrow> work_sys \<Rightarrow> bool" where
  w_submit: "workqueue_submit (Some q) f a s = (v, Some q', s') \<Longrightarrow> work_step (q, s, fl, hist) (q', s', fl, hist)"
| w_take: "execute_take q block = (ExecRun item, q') \<Longrightarrow> work_step (q, s, fl, hist) (q', s, item # fl, hist @ [item])"
| w_idle: "execute_take q block = (out, q') \<Longrightarrow> out \<in> {ExecReturn 0, ExecWait} \<Longrightarrow> work_step (q, s, fl, hist) (q', s, fl, hist)"
| w_wait: "execute_wait q s = (q', s') \<Longrightarrow> work_step (q, s, fl, hist) (q', s', fl, hist)"
| w_done: "execute_done q = (1, q') \<Longrightarrow> item \<in> set fl \<Longrightarrow> work_step (q, s, fl, hist) (q', s, remove1 item fl, hist)"

text \<open>Every item submitted is pending, taken or completed, and counted once.\<close>

definition work_inv :: "work_sys \<Rightarrow> bool" where
  "work_inv = (\<lambda>(q, s, fl, hist). work_ok q \<and>
     wk_submitted q = wk_completed q + of_nat (length fl) + of_nat (length (work_list q)) \<and>
     of_nat (length hist) = wk_completed q + of_nat (length fl))"

lemma wait_keeps_items:
  assumes "execute_wait q s = (q', s')"
  shows "work_list q' = work_list q" "work_ok q' = work_ok q" "wk_submitted q' = wk_submitted q" "wk_completed q' = wk_completed q"
proof -
  obtain r w u where e: "sched_wait_queue_wait (Some (wk_waiters q)) s = (r, w, u)"
    by (cases "sched_wait_queue_wait (Some (wk_waiters q)) s") auto
  have "q' = q\<lparr>wk_waiters := the w\<rparr>" using assms e by (auto simp: execute_wait_def Let_def split: if_splits)
  then show "work_list q' = work_list q" "work_ok q' = work_ok q" "wk_submitted q' = wk_submitted q" "wk_completed q' = wk_completed q"
    by (simp_all add: work_list_def work_ok_def)
qed

lemma submit_items:
  assumes ok: "work_ok q" and r: "workqueue_submit (Some q) f a s = (v, q', s')"
  shows "if f = 0 \<or> length (work_list q) = 128 then v = 0 \<and> q' = Some q \<and> s' = s
    else v = 1 \<and> (\<exists>p. q' = Some p \<and> work_ok p \<and> work_list p = work_list q @ [\<lparr>wi_func = f, wi_arg = a\<rparr>] \<and>
      wk_submitted p = wk_submitted q + 1 \<and> wk_completed p = wk_completed q \<and>
      (\<exists>e wq. sched_wait_queue_wake_one (Some (wk_waiters q)) s = (e, wq, s') \<and> wk_waiters p = the wq))"
proof (cases "f = 0 \<or> length (work_list q) = 128")
  case True
  then show ?thesis using r submit_full [of q f a] by (auto simp: workqueue_submit_def split: if_splits)
next
  case False
  then have n: "length (work_list q) < 128" using work_bounded [OF ok] by simp
  from submit_room [OF ok n, of f a] obtain q1 where q1: "submit_locked f a q = (1, q1)" "work_ok q1"
    "work_list q1 = work_list q @ [\<lparr>wi_func = f, wi_arg = a\<rparr>]" "wk_submitted q1 = wk_submitted q + 1"
    "wk_completed q1 = wk_completed q" "wk_waiters q1 = wk_waiters q" by blast
  obtain e wq u where w: "sched_wait_queue_wake_one (Some (wk_waiters q)) s = (e, wq, u)"
    by (cases "sched_wait_queue_wake_one (Some (wk_waiters q)) s") auto
  have "v = 1" "q' = Some (q1\<lparr>wk_waiters := the wq\<rparr>)" "s' = u"
    using r q1(1,6) w False by (simp_all add: workqueue_submit_def)
  then show ?thesis using False q1 w by (simp add: work_ok_def work_list_def)
qed

lemma work_step_inv:
  assumes "work_step a b" "work_inv a"
  shows "work_inv b"
  using assms
proof cases
  case (w_submit q f x s v q' s' fl hist)
  then show ?thesis using assms(2) submit_items [OF _ w_submit(3)]
    by (auto simp: work_inv_def algebra_simps split: if_splits)
next
  case (w_take q block item q' s fl hist)
  have ok: "work_ok q" using assms(2) w_take(1) by (simp add: work_inv_def)
  obtain i where "workqueue_pop_locked q = Some (item, q')"
    using w_take(3) by (auto simp: execute_take_def split: option.splits if_splits)
  then obtain xs where "work_list q = item # xs" "work_ok q'" "work_list q' = xs"
    "wk_submitted q' = wk_submitted q" "wk_completed q' = wk_completed q"
    using pop_empty [of q] pop_some [OF ok] by (cases "work_list q") auto
  then show ?thesis using w_take(1,2) assms(2) by (auto simp: work_inv_def algebra_simps)
next
  case (w_idle q block out q' s fl hist)
  then show ?thesis using assms(2) by (auto simp: execute_take_def split: option.splits if_splits)
next
  case (w_wait q s q' s' fl hist)
  then show ?thesis using assms(2) wait_keeps_items [OF w_wait(3)] by (simp add: work_inv_def)
next
  case (w_done q q' item fl s hist)
  then have q': "q' = q\<lparr>wk_completed := wk_completed q + 1\<rparr>" by (simp add: execute_done_def)
  obtain n where "length fl = Suc n" using w_done(4) by (metis Suc_length_conv length_pos_if_in_set not0_implies_Suc not_less_zero)
  then show ?thesis using w_done assms(2) q'
    by (auto simp: work_inv_def work_ok_def work_list_def length_remove1 algebra_simps)
qed

lemma work_steps_inv: "work_step\<^sup>*\<^sup>* a b \<Longrightarrow> work_inv a \<Longrightarrow> work_inv b"
  by (induction rule: rtranclp_induct) (auto intro: work_step_inv)

section \<open>Properties\<close>

definition empty_work_queue :: work_queue_t where
  "empty_work_queue = \<lparr>wk_name = None, wk_items = replicate 128 \<lparr>wi_func = 0, wi_arg = 0\<rparr>, wk_head = 0, wk_tail = 0,
     wk_size = 0, wk_submitted = 0, wk_completed = 0, wk_waiters = empty_wait_queue\<rparr>"

lemma empty_work_ok: "work_ok empty_work_queue" "work_list empty_work_queue = []"
  by (simp_all add: work_ok_def ring_ok_def work_list_def empty_work_queue_def)

text \<open>
  C34. Work items run in the order they were submitted: every sequence of submissions and removals
  gives the results of a bounded list of 128 items.
\<close>

theorem workqueue_fifo:
  assumes "work_ok q"
  shows "fifo_run work_enq workqueue_pop_locked q ops = fifo_spec_run 128 (work_list q) ops"
  using assms by (rule workq.run_refines)

theorem workqueue_fifo_witness:
  "fifo_run work_enq workqueue_pop_locked empty_work_queue [Enq \<lparr>wi_func = 8, wi_arg = 1\<rparr>, Deq, Deq] =
     [Accepted, Got \<lparr>wi_func = 8, wi_arg = 1\<rparr>, Empty]"
  unfolding workqueue_fifo [OF empty_work_ok(1)] by (simp add: empty_work_ok)

text \<open>
  C35. Accounting: from a freshly initialised queue, whatever submitters and workers do, the items
  submitted are those completed, those taken and still running, and those pending.
\<close>

theorem workqueue_accounting:
  assumes "length (wk_items b) = 128" "workqueue_init (Some b) nm = Some q0" "work_step\<^sup>*\<^sup>* (q0, s0, [], []) (q, s, fl, hist)"
  shows "workqueue_submitted (Some q) = workqueue_completed (Some q) + of_nat (length fl) + workqueue_pending (Some q)"
proof -
  have "work_inv (q0, s0, [], [])"
    using assms(1,2) by (auto simp: workqueue_init_def work_inv_def work_ok_def ring_ok_def work_list_def)
  from work_steps_inv [OF assms(3) this] show ?thesis
    by (simp add: work_inv_def workqueue_submitted_def workqueue_completed_def workqueue_pending_def work_list_def)
qed

theorem workqueue_accounting_witness:
  "\<exists>q. workqueue_submit (Some empty_work_queue) 8 1 one_running = (1, Some q, one_running) \<and> workqueue_submitted (Some q) = workqueue_pending (Some q)"
proof -
  have i: "workqueue_init (Some empty_work_queue) None = Some empty_work_queue"
    by (simp add: workqueue_init_def sched_wait_queue_init_def empty_work_queue_def empty_wait_queue_def)
  obtain v q' s' where r: "workqueue_submit (Some empty_work_queue) 8 1 one_running = (v, q', s')"
    by (cases "workqueue_submit (Some empty_work_queue) 8 1 one_running") auto
  from submit_items [OF empty_work_ok(1) r] obtain q e wq where q: "v = 1" "q' = Some q"
    "sched_wait_queue_wake_one (Some empty_wait_queue) one_running = (e, wq, s')"
    by (auto simp: empty_work_ok) (simp add: empty_work_queue_def)
  have s': "s' = one_running"
    using wake_one_spec [OF one_running_wf(1) empty_wait_ok(1), of e wq s'] q(3)
    by (auto simp: sched_wait_queue_wake_one_def empty_wait_ok)
  have "length (wk_items empty_work_queue) = 128" by (simp add: empty_work_queue_def)
  moreover have "work_step\<^sup>*\<^sup>* (empty_work_queue, one_running, [], []) (q, s', [], [])"
    by (rule r_into_rtranclp, rule w_submit) (use r q in simp)
  ultimately have "workqueue_submitted (Some q) = workqueue_completed (Some q) + of_nat (length ([] :: work_item_t list)) + workqueue_pending (Some q)"
    using workqueue_accounting [OF _ i] by blast
  moreover have "workqueue_completed (Some q) = 0"
    using submit_items [OF empty_work_ok(1) r] q(2) by (auto simp: empty_work_ok workqueue_completed_def) (simp add: empty_work_queue_def)
  ultimately show ?thesis using r q s' by simp
qed

text \<open>
  C36. The queue is unlocked between a worker finding it empty and the worker joining the wait
  queue.  An item submitted in that gap wakes nobody, and the worker then blocks: the item stays
  pending with its only worker asleep.
\<close>

theorem workqueue_lost_wakeup:
  assumes "sched_wf s" "g_current_task s = Some (TaskSlot i)" "work_ok q" "work_list q = []"
    "wait_ok (wk_waiters q)" "wait_list (wk_waiters q) = []" "f \<noteq> 0"
    "workqueue_submit (Some q) f a s = (v, Some q1, s1)" "execute_wait q1 s1 = (q2, s2)"
  shows "execute_take q 1 = (ExecWait, q) \<and> v = 1 \<and> work_list q2 = [\<lparr>wi_func = f, wi_arg = a\<rparr>] \<and>
    st s2 i = TASK_BLOCKED \<and> g_current_task s2 = Some Bootstrap \<and> wait_list (wk_waiters q2) = [i]"
proof -
  have t: "execute_take q 1 = (ExecWait, q)" using pop_empty [OF assms(4)] by (simp add: execute_take_def)
  from submit_items [OF assms(3,8)] assms(4,7) obtain e wq where q1: "v = 1"
    "work_list q1 = [\<lparr>wi_func = f, wi_arg = a\<rparr>]"
    "sched_wait_queue_wake_one (Some (wk_waiters q)) s = (e, wq, s1)" "wk_waiters q1 = the wq" by auto
  have w: "s1 = s" "wait_ok (wk_waiters q1)" "wait_list (wk_waiters q1) = []"
    using wake_one_spec [OF assms(1,5), of e wq s1] q1(3,4) assms(6) by (auto simp: sched_wait_queue_wake_one_def)
  obtain r wq' u where wt: "sched_wait_queue_wait (Some (wk_waiters q1)) s = (r, wq', u)"
    by (cases "sched_wait_queue_wait (Some (wk_waiters q1)) s") auto
  have ci: "g_current_index s = i" using wf_current [OF assms(1,2)] by simp
  from wait_queue_wait_step [OF assms(1) w(2) wt] assms(2) w(3) ci obtain p where p: "r = 1" "sched_wf u"
    "st u i = TASK_BLOCKED" "wq' = Some p" "wait_list p = [i]" by auto
  have "running_task s = Some (TaskSlot i)" using running_task_wf [OF assms(1)] assms(2) by simp
  then have cu: "g_current_task u = Some Bootstrap"
    using wt p(1) by (auto simp: sched_wait_queue_wait_def to_bootstrap_tasks split: prod.splits if_splits)
  have "q2 = q1\<lparr>wk_waiters := p\<rparr>" "s2 = u" using assms(9) w(1) wt p(1,4) by (simp_all add: execute_wait_def)
  then show ?thesis using t q1(1,2) p(3,5) cu by (simp add: work_list_def)
qed

theorem workqueue_lost_wakeup_witness:
  "\<exists>q1 s1. workqueue_submit (Some empty_work_queue) 8 1 one_running = (1, Some q1, s1) \<and>
     st (snd (execute_wait q1 s1)) 3 = TASK_BLOCKED \<and> work_list (fst (execute_wait q1 s1)) \<noteq> []"
proof -
  obtain v q' s1 where r: "workqueue_submit (Some empty_work_queue) 8 1 one_running = (v, q', s1)"
    by (cases "workqueue_submit (Some empty_work_queue) 8 1 one_running") auto
  from submit_items [OF empty_work_ok(1) r] obtain q1 where q1: "v = 1" "q' = Some q1" by (auto simp: empty_work_ok)
  have w: "wait_ok (wk_waiters empty_work_queue)" "wait_list (wk_waiters empty_work_queue) = []"
    using empty_wait_ok by (simp_all add: empty_work_queue_def)
  obtain q2 s2 where e: "execute_wait q1 s1 = (q2, s2)" by (cases "execute_wait q1 s1")
  have f: "(8 :: u64) \<noteq> 0" by simp
  show ?thesis
    using workqueue_lost_wakeup [OF one_running_wf(1) one_running_current empty_work_ok w f, of 1 v q1 s1 q2 s2] r q1 e by simp
qed

end
