(* ===== verification/Rcu.thy ===== *)
theory Rcu
  imports Prelude
begin

text \<open>
  Read-copy-update, kernel/lib/rcu.c: a count of readers and a linked list of callbacks.  A callback
  head is its address, with 0 for NULL; \<open>rcu_next\<close> and \<open>rcu_func\<close> are the fields of the heads in
  memory.

  \<^verbatim>\<open>rcu_process_callbacks\<close> takes the first callback under the lock, waits in \<^verbatim>\<open>synchronize_rcu\<close> until it
  has seen no reader, and then runs it; readers and other callers run between these three, so they
  are three operations here, and the system below interleaves them with everything else.
\<close>

section \<open>Operations\<close>

record rcu =
  g_rcu_readers :: u64
  g_callbacks_head :: u64
  g_callbacks_tail :: u64
  rcu_next :: "u64 \<Rightarrow> u64"
  rcu_func :: "u64 \<Rightarrow> u64"
  g_callbacks_queued_count :: u64
  g_callbacks_completed_count :: u64

definition rcu_init :: "rcu \<Rightarrow> rcu" where
  "rcu_init s = s\<lparr>g_rcu_readers := 0, g_callbacks_head := 0, g_callbacks_tail := 0,
     g_callbacks_queued_count := 0, g_callbacks_completed_count := 0\<rparr>"

definition rcu_read_lock :: "rcu \<Rightarrow> rcu" where
  "rcu_read_lock s = s\<lparr>g_rcu_readers := g_rcu_readers s + 1\<rparr>"

definition rcu_read_unlock :: "rcu \<Rightarrow> rcu" where
  "rcu_read_unlock s =
     (let readers = g_rcu_readers s in
      if readers = 0 then s else s\<lparr>g_rcu_readers := g_rcu_readers s - 1\<rparr>)"

text \<open>One test of the loop in \<^verbatim>\<open>synchronize_rcu\<close>: whether it ends.\<close>

definition synchronize_rcu :: "rcu \<Rightarrow> bool" where
  "synchronize_rcu s \<longleftrightarrow> g_rcu_readers s = 0"

definition call_rcu :: "u64 \<Rightarrow> u64 \<Rightarrow> rcu \<Rightarrow> rcu" where
  "call_rcu head func s =
     (if head = 0 \<or> func = 0 then s
      else
        let s1 = s\<lparr>rcu_func := (rcu_func s)(head := func), rcu_next := (rcu_next s)(head := 0)\<rparr>;
            s2 = (if g_callbacks_head s1 = 0 then s1\<lparr>g_callbacks_head := head, g_callbacks_tail := head\<rparr>
                  else s1\<lparr>rcu_next := (rcu_next s1)(g_callbacks_tail s1 := head), g_callbacks_tail := head\<rparr>)
        in s2\<lparr>g_callbacks_queued_count := g_callbacks_queued_count s2 + 1\<rparr>)"

text \<open>The locked section that takes the first callback.\<close>

definition take_callback :: "rcu \<Rightarrow> u64 \<times> rcu" where
  "take_callback s =
     (if g_callbacks_head s = 0 then (0, s)
      else
        let callback = g_callbacks_head s;
            s1 = s\<lparr>g_callbacks_head := rcu_next s callback\<rparr>;
            s2 = (if g_callbacks_head s1 = 0 then s1\<lparr>g_callbacks_tail := 0\<rparr> else s1)
        in (callback, s2\<lparr>rcu_next := (rcu_next s2)(callback := 0)\<rparr>))"

text \<open>After the callback's function has returned.\<close>

definition callback_done :: "rcu \<Rightarrow> rcu" where
  "callback_done s = s\<lparr>g_callbacks_completed_count := g_callbacks_completed_count s + 1\<rparr>"

text \<open>
  \<^verbatim>\<open>rcu_process_callbacks\<close> run without interference: \<open>run\<close> is the effect of calling a function on a
  head.  It returns 0 when there is nothing to do; \<open>None\<close> where it would wait.
\<close>

definition rcu_process_callbacks :: "(u64 \<Rightarrow> u64 \<Rightarrow> rcu \<Rightarrow> rcu) \<Rightarrow> int \<Rightarrow> rcu \<Rightarrow> (int \<times> rcu) option" where
  "rcu_process_callbacks run block_if_empty s =
     (let (callback, s1) = take_callback s in
      if callback = 0 then (if block_if_empty = 0 then Some (0, s1) else None)
      else if synchronize_rcu s1
      then Some (1, callback_done (run (rcu_func s1 callback) callback s1))
      else None)"

definition rcu_reader_count :: "rcu \<Rightarrow> u64" where
  "rcu_reader_count s = g_rcu_readers s"

definition rcu_callbacks_queued :: "rcu \<Rightarrow> u64" where
  "rcu_callbacks_queued s = g_callbacks_queued_count s"

definition rcu_callbacks_completed :: "rcu \<Rightarrow> u64" where
  "rcu_callbacks_completed s = g_callbacks_completed_count s"

section \<open>The callback list\<close>

fun cb_path :: "(u64 \<Rightarrow> u64) \<Rightarrow> u64 \<Rightarrow> u64 list \<Rightarrow> bool" where
  "cb_path nx h [] \<longleftrightarrow> h = 0"
| "cb_path nx h (x # xs) \<longleftrightarrow> h = x \<and> x \<noteq> 0 \<and> cb_path nx (nx x) xs"

definition rcu_queue :: "rcu \<Rightarrow> u64 list \<Rightarrow> bool" where
  "rcu_queue s xs \<longleftrightarrow> cb_path (rcu_next s) (g_callbacks_head s) xs \<and> distinct xs \<and>
     g_callbacks_tail s = (if xs = [] then 0 else last xs)"

lemma cb_path_cong: "(\<And>x. x \<in> set xs \<Longrightarrow> nx' x = nx x) \<Longrightarrow> cb_path nx' h xs = cb_path nx h xs"
  by (induction xs arbitrary: h) auto

lemma cb_path_upd [simp]: "y \<notin> set xs \<Longrightarrow> cb_path (nx(y := v)) h xs = cb_path nx h xs"
  by (rule cb_path_cong) auto

lemma cb_path_nonzero: "cb_path nx h xs \<Longrightarrow> 0 \<notin> set xs"
  by (induction xs arbitrary: h) auto

lemma cb_path_append:
  assumes "cb_path nx h xs" "xs \<noteq> []" "distinct xs" "y \<notin> set xs" "y \<noteq> 0" "nx y = 0"
  shows "cb_path (nx(last xs := y)) h (xs @ [y])"
  using assms
proof (induction xs arbitrary: h)
  case (Cons x xs)
  show ?case
  proof (cases "xs = []")
    case True
    then show ?thesis using Cons.prems by simp
  next
    case False
    have "last xs \<noteq> x" using False Cons.prems(3) last_in_set [OF False] by auto
    then show ?thesis using Cons.IH [of "nx x"] Cons.prems False by auto
  qed
qed simp

lemma call_rcu_queue:
  assumes q: "rcu_queue s xs" and h: "h \<noteq> 0" "f \<noteq> 0" "h \<notin> set xs"
  shows "rcu_queue (call_rcu h f s) (xs @ [h])"
proof -
  let ?nx = "(rcu_next s)(h := 0)"
  have p: "cb_path ?nx (g_callbacks_head s) xs"
    using q h(3) by (simp add: rcu_queue_def)
  show ?thesis
  proof (cases "xs = []")
    case True
    then show ?thesis using q h by (simp add: rcu_queue_def call_rcu_def Let_def)
  next
    case False
    then have "g_callbacks_head s \<noteq> 0" using p by (cases xs) auto
    moreover have "cb_path (?nx(last xs := h)) (g_callbacks_head s) (xs @ [h])"
      using cb_path_append [OF p False _ h(3,1)] q by (simp add: rcu_queue_def)
    ultimately show ?thesis using q h False by (simp add: rcu_queue_def call_rcu_def Let_def)
  qed
qed

lemma take_callback_queue:
  assumes "rcu_queue s (x # xs)" "take_callback s = (c, t)"
  shows "c = x" "rcu_queue t xs" "g_rcu_readers t = g_rcu_readers s" "rcu_func t = rcu_func s"
proof -
  have p: "g_callbacks_head s = x" "x \<noteq> 0" "cb_path (rcu_next s) (rcu_next s x) xs" "x \<notin> set xs" "distinct xs"
    "g_callbacks_tail s = last (x # xs)"
    using assms(1) by (auto simp: rcu_queue_def)
  have z: "rcu_next s x = 0 \<longleftrightarrow> xs = []" using p(3) by (cases xs) auto
  show "c = x" "g_rcu_readers t = g_rcu_readers s" "rcu_func t = rcu_func s"
    using assms(2) p(1,2) by (auto simp: take_callback_def Let_def split: if_splits)
  have "cb_path ((rcu_next s)(x := 0)) (rcu_next s x) xs"
    using p(3,4) by simp
  then show "rcu_queue t xs"
    using assms(2) p z by (auto simp: take_callback_def Let_def rcu_queue_def split: if_splits)
qed

lemma take_callback_empty: "rcu_queue s [] \<Longrightarrow> take_callback s = (0, s)"
  by (simp add: rcu_queue_def take_callback_def)

section \<open>Readers, callers and the callback task\<close>

datatype cb_phase = CbIdle | CbWaiting u64 | CbReady u64

text \<open>
  \<open>active\<close>: the readers inside a read-side section.  \<open>old c\<close>: those of them that were inside when
  callback \<open>c\<close> was last handed to \<^verbatim>\<open>call_rcu\<close> and have not left since.  \<open>queue\<close>: the callbacks waiting.
\<close>

record rcu_sys =
  rcus :: rcu
  active :: "nat set"
  old :: "u64 \<Rightarrow> nat set"
  queue :: "u64 list"
  phase :: cb_phase

inductive rcu_step :: "rcu_sys \<Rightarrow> rcu_sys \<Rightarrow> bool" where
  r_lock: "i \<notin> active y \<Longrightarrow> card (active y) < 2 ^ 64 - 1 \<Longrightarrow>
     rcu_step y (y\<lparr>rcus := rcu_read_lock (rcus y), active := insert i (active y)\<rparr>)"
| r_unlock: "i \<in> active y \<Longrightarrow>
     rcu_step y (y\<lparr>rcus := rcu_read_unlock (rcus y), active := active y - {i}, old := (\<lambda>c. old y c - {i})\<rparr>)"
| r_call: "h \<noteq> 0 \<Longrightarrow> f \<noteq> 0 \<Longrightarrow> h \<notin> set (queue y) \<Longrightarrow> phase y \<notin> {CbWaiting h, CbReady h} \<Longrightarrow>
     rcu_step y (y\<lparr>rcus := call_rcu h f (rcus y), old := (old y)(h := active y), queue := queue y @ [h]\<rparr>)"
| r_take: "phase y = CbIdle \<Longrightarrow> take_callback (rcus y) = (c, t) \<Longrightarrow> c \<noteq> 0 \<Longrightarrow>
     rcu_step y (y\<lparr>rcus := t, queue := tl (queue y), phase := CbWaiting c\<rparr>)"
| r_sync: "phase y = CbWaiting c \<Longrightarrow> synchronize_rcu (rcus y) \<Longrightarrow> rcu_step y (y\<lparr>phase := CbReady c\<rparr>)"
| r_run: "phase y = CbReady c \<Longrightarrow> rcu_step y (y\<lparr>rcus := callback_done (rcus y), phase := CbIdle\<rparr>)"

definition rcu_start :: "rcu \<Rightarrow> rcu_sys" where
  "rcu_start s = \<lparr>rcus = rcu_init s, active = {}, old = (\<lambda>_. {}), queue = [], phase = CbIdle\<rparr>"

definition rcu_inv :: "rcu_sys \<Rightarrow> bool" where
  "rcu_inv y \<longleftrightarrow> finite (active y) \<and> card (active y) < 2 ^ 64 \<and> unat (g_rcu_readers (rcus y)) = card (active y) \<and>
     (\<forall>c. old y c \<subseteq> active y) \<and> rcu_queue (rcus y) (queue y) \<and> (\<forall>c. phase y = CbReady c \<longrightarrow> old y c = {})"

lemma rcu_start_inv: "rcu_inv (rcu_start s)"
  by (simp add: rcu_inv_def rcu_start_def rcu_init_def rcu_queue_def)

lemma rcu_queue_readers [simp]: "rcu_queue (s\<lparr>g_rcu_readers := n\<rparr>) xs = rcu_queue s xs"
  "rcu_queue (s\<lparr>g_callbacks_completed_count := m\<rparr>) xs = rcu_queue s xs"
  by (simp_all add: rcu_queue_def)

lemma call_rcu_readers [simp]: "g_rcu_readers (call_rcu h f s) = g_rcu_readers s"
  by (simp add: call_rcu_def Let_def)

lemma rcu_step_inv:
  assumes "rcu_step y z" "rcu_inv y"
  shows "rcu_inv z"
  using assms(1)
proof cases
  case (r_lock i)
  have "unat (g_rcu_readers (rcus y) + 1) = card (active y) + 1"
    using assms(2) r_lock(3) by (subst unat_Suc_small) (simp_all add: rcu_inv_def)
  then show ?thesis using assms(2) r_lock by (auto simp: rcu_inv_def rcu_read_lock_def)
next
  case (r_unlock i)
  have fin: "finite (active y)" using assms(2) by (simp add: rcu_inv_def)
  then have pos: "0 < card (active y)" using r_unlock(2) by (metis card_gt_0_iff empty_iff)
  have u: "unat (g_rcu_readers (rcus y)) = card (active y)" using assms(2) by (simp add: rcu_inv_def)
  then have "g_rcu_readers (rcus y) \<noteq> 0" using pos by auto
  moreover have "unat (g_rcu_readers (rcus y) - 1) = card (active y) - 1"
    using u pos by (subst unat_diff_le) (simp_all add: word_le_unat)
  moreover have "card (active y) < 2 ^ 64" using assms(2) by (simp add: rcu_inv_def)
  then have "card (active y) - 1 < 2 ^ 64" by linarith
  ultimately show ?thesis using assms(2) r_unlock fin
    by (auto simp: rcu_inv_def rcu_read_unlock_def card_Diff_singleton)
next
  case (r_call h f)
  then show ?thesis using assms(2) call_rcu_queue [of "rcus y" "queue y" h f] by (auto simp: rcu_inv_def)
next
  case (r_take c t)
  have q: "rcu_queue (rcus y) (queue y)" using assms(2) by (simp add: rcu_inv_def)
  then obtain x xs where xs: "queue y = x # xs" using take_callback_empty r_take(3,4) by (cases "queue y") auto
  show ?thesis using assms(2) r_take take_callback_queue [of "rcus y" x xs c t] q xs by (auto simp: rcu_inv_def)
next
  case (r_sync c)
  have "active y = {}" using assms(2) r_sync(3) by (auto simp: rcu_inv_def synchronize_rcu_def)
  then show ?thesis using assms(2) r_sync by (auto simp: rcu_inv_def)
next
  case (r_run c)
  then show ?thesis using assms(2) by (simp add: rcu_inv_def callback_done_def)
qed

lemma rcu_steps_inv: "rcu_step\<^sup>*\<^sup>* y z \<Longrightarrow> rcu_inv y \<Longrightarrow> rcu_inv z"
  by (induction rule: rtranclp_induct) (auto intro: rcu_step_inv)

section \<open>Properties\<close>

definition rcu_bss :: rcu where
  "rcu_bss = \<lparr>g_rcu_readers = 0, g_callbacks_head = 0, g_callbacks_tail = 0, rcu_next = (\<lambda>_. 0), rcu_func = (\<lambda>_. 0),
     g_callbacks_queued_count = 0, g_callbacks_completed_count = 0\<rparr>"

text \<open>
  C14. Grace periods: when the callback task runs a callback, every reader that was inside a read-side
  section when the callback was handed to \<^verbatim>\<open>call_rcu\<close> has left it, whatever readers and callers did in
  between.
\<close>

theorem rcu_grace_period:
  assumes "rcu_step\<^sup>*\<^sup>* (rcu_start s) y" "phase y = CbReady c"
  shows "old y c = {}"
  using rcu_steps_inv [OF assms(1) rcu_start_inv] assms(2) by (simp add: rcu_inv_def)

text \<open>The run of the example: a callback is queued while reader 7 is inside, which then leaves.\<close>

definition rcu_example :: rcu_sys where
  "rcu_example =
     (let y0 = rcu_start rcu_bss;
          y1 = y0\<lparr>rcus := rcu_read_lock (rcus y0), active := insert 7 (active y0)\<rparr>;
          y2 = y1\<lparr>rcus := call_rcu 64 8 (rcus y1), old := (old y1)(64 := active y1), queue := queue y1 @ [64]\<rparr>;
          y3 = y2\<lparr>rcus := snd (take_callback (rcus y2)), queue := tl (queue y2), phase := CbWaiting 64\<rparr>;
          y4 = y3\<lparr>rcus := rcu_read_unlock (rcus y3), active := active y3 - {7}, old := (\<lambda>c. old y3 c - {7})\<rparr>
      in y4\<lparr>phase := CbReady 64\<rparr>)"

lemma rcu_example_reached: "rcu_step\<^sup>*\<^sup>* (rcu_start rcu_bss) rcu_example"
proof -
  define y0 where "y0 = rcu_start rcu_bss"
  define y1 where "y1 = y0\<lparr>rcus := rcu_read_lock (rcus y0), active := insert 7 (active y0)\<rparr>"
  define y2 where "y2 = y1\<lparr>rcus := call_rcu 64 8 (rcus y1), old := (old y1)(64 := active y1), queue := queue y1 @ [64]\<rparr>"
  define y3 where "y3 = y2\<lparr>rcus := snd (take_callback (rcus y2)), queue := tl (queue y2), phase := CbWaiting 64\<rparr>"
  define y4 where "y4 = y3\<lparr>rcus := rcu_read_unlock (rcus y3), active := active y3 - {7}, old := (\<lambda>c. old y3 c - {7})\<rparr>"
  note defs = y0_def y1_def y2_def y3_def y4_def rcu_start_def rcu_init_def rcu_bss_def rcu_read_lock_def call_rcu_def
    take_callback_def rcu_read_unlock_def synchronize_rcu_def Let_def
  have a: "rcu_step y0 y1" unfolding y1_def by (rule r_lock) (simp_all add: defs)
  have b: "rcu_step y1 y2" unfolding y2_def by (rule r_call) (simp_all add: defs)
  have c: "rcu_step y2 y3" unfolding y3_def by (rule r_take) (simp_all add: defs)
  have d: "rcu_step y3 y4" unfolding y4_def by (rule r_unlock) (simp add: defs)
  have e: "rcu_step y4 (y4\<lparr>phase := CbReady 64\<rparr>)" by (rule r_sync) (simp_all add: defs)
  have "rcu_step\<^sup>*\<^sup>* y0 (y4\<lparr>phase := CbReady 64\<rparr>)"
    by (rule converse_rtranclp_into_rtranclp, rule a, rule converse_rtranclp_into_rtranclp, rule b,
        rule converse_rtranclp_into_rtranclp, rule c, rule converse_rtranclp_into_rtranclp, rule d, rule r_into_rtranclp, rule e)
  then show ?thesis unfolding rcu_example_def Let_def y4_def y3_def y2_def y1_def y0_def .
qed

theorem rcu_grace_period_witness:
  "phase rcu_example = CbReady 64 \<and> old rcu_example 64 = {}"
proof -
  have "phase rcu_example = CbReady 64" by (simp add: rcu_example_def Let_def)
  with rcu_grace_period [OF rcu_example_reached] show ?thesis by blast
qed

text \<open>
  C37. The callback list is a queue: \<^verbatim>\<open>call_rcu\<close> puts a head that is not yet queued last, and the callback
  task takes them in that order; a NULL head or function is ignored.
\<close>

theorem rcu_callbacks_fifo:
  assumes "rcu_queue s xs"
  shows "(h = 0 \<or> f = 0 \<longrightarrow> call_rcu h f s = s) \<and>
    (h \<noteq> 0 \<and> f \<noteq> 0 \<and> h \<notin> set xs \<longrightarrow> rcu_queue (call_rcu h f s) (xs @ [h]) \<and> rcu_func (call_rcu h f s) h = f) \<and>
    (case xs of [] \<Rightarrow> take_callback s = (0, s)
     | y # ys \<Rightarrow> fst (take_callback s) = y \<and> rcu_queue (snd (take_callback s)) ys)"
proof -
  have "rcu_func (call_rcu h f s) h = f" if "h \<noteq> 0" "f \<noteq> 0" using that by (simp add: call_rcu_def Let_def)
  moreover have "case xs of [] \<Rightarrow> take_callback s = (0, s) | y # ys \<Rightarrow> fst (take_callback s) = y \<and> rcu_queue (snd (take_callback s)) ys"
  proof (cases xs)
    case (Cons y ys)
    obtain c t where r: "take_callback s = (c, t)" by (cases "take_callback s")
    show ?thesis using take_callback_queue(1,2) [OF _ r] assms Cons r by simp
  qed (use assms take_callback_empty [of s] in simp)
  ultimately show ?thesis using call_rcu_queue [OF assms] by (auto simp: call_rcu_def)
qed

theorem rcu_callbacks_fifo_witness:
  "rcu_queue (call_rcu 64 8 (rcu_init rcu_bss)) [64] \<and> fst (take_callback (call_rcu 64 8 (rcu_init rcu_bss))) = 64"
proof -
  have "rcu_queue (rcu_init rcu_bss) []" by (simp add: rcu_queue_def rcu_init_def)
  then have q: "rcu_queue (call_rcu 64 8 (rcu_init rcu_bss)) [64]" using rcu_callbacks_fifo [of "rcu_init rcu_bss" "[]" 64 8] by simp
  with rcu_callbacks_fifo [OF q, of 0 0] show ?thesis by simp
qed

end
