(* ===== verification/Capability.thy ===== *)
theory Capability
  imports Prelude
begin

text \<open>
  Capabilities, kernel/security/capability.c: a table of 128 slots, each naming an owner task, an
  object and a set of rights.  An identifier is the slot's index plus one.  The locked sections are
  single definitions; an output parameter is a flag for its pointer being non-NULL, and the value
  written is the second result.
\<close>

section \<open>Data and operations\<close>

definition CAPABILITY_MAX_ENTRIES :: u32 where "CAPABILITY_MAX_ENTRIES = 128"
definition CAP_RIGHT_READ :: u16 where "CAP_RIGHT_READ = 1"
definition CAP_RIGHT_WRITE :: u16 where "CAP_RIGHT_WRITE = 2"
definition CAP_RIGHT_EXECUTE :: u16 where "CAP_RIGHT_EXECUTE = 4"
definition CAP_RIGHT_TRANSFER :: u16 where "CAP_RIGHT_TRANSFER = 8"

record capability_slot_t =
  cap_in_use :: u8
  cap_owner_tid :: u64
  cap_object_id :: u64
  cap_rights :: u16

record capability_info_t =
  info_id :: u16
  info_owner_tid :: u64
  info_object_id :: u64
  info_rights :: u16

record capability =
  g_capability_slots :: "capability_slot_t list"
  g_capability_count :: u16

definition capability_is_valid_id :: "u16 \<Rightarrow> bool" where
  "capability_is_valid_id capability_id \<longleftrightarrow>
     capability_id > 0 \<and> ucast capability_id \<le> CAPABILITY_MAX_ENTRIES"

definition capability_index_from_id :: "u16 \<Rightarrow> u16" where
  "capability_index_from_id capability_id = capability_id - 1"

definition capability_rights_allow :: "u16 \<Rightarrow> u16 \<Rightarrow> bool" where
  "capability_rights_allow current requested \<longleftrightarrow> (current AND requested) = requested"

definition capability_init :: "capability \<Rightarrow> capability" where
  "capability_init s = s\<lparr>
     g_capability_slots := map (\<lambda>sl. sl\<lparr>cap_in_use := 0, cap_owner_tid := 0, cap_object_id := 0, cap_rights := 0\<rparr>)
       (g_capability_slots s),
     g_capability_count := 0\<rparr>"

text \<open>The loop both creating operations share: claim the first slot not in use.\<close>

definition claim_slot :: "u64 \<Rightarrow> u64 \<Rightarrow> u16 \<Rightarrow> capability \<Rightarrow> int \<times> u16 option \<times> capability" where
  "claim_slot owner_tid object_id rights s =
     (case first_index (\<lambda>sl. cap_in_use sl = 0) (g_capability_slots s) of
        None \<Rightarrow> (- 2, None, s)
      | Some index \<Rightarrow>
          (0, Some (of_nat index + 1),
           s\<lparr>g_capability_slots := (g_capability_slots s)[index :=
                (g_capability_slots s ! index)\<lparr>cap_in_use := 1, cap_owner_tid := owner_tid,
                   cap_object_id := object_id, cap_rights := rights\<rparr>],
             g_capability_count := g_capability_count s + 1\<rparr>))"

definition capability_create :: "u64 \<Rightarrow> u64 \<Rightarrow> u16 \<Rightarrow> bool \<Rightarrow> capability \<Rightarrow> int \<times> u16 option \<times> capability" where
  "capability_create owner_tid object_id rights has_out s =
     (if \<not> has_out \<or> rights = 0 then (- 1, None, s)
      else claim_slot owner_tid object_id rights s)"

text \<open>The tests on the source slot, in the order of the code; 0 when all pass.\<close>

definition transfer_status :: "capability_slot_t \<Rightarrow> u64 \<Rightarrow> u16 \<Rightarrow> int" where
  "transfer_status slot owner_tid rights_mask =
     (if cap_in_use slot = 0 then - 2
      else if cap_owner_tid slot \<noteq> owner_tid then - 3
      else if cap_rights slot AND CAP_RIGHT_TRANSFER = 0 then - 4
      else if \<not> capability_rights_allow (cap_rights slot) rights_mask then - 5
      else 0)"

definition capability_validate_transfer :: "u16 \<Rightarrow> u64 \<Rightarrow> u16 \<Rightarrow> capability \<Rightarrow> int" where
  "capability_validate_transfer capability_id owner_tid rights_mask s =
     (if \<not> capability_is_valid_id capability_id \<or> rights_mask = 0 then - 1
      else transfer_status (g_capability_slots s ! unat (capability_index_from_id capability_id)) owner_tid rights_mask)"

definition capability_copy_for_owner ::
  "u16 \<Rightarrow> u64 \<Rightarrow> u16 \<Rightarrow> u64 \<Rightarrow> bool \<Rightarrow> capability \<Rightarrow> int \<times> u16 option \<times> capability" where
  "capability_copy_for_owner capability_id owner_tid rights_mask target_tid has_out s =
     (if \<not> has_out \<or> \<not> capability_is_valid_id capability_id \<or> rights_mask = 0 then (- 1, None, s)
      else
        let source_slot = g_capability_slots s ! unat (capability_index_from_id capability_id);
            status = transfer_status source_slot owner_tid rights_mask
        in if status \<noteq> 0 then (status, None, s)
           else claim_slot target_tid (cap_object_id source_slot) rights_mask s)"

definition capability_describe :: "u16 \<Rightarrow> bool \<Rightarrow> capability \<Rightarrow> int \<times> capability_info_t option" where
  "capability_describe capability_id has_out s =
     (if \<not> has_out \<or> \<not> capability_is_valid_id capability_id then (- 1, None)
      else
        let slot = g_capability_slots s ! unat (capability_index_from_id capability_id) in
        if cap_in_use slot = 0 then (- 2, None)
        else (0, Some \<lparr>info_id = capability_id, info_owner_tid = cap_owner_tid slot,
                       info_object_id = cap_object_id slot, info_rights = cap_rights slot\<rparr>))"

definition capability_count :: "capability \<Rightarrow> u16" where
  "capability_count s = g_capability_count s"

section \<open>The invariant\<close>

abbreviation cap_used :: "capability \<Rightarrow> nat \<Rightarrow> bool" where
  "cap_used s i \<equiv> i < 128 \<and> cap_in_use (g_capability_slots s ! i) \<noteq> 0"

definition cap_wf :: "capability \<Rightarrow> bool" where
  "cap_wf s \<longleftrightarrow> length (g_capability_slots s) = 128 \<and> unat (g_capability_count s) = card {i. cap_used s i} \<and>
     (\<forall>i. cap_used s i \<longrightarrow> cap_rights (g_capability_slots s ! i) \<noteq> 0)"

lemma cap_wf_init: "length (g_capability_slots s) = 128 \<Longrightarrow> cap_wf (capability_init s)"
  by (simp add: cap_wf_def capability_init_def)

lemma init_unused: "length (g_capability_slots s) = 128 \<Longrightarrow> cap_used (capability_init s) i \<Longrightarrow> P"
  by (auto simp: capability_init_def)

lemma cap_id_index:
  assumes "i < 128"
  shows "capability_is_valid_id (of_nat i + 1)" "unat (capability_index_from_id (of_nat i + 1)) = i"
proof -
  have u: "unat (of_nat i :: u16) = i" using assms by (simp add: unat_of_nat)
  then have u1: "unat (of_nat i + 1 :: u16) = i + 1" using assms by (subst unat_Suc_small) simp_all
  then show "capability_is_valid_id (of_nat i + 1)"
    using assms by (simp add: capability_is_valid_id_def CAPABILITY_MAX_ENTRIES_def word_less_unat word_le_unat unat_ucast_up)
  show "unat (capability_index_from_id (of_nat i + 1)) = i" using u by (simp add: capability_index_from_id_def)
qed

lemma valid_id_index:
  assumes "capability_is_valid_id c"
  shows "unat (capability_index_from_id c) < 128" "of_nat (unat (capability_index_from_id c)) + 1 = c"
proof -
  have c: "0 < unat c" "unat c \<le> 128"
    using assms by (simp_all add: capability_is_valid_id_def CAPABILITY_MAX_ENTRIES_def word_less_unat word_le_unat unat_ucast_up)
  have "unat (c - 1) = unat c - 1" using c by (subst unat_diff_le) (simp_all add: word_le_unat)
  then show "unat (capability_index_from_id c) < 128" using c by (simp add: capability_index_from_id_def)
  show "of_nat (unat (capability_index_from_id c)) + 1 = c" by (simp add: capability_index_from_id_def)
qed

text \<open>Claiming: the table is full, or one unused slot becomes the new capability.\<close>

lemma claim_slot_cases:
  assumes wf: "cap_wf s" and r: "claim_slot own obj rts s = (v, res, t)"
  obtains "\<forall>i<128. cap_used s i" "v = - 2" "res = None" "t = s"
  | i where "i < 128" "\<not> cap_used s i" "v = 0" "res = Some (of_nat i + 1)"
      "g_capability_slots t = (g_capability_slots s)[i := (g_capability_slots s ! i)
         \<lparr>cap_in_use := 1, cap_owner_tid := own, cap_object_id := obj, cap_rights := rts\<rparr>]"
      "{j. cap_used t j} = insert i {j. cap_used s j}" "unat (g_capability_count t) = unat (g_capability_count s) + 1"
proof (cases "first_index (\<lambda>sl. cap_in_use sl = 0) (g_capability_slots s)")
  case None
  have len: "length (g_capability_slots s) = 128" using wf by (simp add: cap_wf_def)
  have "cap_used s i" if "i < 128" for i
  proof -
    have "g_capability_slots s ! i \<in> set (g_capability_slots s)" using len that by (intro nth_mem) simp
    then show ?thesis using None that unfolding first_index_None by blast
  qed
  then have full: "\<forall>i<128. cap_used s i" by blast
  have "v = - 2" "res = None" "t = s" using r None by (simp_all add: claim_slot_def)
  then show ?thesis by (rule that(1) [OF full])
next
  case (Some i)
  have len: "length (g_capability_slots s) = 128" using wf by (simp add: cap_wf_def)
  have i: "i < 128" "\<not> cap_used s i" using first_index_SomeD [OF Some] len by auto
  have u: "{j. cap_used t j} = insert i {j. cap_used s j}"
    using r Some i len by (auto simp: claim_slot_def nth_list_update split: if_splits)
  have "{j. cap_used s j} \<subseteq> {..<128} - {i}" using i by auto
  then have "card {j. cap_used s j} \<le> card ({..<128 :: nat} - {i})" by (rule card_mono [rotated]) simp
  then have "card {j. cap_used s j} < 128" using i(1) by simp
  then have n: "unat (g_capability_count s + 1) = unat (g_capability_count s) + 1"
    using wf by (intro unat_Suc_small) (simp add: cap_wf_def)
  have t: "v = 0" "res = Some (of_nat i + 1)"
    "t = s\<lparr>g_capability_slots := (g_capability_slots s)[i := (g_capability_slots s ! i)
         \<lparr>cap_in_use := 1, cap_owner_tid := own, cap_object_id := obj, cap_rights := rts\<rparr>],
       g_capability_count := g_capability_count s + 1\<rparr>"
    using r Some by (simp_all add: claim_slot_def)
  show ?thesis by (rule that(2) [OF i t(1,2) _ u]) (use t(3) n in simp_all)
qed

lemma claim_slot_wf:
  assumes wf: "cap_wf s" and r: "claim_slot own obj rts s = (v, res, t)" and "rts \<noteq> 0"
  shows "cap_wf t"
  using wf r
proof (rule claim_slot_cases)
  fix i
  assume c: "i < 128" "\<not> cap_used s i"
    "g_capability_slots t = (g_capability_slots s)[i := (g_capability_slots s ! i)
         \<lparr>cap_in_use := 1, cap_owner_tid := own, cap_object_id := obj, cap_rights := rts\<rparr>]"
    "{j. cap_used t j} = insert i {j. cap_used s j}" "unat (g_capability_count t) = unat (g_capability_count s) + 1"
  have fin: "finite {j. cap_used s j}" by (rule finite_subset [of _ "{..<128}"]) auto
  have "card {j. cap_used t j} = card {j. cap_used s j} + 1" unfolding c(4) using fin c(2) by (subst card_insert_disjoint) auto
  moreover have "cap_rights (g_capability_slots t ! j) \<noteq> 0" if "cap_used t j" for j
  proof (cases "j = i")
    case True
    then show ?thesis using c(1,3) wf assms(3) by (simp add: cap_wf_def)
  next
    case False
    then have "cap_used s j" "g_capability_slots t ! j = g_capability_slots s ! j" using that c(3,4) by auto
    then show ?thesis using wf by (simp add: cap_wf_def)
  qed
  ultimately show ?thesis using wf c(3,5) by (simp add: cap_wf_def)
qed (use wf in simp)

section \<open>Properties\<close>

text \<open>The operations that fill slots, and the table after a sequence of them.\<close>

datatype cap_op =
    Cap_Create u64 u64 u16
  | Cap_Copy u16 u64 u16 u64

fun cap_step :: "cap_op \<Rightarrow> capability \<Rightarrow> capability" where
  "cap_step (Cap_Create own obj rts) s = snd (snd (capability_create own obj rts True s))"
| "cap_step (Cap_Copy c own msk target) s = snd (snd (capability_copy_for_owner c own msk target True s))"

text \<open>
  A slot is justified by a sequence of operations when one of them created a capability on the same
  object whose rights include the slot's, and that creation was for the slot's owner or carried
  the right to transfer.
\<close>

definition justified :: "cap_op set \<Rightarrow> capability_slot_t \<Rightarrow> bool" where
  "justified ops sl \<longleftrightarrow> (\<exists>own rts. Cap_Create own (cap_object_id sl) rts \<in> ops \<and>
     capability_rights_allow rts (cap_rights sl) \<and>
     (own = cap_owner_tid sl \<or> rts AND CAP_RIGHT_TRANSFER \<noteq> 0))"

lemma rights_allow_trans:
  "capability_rights_allow a b \<Longrightarrow> capability_rights_allow b c \<Longrightarrow> capability_rights_allow a c"
  unfolding capability_rights_allow_def by (metis and.assoc)

lemma rights_allow_transfer:
  assumes "capability_rights_allow a b" "b AND CAP_RIGHT_TRANSFER \<noteq> 0"
  shows "a AND CAP_RIGHT_TRANSFER \<noteq> 0"
proof
  assume "a AND CAP_RIGHT_TRANSFER = 0"
  then have "(a AND b) AND CAP_RIGHT_TRANSFER = 0" by (metis and.assoc and.commute and_zero_eq)
  then show False using assms by (simp add: capability_rights_allow_def)
qed

lemma justified_mono: "justified A sl \<Longrightarrow> A \<subseteq> B \<Longrightarrow> justified B sl"
  unfolding justified_def by blast

lemma justified_copy:
  assumes "justified ops src" "transfer_status src own msk = 0"
  shows "justified ops (sl\<lparr>cap_in_use := 1, cap_owner_tid := target, cap_object_id := cap_object_id src, cap_rights := msk\<rparr>)"
proof -
  have c: "cap_rights src AND CAP_RIGHT_TRANSFER \<noteq> 0" "capability_rights_allow (cap_rights src) msk"
    using assms(2) by (auto simp: transfer_status_def split: if_splits)
  from assms(1) obtain w rts where w: "Cap_Create w (cap_object_id src) rts \<in> ops" "capability_rights_allow rts (cap_rights src)"
    unfolding justified_def by blast
  show ?thesis unfolding justified_def
    using w(1) rights_allow_trans [OF w(2) c(2)] rights_allow_transfer [OF w(2) c(1)]
    by (intro exI [of _ w] exI [of _ rts]) simp
qed

lemma claim_slot_all:
  assumes wf: "cap_wf s" and r: "claim_slot own obj rts s = (v, res, t)"
    and old: "\<And>i. cap_used s i \<Longrightarrow> Q (g_capability_slots s ! i)"
    and new: "\<And>sl. Q (sl\<lparr>cap_in_use := 1, cap_owner_tid := own, cap_object_id := obj, cap_rights := rts\<rparr>)"
    and i: "cap_used t i"
  shows "Q (g_capability_slots t ! i)"
  using wf r
proof (rule claim_slot_cases)
  fix j
  assume c: "j < 128" "{j. cap_used t j} = insert j {j. cap_used s j}"
    "g_capability_slots t = (g_capability_slots s)[j := (g_capability_slots s ! j)
         \<lparr>cap_in_use := 1, cap_owner_tid := own, cap_object_id := obj, cap_rights := rts\<rparr>]"
  have len: "length (g_capability_slots s) = 128" using wf by (simp add: cap_wf_def)
  show ?thesis
  proof (cases "i = j")
    case False
    then have "cap_used s i" using i c(2) by blast
    then show ?thesis using old c(3) False by simp
  qed (use c len new in simp)
qed (use old i in simp)

lemma transfer_status_used: "transfer_status sl own msk = 0 \<Longrightarrow> cap_in_use sl \<noteq> 0"
  by (auto simp: transfer_status_def split: if_splits)

lemma cap_step_ok:
  assumes wf: "cap_wf s" and old: "\<And>i. cap_used s i \<Longrightarrow> justified A (g_capability_slots s ! i)"
  shows "cap_wf (cap_step p s) \<and> (\<forall>i. cap_used (cap_step p s) i \<longrightarrow> justified (insert p A) (g_capability_slots (cap_step p s) ! i))"
proof -
  have old': "\<And>i. cap_used s i \<Longrightarrow> justified (insert p A) (g_capability_slots s ! i)" using old justified_mono by blast
  show ?thesis
  proof (cases p)
    case (Cap_Create own obj rts)
    obtain v res t where r: "claim_slot own obj rts s = (v, res, t)" by (cases "claim_slot own obj rts s")
    have "justified (insert p A) (sl\<lparr>cap_in_use := 1, cap_owner_tid := own, cap_object_id := obj, cap_rights := rts\<rparr>)" for sl
      unfolding justified_def by (intro exI [of _ own] exI [of _ rts]) (simp add: capability_rights_allow_def Cap_Create)
    then show ?thesis using claim_slot_wf [OF wf r] claim_slot_all [where Q = "justified (insert p A)", OF wf r old'] r wf old'
      by (auto simp: Cap_Create capability_create_def)
  next
    case (Cap_Copy c own msk target)
    let ?src = "g_capability_slots s ! unat (capability_index_from_id c)"
    show ?thesis
    proof (cases "capability_is_valid_id c \<and> msk \<noteq> 0 \<and> transfer_status ?src own msk = 0")
      case True
      obtain v res t where r: "claim_slot target (cap_object_id ?src) msk s = (v, res, t)"
        by (cases "claim_slot target (cap_object_id ?src) msk s")
      have "justified (insert p A) ?src" using old' transfer_status_used valid_id_index(1) True by blast
      then have new: "justified (insert p A) (sl\<lparr>cap_in_use := 1, cap_owner_tid := target,
          cap_object_id := cap_object_id ?src, cap_rights := msk\<rparr>)" for sl
        using justified_copy True by blast
      have "cap_step p s = t" using True r by (simp add: Cap_Copy capability_copy_for_owner_def)
      then show ?thesis using claim_slot_wf [OF wf r] claim_slot_all [where Q = "justified (insert p A)", OF wf r old' new] True by simp
    next
      case False
      then have "cap_step p s = s" by (auto simp: Cap_Copy capability_copy_for_owner_def Let_def)
      then show ?thesis using wf old' by simp
    qed
  qed
qed

lemma cap_run_ok:
  assumes "cap_wf s" "\<And>i. cap_used s i \<Longrightarrow> justified A (g_capability_slots s ! i)"
  shows "cap_wf (fold cap_step ops s) \<and>
    (\<forall>i. cap_used (fold cap_step ops s) i \<longrightarrow> justified (set ops \<union> A) (g_capability_slots (fold cap_step ops s) ! i))"
  using assms
proof (induction ops arbitrary: s A)
  case (Cons p ops)
  note s = cap_step_ok [OF Cons.prems(1), of A p, OF Cons.prems(2)]
  have "set ops \<union> insert p A = set (p # ops) \<union> A" by auto
  then show ?case using Cons.IH [of "cap_step p s" "insert p A"] s by simp
qed simp

lemma cap_run_wf:
  assumes "length (g_capability_slots s) = 128"
  shows "cap_wf (fold cap_step ops (capability_init s))"
  using cap_run_ok [OF cap_wf_init [OF assms], of "{}" ops] init_unused [OF assms] by blast

text \<open>
  C3. No amplification of authority.  After initialisation and any sequence of creations and
  copies, every capability in use is backed by a creation on the same object whose rights include
  all of its rights, and it belongs to the owner of that creation unless the creation carried the
  right to transfer.  The counter is the number of slots in use and no slot in use has empty rights.
\<close>

theorem capability_no_amplification:
  fixes s :: capability and ops :: "cap_op list"
  assumes "length (g_capability_slots s) = 128"
  defines "t \<equiv> fold cap_step ops (capability_init s)"
  shows "cap_wf t \<and> (\<forall>i. cap_used t i \<longrightarrow> justified (set ops) (g_capability_slots t ! i))"
proof -
  from cap_run_ok [OF cap_wf_init [OF assms(1)] init_unused [OF assms(1)], where A = "{}" and ops = ops]
  show ?thesis unfolding t_def by simp
qed

definition cap_demo :: capability where
  "cap_demo = \<lparr>g_capability_slots = replicate 128 \<lparr>cap_in_use = 0, cap_owner_tid = 0, cap_object_id = 0, cap_rights = 0\<rparr>,
     g_capability_count = 0\<rparr>"

definition cap_demo_ops :: "cap_op list" where
  "cap_demo_ops = [Cap_Create 7 99 11, Cap_Copy 1 7 3 8, Cap_Copy 1 7 4 8, Cap_Copy 2 8 1 9]"

theorem capability_no_amplification_witness:
  "let t = fold cap_step cap_demo_ops (capability_init cap_demo) in
     capability_count t = 2 \<and> cap_wf t \<and> cap_used t 1 \<and>
     cap_owner_tid (g_capability_slots t ! 1) = 8 \<and> justified (set cap_demo_ops) (g_capability_slots t ! 1)"
proof -
  let ?t = "fold cap_step cap_demo_ops (capability_init cap_demo)"
  have u: "capability_count ?t = 2" "cap_in_use (g_capability_slots ?t ! 1) \<noteq> 0"
    "cap_owner_tid (g_capability_slots ?t ! 1) = 8" by code_simp+
  then show ?thesis
    using capability_no_amplification [of cap_demo cap_demo_ops] by (simp add: Let_def cap_demo_def)
qed

lemma copy_for_owner_spec:
  assumes wf: "cap_wf s"
    and r: "capability_copy_for_owner c own msk target True s = (v, res, t)"
  shows "(if capability_validate_transfer c own msk s \<noteq> 0
          then v = capability_validate_transfer c own msk s \<and> res = None \<and> t = s
          else if \<forall>i<128. cap_used s i then v = - 2 \<and> res = None \<and> t = s
          else v = 0 \<and> (\<exists>d. res = Some d \<and> fst (capability_describe d True s) = - 2 \<and>
            (\<exists>src. capability_describe c True s = (0, Some src) \<and>
              capability_describe d True t = (0, Some \<lparr>info_id = d, info_owner_tid = target,
                info_object_id = info_object_id src, info_rights = msk\<rparr>)) \<and>
            (\<forall>e. e \<noteq> d \<longrightarrow> capability_describe e True t = capability_describe e True s)))"
proof (cases "capability_validate_transfer c own msk s = 0")
  case False
  then show ?thesis using r
    by (auto simp: capability_validate_transfer_def capability_copy_for_owner_def Let_def split: if_splits)
next
  case True
  let ?src = "g_capability_slots s ! unat (capability_index_from_id c)"
  have v: "capability_is_valid_id c" "msk \<noteq> 0" "transfer_status ?src own msk = 0"
    using True by (auto simp: capability_validate_transfer_def split: if_splits)
  have q: "claim_slot target (cap_object_id ?src) msk s = (v, res, t)"
    using r v by (simp add: capability_copy_for_owner_def)
  have dsc: "capability_describe c True s = (0, Some \<lparr>info_id = c, info_owner_tid = cap_owner_tid ?src,
      info_object_id = cap_object_id ?src, info_rights = cap_rights ?src\<rparr>)"
    using v transfer_status_used by (auto simp: capability_describe_def Let_def)
  from wf q show ?thesis
  proof (rule claim_slot_cases)
    fix i
    assume c: "i < 128" "\<not> cap_used s i" "v = 0" "res = Some (of_nat i + 1)"
      "g_capability_slots t = (g_capability_slots s)[i := (g_capability_slots s ! i)
         \<lparr>cap_in_use := 1, cap_owner_tid := target, cap_object_id := cap_object_id ?src, cap_rights := msk\<rparr>]"
    have len: "length (g_capability_slots s) = 128" using wf by (simp add: cap_wf_def)
    have other: "capability_describe e True t = capability_describe e True s" if "e \<noteq> of_nat i + 1" for e
    proof (cases "capability_is_valid_id e")
      case True
      then have "unat (capability_index_from_id e) \<noteq> i" using valid_id_index(2) that by metis
      then show ?thesis using c(5) by (simp add: capability_describe_def)
    qed (simp add: capability_describe_def)
    have "\<not> (\<forall>i<128. cap_used s i)" using c(1,2) by blast
    moreover have "fst (capability_describe (of_nat i + 1) True s) = - 2"
      using cap_id_index [OF c(1)] c(1,2) by (simp add: capability_describe_def)
    moreover have "capability_describe (of_nat i + 1) True t = (0, Some \<lparr>info_id = of_nat i + 1,
        info_owner_tid = target, info_object_id = cap_object_id ?src, info_rights = msk\<rparr>)"
      using cap_id_index [OF c(1)] c(1,5) len by (simp add: capability_describe_def)
    ultimately show ?thesis using True dsc other c(3,4) by (simp only: if_False if_True) simp
  next
    assume full: "\<forall>i<128. cap_used s i" and "v = - 2" "res = None" "t = s"
    then show ?thesis by (simp only: True if_P [OF full] simp_thms if_False)
  qed
qed

text \<open>
  C38. Copying agrees with validation.  \<^verbatim>\<open>capability_copy_for_owner\<close> refuses with exactly the status
  \<^verbatim>\<open>capability_validate_transfer\<close> gives and leaves the table as it was; when validation passes, it
  fails only for want of a free slot (status -2), and otherwise the fresh identifier describes a
  capability of the target task on the same object with exactly the requested rights, while every
  capability in use before is described as before.
\<close>

theorem capability_copy_validated:
  assumes wf: "cap_wf s"
    and r: "capability_copy_for_owner c own msk target True s = (v, res, t)"
  shows "(if capability_validate_transfer c own msk s \<noteq> 0
          then v = capability_validate_transfer c own msk s \<and> res = None \<and> t = s
          else if \<forall>i<128. cap_used s i then v = - 2 \<and> res = None \<and> t = s
          else v = 0 \<and> (\<exists>d. res = Some d \<and> fst (capability_describe d True s) = - 2 \<and>
            (\<exists>src. capability_describe c True s = (0, Some src) \<and>
              capability_describe d True t = (0, Some \<lparr>info_id = d, info_owner_tid = target,
                info_object_id = info_object_id src, info_rights = msk\<rparr>)) \<and>
            (\<forall>e. e \<noteq> d \<longrightarrow> capability_describe e True t = capability_describe e True s)))"
  by (rule copy_for_owner_spec [OF wf r])

theorem capability_copy_validated_witness:
  "let s = fold cap_step cap_demo_ops (capability_init cap_demo);
       (v, res, t) = capability_copy_for_owner 1 7 8 10 True s in
     cap_wf s \<and> capability_validate_transfer 1 7 8 s = 0 \<and> v = 0 \<and>
     (\<exists>d. res = Some d \<and> d \<noteq> 1 \<and> capability_describe 1 True t = capability_describe 1 True s)"
proof -
  let ?s = "fold cap_step cap_demo_ops (capability_init cap_demo)"
  obtain v res t where r: "capability_copy_for_owner 1 7 8 10 True ?s = (v, res, t)"
    by (cases "capability_copy_for_owner 1 7 8 10 True ?s")
  have wf: "cap_wf ?s" by (rule cap_run_wf) (simp add: cap_demo_def)
  have vt: "capability_validate_transfer 1 7 8 ?s = 0" "\<not> cap_used ?s 5" "fst (capability_describe 1 True ?s) = 0" by code_simp+
  have "(5 :: nat) < 128" by simp
  then have nf: "\<not> (\<forall>i<128. cap_used ?s i)" using vt(2) by blast
  from capability_copy_validated [OF wf r] obtain d where d: "v = 0" "res = Some d"
      "fst (capability_describe d True ?s) = - 2"
      "\<forall>e. e \<noteq> d \<longrightarrow> capability_describe e True t = capability_describe e True ?s"
    unfolding if_not_P [OF nf] vt(1) by auto
  then have "1 \<noteq> d" using vt(3) by auto
  then show ?thesis unfolding Let_def r prod.case using wf vt(1) d by blast
qed

end
