(* ===== verification/Seccomp.thy ===== *)
theory Seccomp
  imports Fifo
begin

text \<open>
  System-call filtering, kernel/security/seccomp.c: a default action, an override per system call
  and a ring of the last 128 audited events.  Each function runs under the component's spinlock
  with interrupts off, so it is one definition.  A signed 64-bit result is kept as its word.
\<close>

section \<open>Data and operations\<close>

definition SYSCALL_MAX_ENTRIES :: u32 where "SYSCALL_MAX_ENTRIES = 512"
definition SECCOMP_ACTION_ALLOW :: u8 where "SECCOMP_ACTION_ALLOW = 0"
definition SECCOMP_ACTION_LOG :: u8 where "SECCOMP_ACTION_LOG = 1"
definition SECCOMP_ACTION_ERRNO :: u8 where "SECCOMP_ACTION_ERRNO = 2"
definition SECCOMP_AUDIT_CAPACITY :: u32 where "SECCOMP_AUDIT_CAPACITY = 128"
definition SECCOMP_ACTION_UNSET :: u8 where "SECCOMP_ACTION_UNSET = 0xFF"

record seccomp_audit_event_t =
  ev_sequence :: u64
  ev_tid :: u64
  ev_syscall_number :: u64
  ev_action :: u8
  ev_result :: u64

record seccomp =
  g_seccomp_default_action :: u8
  g_seccomp_overrides :: "u8 list"
  g_seccomp_audit_ring :: "seccomp_audit_event_t list"
  g_seccomp_audit_head :: u16
  g_seccomp_audit_size :: u16
  g_seccomp_audit_sequence :: u64
  g_seccomp_audit_total :: u64

definition seccomp_action_valid :: "u8 \<Rightarrow> bool" where
  "seccomp_action_valid action \<longleftrightarrow>
     action = SECCOMP_ACTION_ALLOW \<or> action = SECCOMP_ACTION_LOG \<or> action = SECCOMP_ACTION_ERRNO"

text \<open>The initialising loops write every entry of the two arrays.\<close>

definition seccomp_init :: "seccomp \<Rightarrow> seccomp" where
  "seccomp_init s = s\<lparr>
     g_seccomp_default_action := SECCOMP_ACTION_ALLOW,
     g_seccomp_overrides := replicate (unat SYSCALL_MAX_ENTRIES) SECCOMP_ACTION_UNSET,
     g_seccomp_audit_head := 0,
     g_seccomp_audit_size := 0,
     g_seccomp_audit_sequence := 0,
     g_seccomp_audit_total := 0,
     g_seccomp_audit_ring := replicate (unat SECCOMP_AUDIT_CAPACITY)
       \<lparr>ev_sequence = 0, ev_tid = 0, ev_syscall_number = 0, ev_action = SECCOMP_ACTION_ALLOW, ev_result = 0\<rparr>\<rparr>"

definition seccomp_set_default_action :: "u8 \<Rightarrow> seccomp \<Rightarrow> seccomp" where
  "seccomp_set_default_action action s =
     (if \<not> seccomp_action_valid action then s else s\<lparr>g_seccomp_default_action := action\<rparr>)"

definition seccomp_set_syscall_action :: "u16 \<Rightarrow> u8 \<Rightarrow> seccomp \<Rightarrow> int \<times> seccomp" where
  "seccomp_set_syscall_action syscall_number action s =
     (if ucast syscall_number \<ge> SYSCALL_MAX_ENTRIES \<or> \<not> seccomp_action_valid action then (- 1, s)
      else (0, s\<lparr>g_seccomp_overrides := (g_seccomp_overrides s)[unat syscall_number := action]\<rparr>))"

definition seccomp_get_syscall_action :: "u64 \<Rightarrow> seccomp \<Rightarrow> u8" where
  "seccomp_get_syscall_action syscall_number s =
     (if syscall_number < ucast SYSCALL_MAX_ENTRIES \<and>
         g_seccomp_overrides s ! unat syscall_number \<noteq> SECCOMP_ACTION_UNSET
      then g_seccomp_overrides s ! unat syscall_number
      else g_seccomp_default_action s)"

definition seccomp_audit_record :: "u64 \<Rightarrow> u64 \<Rightarrow> u8 \<Rightarrow> u64 \<Rightarrow> seccomp \<Rightarrow> seccomp" where
  "seccomp_audit_record tid syscall_number action result s =
     (if \<not> seccomp_action_valid action then s
      else
        let full = (ucast (g_seccomp_audit_size s) = SECCOMP_AUDIT_CAPACITY);
            slot = (if full then g_seccomp_audit_head s
                    else ucast ((ucast (g_seccomp_audit_head s) + ucast (g_seccomp_audit_size s)) mod SECCOMP_AUDIT_CAPACITY));
            s = (if full then s\<lparr>g_seccomp_audit_head := ring_next (g_seccomp_audit_head s) SECCOMP_AUDIT_CAPACITY\<rparr>
                 else s\<lparr>g_seccomp_audit_size := g_seccomp_audit_size s + 1\<rparr>);
            s = s\<lparr>g_seccomp_audit_sequence := g_seccomp_audit_sequence s + 1\<rparr>;
            s = s\<lparr>g_seccomp_audit_ring := (g_seccomp_audit_ring s)[unat slot :=
                   \<lparr>ev_sequence = g_seccomp_audit_sequence s, ev_tid = tid, ev_syscall_number = syscall_number,
                    ev_action = action, ev_result = result\<rparr>]\<rparr>
        in s\<lparr>g_seccomp_audit_total := g_seccomp_audit_total s + 1\<rparr>)"

definition seccomp_audit_count :: "seccomp \<Rightarrow> u64" where
  "seccomp_audit_count s = g_seccomp_audit_total s"

definition seccomp_audit_latest :: "bool \<Rightarrow> seccomp \<Rightarrow> int \<times> seccomp_audit_event_t option" where
  "seccomp_audit_latest has_out s =
     (if \<not> has_out then (- 1, None)
      else if g_seccomp_audit_size s = 0 then (- 2, None)
      else
        let latest_slot = ucast ((ucast (g_seccomp_audit_head s) + ucast (g_seccomp_audit_size s) - 1)
                                 mod SECCOMP_AUDIT_CAPACITY) :: u16
        in (0, Some (g_seccomp_audit_ring s ! unat latest_slot)))"

section \<open>Histories\<close>

text \<open>The calls that change the component, and what a history, latest call first, should have left.\<close>

datatype seccomp_op =
    Set_Default u8
  | Set_Syscall u16 u8
  | Audit u64 u64 u8 u64

fun seccomp_step :: "seccomp_op \<Rightarrow> seccomp \<Rightarrow> seccomp" where
  "seccomp_step (Set_Default a) s = seccomp_set_default_action a s"
| "seccomp_step (Set_Syscall n a) s = snd (seccomp_set_syscall_action n a s)"
| "seccomp_step (Audit t n a r) s = seccomp_audit_record t n a r s"

fun last_default :: "seccomp_op list \<Rightarrow> u8" where
  "last_default [] = SECCOMP_ACTION_ALLOW"
| "last_default (Set_Default a # h) = (if seccomp_action_valid a then a else last_default h)"
| "last_default (_ # h) = last_default h"

fun last_override :: "seccomp_op list \<Rightarrow> nat \<Rightarrow> u8 option" where
  "last_override [] n = None"
| "last_override (Set_Syscall m a # h) n = (if seccomp_action_valid a \<and> unat m = n then Some a else last_override h n)"
| "last_override (_ # h) n = last_override h n"

definition policy :: "seccomp_op list \<Rightarrow> u64 \<Rightarrow> u8" where
  "policy h n = (if unat n < 512 then case last_override h (unat n) of Some a \<Rightarrow> a | None \<Rightarrow> last_default h
                 else last_default h)"

fun audit_log :: "seccomp_op list \<Rightarrow> seccomp_audit_event_t list" where
  "audit_log [] = []"
| "audit_log (Audit t n a r # h) =
     (if seccomp_action_valid a
      then audit_log h @ [\<lparr>ev_sequence = of_nat (length (audit_log h)) + 1, ev_tid = t, ev_syscall_number = n,
                           ev_action = a, ev_result = r\<rparr>]
      else audit_log h)"
| "audit_log (_ # h) = audit_log h"

definition audit_list :: "seccomp \<Rightarrow> seccomp_audit_event_t list" where
  "audit_list s = ring_list (g_seccomp_audit_ring s) (unat (g_seccomp_audit_head s)) (unat (g_seccomp_audit_size s))"

section \<open>The filter\<close>

definition filter_ok :: "seccomp_op list \<Rightarrow> seccomp \<Rightarrow> bool" where
  "filter_ok h s \<longleftrightarrow> length (g_seccomp_overrides s) = 512 \<and> g_seccomp_default_action s = last_default h \<and>
     (\<forall>n<512. g_seccomp_overrides s ! n = (case last_override h n of None \<Rightarrow> SECCOMP_ACTION_UNSET | Some a \<Rightarrow> a))"

lemma audit_record_filter [simp]:
  "g_seccomp_overrides (seccomp_audit_record t n a r s) = g_seccomp_overrides s"
  "g_seccomp_default_action (seccomp_audit_record t n a r s) = g_seccomp_default_action s"
  by (simp_all add: seccomp_audit_record_def Let_def)

lemma filter_ok_step: "filter_ok h s \<Longrightarrow> filter_ok (p # h) (seccomp_step p s)"
proof (cases p)
  case (Set_Syscall m a)
  assume "filter_ok h s"
  then show ?thesis unfolding filter_ok_def Set_Syscall
    by (auto simp: seccomp_set_syscall_action_def nth_list_update SYSCALL_MAX_ENTRIES_def word_le_unat unat_ucast_up)
qed (auto simp: filter_ok_def seccomp_set_default_action_def)

lemma filter_ok_run: "filter_ok h (foldr seccomp_step h (seccomp_init s))"
proof (induction h)
  case Nil
  then show ?case by (simp add: filter_ok_def seccomp_init_def SYSCALL_MAX_ENTRIES_def)
qed (simp add: filter_ok_step)

lemma last_override_valid: "last_override h n = Some a \<Longrightarrow> seccomp_action_valid a"
  by (induction h n rule: last_override.induct) (auto split: if_splits)

lemma last_default_valid: "seccomp_action_valid (last_default h)"
  by (induction h rule: last_default.induct) (auto simp: seccomp_action_valid_def)

lemma unset_not_valid: "\<not> seccomp_action_valid SECCOMP_ACTION_UNSET"
  by (simp add: seccomp_action_valid_def SECCOMP_ACTION_UNSET_def SECCOMP_ACTION_ALLOW_def
      SECCOMP_ACTION_LOG_def SECCOMP_ACTION_ERRNO_def)

lemma policy_valid: "seccomp_action_valid (policy h n)"
  using last_override_valid last_default_valid by (auto simp: policy_def split: option.splits)

lemma filter_ok_policy:
  assumes "filter_ok h s"
  shows "seccomp_get_syscall_action n s = policy h n"
proof -
  have m: "n < ucast SYSCALL_MAX_ENTRIES \<longleftrightarrow> unat n < 512" by (simp add: SYSCALL_MAX_ENTRIES_def word_less_unat)
  show ?thesis
  proof (cases "last_override h (unat n)")
    case (Some a)
    then have "a \<noteq> SECCOMP_ACTION_UNSET" using last_override_valid unset_not_valid by metis
    then show ?thesis using assms Some by (simp add: filter_ok_def seccomp_get_syscall_action_def policy_def m)
  qed (use assms in \<open>simp add: filter_ok_def seccomp_get_syscall_action_def policy_def m\<close>)
qed

text \<open>
  C39. The filter's decision.  After initialisation and any history of calls, the action for a
  system call is the one last set for it by a call that was accepted; with none, the default last
  set by an accepted call; with none, ALLOW.  The action is always one of the three defined ones,
  also for numbers outside the table.
\<close>

theorem seccomp_policy:
  "seccomp_get_syscall_action n (foldr seccomp_step h (seccomp_init s)) = policy h n \<and>
   seccomp_action_valid (seccomp_get_syscall_action n (foldr seccomp_step h (seccomp_init s)))"
  using filter_ok_policy [OF filter_ok_run] policy_valid by simp

section \<open>The audit ring\<close>

text \<open>Writing over the oldest entry of a full ring.\<close>

lemma ring_overwrite_list:
  assumes "h < length buf"
  shows "ring_list (buf[h := x]) ((h + 1) mod length buf) (length buf) = tl (ring_list buf h (length buf)) @ [x]"
proof -
  have L: "0 < length buf" using assms by linarith
  have ok: "ring_ok buf h h (length buf)" using assms by (simp add: ring_ok_def)
  have "Suc (length buf - 1) = length buf" using L by simp
  then show ?thesis
    using ring_pop_list [OF ok L] ring_push_list [OF ring_pop_ok [OF ok L], of x] L by simp
qed

definition audit_ok :: "seccomp_op list \<Rightarrow> seccomp \<Rightarrow> bool" where
  "audit_ok h s \<longleftrightarrow> length (g_seccomp_audit_ring s) = 128 \<and> unat (g_seccomp_audit_head s) < 128 \<and>
     unat (g_seccomp_audit_size s) = min 128 (length (audit_log h)) \<and>
     audit_list s = drop (length (audit_log h) - 128) (audit_log h) \<and>
     g_seccomp_audit_sequence s = of_nat (length (audit_log h)) \<and>
     g_seccomp_audit_total s = of_nat (length (audit_log h))"

lemma set_filter_audit [simp]:
  "audit_ok h (seccomp_set_default_action a s) = audit_ok h s"
  "audit_ok h (snd (seccomp_set_syscall_action n a s)) = audit_ok h s"
  by (simp_all add: audit_ok_def audit_list_def seccomp_set_default_action_def seccomp_set_syscall_action_def)

lemma unat_audit_slot:
  fixes a b :: u16
  assumes "unat a + unat b < 65536"
  shows "unat (ucast ((ucast a + ucast b) mod SECCOMP_AUDIT_CAPACITY) :: u16) = (unat a + unat b) mod 128"
proof -
  have "unat ((ucast a + ucast b) mod SECCOMP_AUDIT_CAPACITY) = (unat a + unat b) mod 128"
    using assms by (simp add: unat_mod SECCOMP_AUDIT_CAPACITY_def unat_add_small unat_ucast_up)
  moreover have "(unat a + unat b) mod 128 < 2 ^ 16" by (rule less_trans [of _ 128]) simp_all
  ultimately show ?thesis by (subst unat_ucast_small) simp_all
qed

lemma audit_record_full:
  assumes ok: "audit_ok h s" and v: "seccomp_action_valid a" and full: "128 \<le> length (audit_log h)"
  shows "audit_ok (Audit t n a r # h) (seccomp_audit_record t n a r s)"
proof -
  let ?e = "\<lparr>ev_sequence = of_nat (length (audit_log h)) + 1, ev_tid = t, ev_syscall_number = n, ev_action = a, ev_result = r\<rparr>"
  let ?buf = "g_seccomp_audit_ring s" and ?hd = "unat (g_seccomp_audit_head s)"
  have a: "length ?buf = 128" "?hd < 128" "unat (g_seccomp_audit_size s) = 128" using ok full by (simp_all add: audit_ok_def)
  have sz: "ucast (g_seccomp_audit_size s) = SECCOMP_AUDIT_CAPACITY"
    using a(3) by (simp add: SECCOMP_AUDIT_CAPACITY_def word_eq_unat unat_ucast_up)
  have nx: "unat (ring_next (g_seccomp_audit_head s) SECCOMP_AUDIT_CAPACITY) = (?hd + 1) mod 128"
    by (subst unat_ring_next) (simp_all add: SECCOMP_AUDIT_CAPACITY_def)
  have "drop (length (audit_log h) - 128) (audit_log h) = ring_list ?buf ?hd 128" using ok a(3) by (simp add: audit_ok_def audit_list_def)
  then have l: "ring_list (?buf[?hd := ?e]) ((?hd + 1) mod 128) 128 = tl (drop (length (audit_log h) - 128) (audit_log h)) @ [?e]"
    using ring_overwrite_list [of ?hd ?buf ?e] a by simp
  have "length (audit_log h) - 127 = Suc (length (audit_log h) - 128)" using full by simp
  then show ?thesis using ok v full sz nx a l
    by (simp add: audit_ok_def audit_list_def seccomp_audit_record_def Let_def tl_drop drop_Suc [symmetric])
qed

lemma audit_record_room:
  assumes ok: "audit_ok h s" and v: "seccomp_action_valid a" and room: "length (audit_log h) < 128"
  shows "audit_ok (Audit t n a r # h) (seccomp_audit_record t n a r s)"
proof -
  let ?e = "\<lparr>ev_sequence = of_nat (length (audit_log h)) + 1, ev_tid = t, ev_syscall_number = n, ev_action = a, ev_result = r\<rparr>"
  let ?buf = "g_seccomp_audit_ring s" and ?hd = "unat (g_seccomp_audit_head s)" and ?n = "length (audit_log h)"
  have a: "length ?buf = 128" "?hd < 128" "unat (g_seccomp_audit_size s) = ?n" using ok room by (simp_all add: audit_ok_def)
  have sz: "ucast (g_seccomp_audit_size s) \<noteq> SECCOMP_AUDIT_CAPACITY"
    using a(3) room by (simp add: SECCOMP_AUDIT_CAPACITY_def word_eq_unat unat_ucast_up)
  have slot: "unat (ucast ((ucast (g_seccomp_audit_head s) + ucast (g_seccomp_audit_size s)) mod SECCOMP_AUDIT_CAPACITY) :: u16)
      = (?hd + ?n) mod 128"
    using a room by (subst unat_audit_slot) simp_all
  have n1: "unat (g_seccomp_audit_size s + 1) = ?n + 1" using a(3) room by (subst unat_Suc_small) simp_all
  have rk: "ring_ok ?buf ?hd ((?hd + ?n) mod 128) ?n" using a room by (simp add: ring_ok_def)
  have "audit_log h = ring_list ?buf ?hd ?n" using ok a(3) room by (simp add: audit_ok_def audit_list_def)
  then have "ring_list (?buf[(?hd + ?n) mod 128 := ?e]) ?hd (Suc ?n) = audit_log h @ [?e]"
    using ring_push_list [OF rk] a(1) room by simp
  then show ?thesis using ok v room sz slot n1 a
    by (simp add: audit_ok_def audit_list_def seccomp_audit_record_def Let_def)
qed

lemma audit_ok_skip [simp]:
  "audit_ok (Set_Default a # h) s = audit_ok h s" "audit_ok (Set_Syscall n a # h) s = audit_ok h s"
  by (simp_all add: audit_ok_def)

lemma audit_ok_step: "audit_ok h s \<Longrightarrow> audit_ok (p # h) (seccomp_step p s)"
proof (cases p)
  case (Audit t n a r)
  assume ok: "audit_ok h s"
  show ?thesis
  proof (cases "seccomp_action_valid a")
    case True
    then show ?thesis using audit_record_full [OF ok] audit_record_room [OF ok] Audit
      by (cases "length (audit_log h) < 128") simp_all
  qed (use ok Audit in \<open>simp add: seccomp_audit_record_def audit_ok_def\<close>)
qed simp_all

lemma audit_ok_run: "audit_ok h (foldr seccomp_step h (seccomp_init s))"
proof (induction h)
  case Nil
  then show ?case by (simp add: audit_ok_def audit_list_def seccomp_init_def SECCOMP_AUDIT_CAPACITY_def)
qed (simp add: audit_ok_step)

lemma audit_latest_ok:
  assumes ok: "audit_ok h s"
  shows "seccomp_audit_latest True s = (if audit_log h = [] then (- 2, None) else (0, Some (last (audit_log h))))"
proof -
  have "seccomp_audit_latest True s = (0, Some (last (audit_log h)))" if ne: "audit_log h \<noteq> []"
  proof -
    let ?n = "unat (g_seccomp_audit_size s)" and ?h = "g_seccomp_audit_head s"
    have n: "0 < ?n" "?n \<le> 128" "unat ?h < 128" "length (g_seccomp_audit_ring s) = 128" using ok ne by (simp_all add: audit_ok_def)
    have d: "unat (g_seccomp_audit_size s - 1) = ?n - 1" using n(1) by (subst unat_diff_le) (simp_all add: word_le_unat)
    have eq: "(ucast ?h + ucast (g_seccomp_audit_size s) - 1 :: u32) = ucast ?h + ucast (g_seccomp_audit_size s - 1)"
      using n d by (simp add: word_eq_unat unat_add_small unat_ucast_up unat_diff_le word_le_unat)
    have "g_seccomp_audit_size s \<noteq> 0" using n(1) by auto
    then have "seccomp_audit_latest True s = (0, Some (g_seccomp_audit_ring s ! ((unat ?h + (?n - 1)) mod 128)))"
      using n d by (simp only: seccomp_audit_latest_def Let_def eq) (simp add: unat_audit_slot)
    also have "g_seccomp_audit_ring s ! ((unat ?h + (?n - 1)) mod 128) = last (audit_list s)"
      using n by (simp add: audit_list_def last_conv_nth nth_ring_list)
    also have "last (audit_list s) = last (audit_log h)" using ok ne by (simp add: audit_ok_def)
    finally show ?thesis .
  qed
  moreover have "seccomp_audit_latest True s = (- 2, None)" if "audit_log h = []"
    using ok that by (simp add: audit_ok_def seccomp_audit_latest_def word_eq_unat)
  ultimately show ?thesis by simp
qed

text \<open>
  C40. The audit trail.  After initialisation and any history of calls, the ring holds the last
  128 audited events in order, numbered from one without gaps; the counter counts them all, and the
  latest event is the last one audited (status -2 when there is none).
\<close>

theorem seccomp_audit_trail:
  fixes h :: "seccomp_op list" and start :: seccomp
  defines "s \<equiv> foldr seccomp_step h (seccomp_init start)"
  shows "audit_list s = drop (length (audit_log h) - 128) (audit_log h) \<and>
    seccomp_audit_count s = of_nat (length (audit_log h)) \<and>
    seccomp_audit_latest True s = (if audit_log h = [] then (- 2, None) else (0, Some (last (audit_log h))))"
proof -
  have ok: "audit_ok h s" unfolding s_def by (rule audit_ok_run)
  then show ?thesis using audit_latest_ok [OF ok] by (simp add: audit_ok_def seccomp_audit_count_def)
qed

end
