(* ===== verification/Vmm.thy ===== *)
theory Vmm
  imports Pmm
begin

text \<open>
  The virtual memory manager, kernel/mm/vmm.c: four-level page tables held in physical memory,
  which the kernel reaches at its physical address.  \<open>vm_mem\<close> gives the 64-bit word at an address; a
  table is the address of its first entry.  Operations that allocate tables work on the pair of
  this state and the page allocator's.  A pointer written through an output parameter is part of
  the result, and a failure (return value 0) is \<open>None\<close>.  The TLB is not part of the state: every
  change of a leaf entry is followed by its invalidation.
\<close>

section \<open>Constants and state\<close>

definition VMM_ENTRIES_PER_TABLE :: u64 where "VMM_ENTRIES_PER_TABLE = 512"
definition VMM_INDEX_MASK :: u64 where "VMM_INDEX_MASK = 0x1FF"
definition VMM_PAGE_PRESENT :: u64 where "VMM_PAGE_PRESENT = 1"
definition VMM_PAGE_WRITABLE :: u64 where "VMM_PAGE_WRITABLE = 2"
definition VMM_PAGE_USER :: u64 where "VMM_PAGE_USER = 4"
definition VMM_PAGE_SIZE :: u64 where "VMM_PAGE_SIZE = 0x80"
definition VMM_PHYS_MASK :: u64 where "VMM_PHYS_MASK = 0x000FFFFFFFFFF000"
definition VMM_PAGE_OFFSET_MASK :: u64 where "VMM_PAGE_OFFSET_MASK = 0xFFF"
definition VMM_HUGE2M_SIZE :: u64 where "VMM_HUGE2M_SIZE = 2 * 1024 * 1024"
definition VMM_HUGE2M_OFFSET_MASK :: u64 where "VMM_HUGE2M_OFFSET_MASK = VMM_HUGE2M_SIZE - 1"
definition VMM_HUGE2M_BASE_MASK :: u64 where "VMM_HUGE2M_BASE_MASK = VMM_PHYS_MASK AND NOT VMM_HUGE2M_OFFSET_MASK"
definition VMM_KASLR_WINDOW_BASE :: u64 where "VMM_KASLR_WINDOW_BASE = 0x40000000"
definition VMM_KASLR_WINDOW_SIZE :: u64 where "VMM_KASLR_WINDOW_SIZE = 0x20000000"
definition VMM_KERNEL_IMAGE_MAX_SIZE :: u64 where "VMM_KERNEL_IMAGE_MAX_SIZE = 0x04000000"
definition VMM_KERNEL_HEAP_GUARD_SIZE :: u64 where "VMM_KERNEL_HEAP_GUARD_SIZE = VMM_HUGE2M_SIZE"
definition VMM_KERNEL_HEAP_SIZE :: u64 where "VMM_KERNEL_HEAP_SIZE = 0x10000000"
definition VMM_MAP_WRITABLE :: u64 where "VMM_MAP_WRITABLE = push_bit 1 1"
definition VMM_MAP_USER :: u64 where "VMM_MAP_USER = push_bit 2 1"
definition VMM_MAP_NX :: u64 where "VMM_MAP_NX = push_bit 63 1"

record vmm_kernel_layout_t =
  kaslr_window_base :: u64
  kaslr_window_size :: u64
  kaslr_slide :: u64
  kernel_image_base :: u64
  kernel_image_size :: u64
  kernel_heap_base :: u64
  kernel_heap_size :: u64

record vmm =
  vm_mem :: "u64 \<Rightarrow> u64"
  g_pml4 :: u64
  g_kernel_layout :: vmm_kernel_layout_t
  g_kernel_heap_next :: u64
  g_kernel_heap_limit :: u64

text \<open>\<^verbatim>\<open>table[index]\<close> read and written.\<close>

definition entry_addr :: "u64 \<Rightarrow> u16 \<Rightarrow> u64" where
  "entry_addr table index = table + ucast index * 8"

abbreviation entry_at :: "u64 \<Rightarrow> u16 \<Rightarrow> vmm \<Rightarrow> u64" where
  "entry_at table index v \<equiv> vm_mem v (entry_addr table index)"

definition set_entry :: "u64 \<Rightarrow> u16 \<Rightarrow> u64 \<Rightarrow> vmm \<Rightarrow> vmm" where
  "set_entry table index e v = v\<lparr>vm_mem := (vm_mem v)(entry_addr table index := e)\<rparr>"

text \<open>A loop that writes \<^verbatim>\<open>table[i] = f(i)\<close> for every \<open>i < 512\<close>.\<close>

definition fill_table :: "u64 \<Rightarrow> (u16 \<Rightarrow> u64) \<Rightarrow> vmm \<Rightarrow> vmm" where
  "fill_table table f v = v\<lparr>vm_mem := (\<lambda>a.
     let offset = a - table in
     if offset < VMM_ENTRIES_PER_TABLE * 8 \<and> offset mod 8 = 0 then f (ucast (offset div 8)) else vm_mem v a)\<rparr>"

section \<open>Indices and entries\<close>

definition vmm_pml4_index :: "u64 \<Rightarrow> u16" where
  "vmm_pml4_index virt_addr = ucast (drop_bit 39 virt_addr AND VMM_INDEX_MASK)"

definition vmm_pdpt_index :: "u64 \<Rightarrow> u16" where
  "vmm_pdpt_index virt_addr = ucast (drop_bit 30 virt_addr AND VMM_INDEX_MASK)"

definition vmm_pd_index :: "u64 \<Rightarrow> u16" where
  "vmm_pd_index virt_addr = ucast (drop_bit 21 virt_addr AND VMM_INDEX_MASK)"

definition vmm_pt_index :: "u64 \<Rightarrow> u16" where
  "vmm_pt_index virt_addr = ucast (drop_bit 12 virt_addr AND VMM_INDEX_MASK)"

definition vmm_entry_to_table :: "u64 \<Rightarrow> u64" where
  "vmm_entry_to_table entry = entry AND VMM_PHYS_MASK"

definition vmm_range_end :: "u64 \<Rightarrow> u64 \<Rightarrow> u64 option" where
  "vmm_range_end base sz = (if base > UINT64_MAX - sz then None else Some (base + sz))"

definition vmm_entry_to_map_flags :: "u64 \<Rightarrow> u64" where
  "vmm_entry_to_map_flags entry =
     (let flags = 0;
          flags = (if entry AND VMM_PAGE_WRITABLE \<noteq> 0 then flags OR VMM_MAP_WRITABLE else flags);
          flags = (if entry AND VMM_PAGE_USER \<noteq> 0 then flags OR VMM_MAP_USER else flags)
      in if entry AND VMM_MAP_NX \<noteq> 0 then flags OR VMM_MAP_NX else flags)"

definition vmm_zero_page :: "u64 \<Rightarrow> vmm \<Rightarrow> vmm" where
  "vmm_zero_page table v = fill_table table (\<lambda>_. 0) v"

section \<open>Walking\<close>

definition split_child_flags :: "u64 \<Rightarrow> u64" where
  "split_child_flags pde =
     (let child_flags = VMM_PAGE_PRESENT;
          child_flags = (if pde AND VMM_PAGE_WRITABLE \<noteq> 0 then child_flags OR VMM_PAGE_WRITABLE else child_flags);
          child_flags = (if pde AND VMM_PAGE_USER \<noteq> 0 then child_flags OR VMM_PAGE_USER else child_flags)
      in if pde AND VMM_MAP_NX \<noteq> 0 then child_flags OR VMM_MAP_NX else child_flags)"

definition split_child :: "u64 \<Rightarrow> u16 \<Rightarrow> u64" where
  "split_child pde i =
     (let huge_base = pde AND VMM_HUGE2M_BASE_MASK;
          phys = huge_base + ucast i * MM_PAGE_SIZE
      in (phys AND VMM_PHYS_MASK) OR split_child_flags pde)"

definition vmm_split_large_pd_entry :: "u64 \<Rightarrow> u16 \<Rightarrow> vmm \<times> pmm \<Rightarrow> int \<times> vmm \<times> pmm" where
  "vmm_split_large_pd_entry pd index vp =
     (let (v, p) = vp; pde = entry_at pd index v in
      if pde AND VMM_PAGE_PRESENT = 0 \<or> pde AND VMM_PAGE_SIZE = 0 then (0, v, p)
      else
        let (pt, p) = pmm_alloc_page p in
        if pt = 0 then (0, v, p)
        else
          let v = vmm_zero_page pt v;
              v = fill_table pt (split_child pde) v;
              pd_flags = VMM_PAGE_PRESENT OR VMM_PAGE_WRITABLE;
              pd_flags = (if pde AND VMM_PAGE_USER \<noteq> 0 then pd_flags OR VMM_PAGE_USER else pd_flags)
          in (1, set_entry pd index ((pt AND VMM_PHYS_MASK) OR pd_flags) v, p))"

definition vmm_get_or_create_next_table :: "u64 \<Rightarrow> u16 \<Rightarrow> vmm \<times> pmm \<Rightarrow> u64 option \<times> vmm \<times> pmm" where
  "vmm_get_or_create_next_table table index vp =
     (let (v, p) = vp; entry = entry_at table index v in
      if entry AND VMM_PAGE_PRESENT \<noteq> 0 then
        (if entry AND VMM_PAGE_SIZE \<noteq> 0 then (None, v, p) else (Some (vmm_entry_to_table entry), v, p))
      else
        let (nxt, p) = pmm_alloc_page p in
        if nxt = 0 then (None, v, p)
        else (Some nxt,
              set_entry table index ((nxt AND VMM_PHYS_MASK) OR VMM_PAGE_PRESENT OR VMM_PAGE_WRITABLE)
                (vmm_zero_page nxt v), p))"

text \<open>The upper two levels of the walk take the same branch on \<^verbatim>\<open>create\<close>.\<close>

definition walk_upper :: "bool \<Rightarrow> u64 \<Rightarrow> u16 \<Rightarrow> vmm \<times> pmm \<Rightarrow> u64 option \<times> vmm \<times> pmm" where
  "walk_upper create table index vp =
     (if create then vmm_get_or_create_next_table table index vp
      else
        let e = entry_at table index (fst vp) in
        if e AND VMM_PAGE_PRESENT = 0 \<or> e AND VMM_PAGE_SIZE \<noteq> 0 then (None, vp)
        else (Some (vmm_entry_to_table e), vp))"

definition walk_lower :: "bool \<Rightarrow> u64 \<Rightarrow> u16 \<Rightarrow> vmm \<times> pmm \<Rightarrow> u64 option \<times> vmm \<times> pmm" where
  "walk_lower create pd l2 vp =
     (if create then
        (case vmm_get_or_create_next_table pd l2 vp of
           (Some pt, vp) \<Rightarrow> (Some pt, vp)
         | (None, vp) \<Rightarrow>
             if entry_at pd l2 (fst vp) AND VMM_PAGE_PRESENT \<noteq> 0 \<and> entry_at pd l2 (fst vp) AND VMM_PAGE_SIZE \<noteq> 0
             then let (split, vp) = vmm_split_large_pd_entry pd l2 vp in
                  if split \<noteq> 0 then vmm_get_or_create_next_table pd l2 vp else (None, vp)
             else (None, vp))
      else if entry_at pd l2 (fst vp) AND VMM_PAGE_PRESENT = 0 then (None, vp)
      else if entry_at pd l2 (fst vp) AND VMM_PAGE_SIZE \<noteq> 0 then
        (let (split, vp) = vmm_split_large_pd_entry pd l2 vp in
         if split = 0 then (None, vp) else (Some (vmm_entry_to_table (entry_at pd l2 (fst vp))), vp))
      else (Some (vmm_entry_to_table (entry_at pd l2 (fst vp))), vp))"

definition vmm_walk_to_pt :: "u64 \<Rightarrow> bool \<Rightarrow> vmm \<times> pmm \<Rightarrow> (u64 \<times> u16) option \<times> vmm \<times> pmm" where
  "vmm_walk_to_pt virt_addr create vp =
     (if g_pml4 (fst vp) = 0 then (None, vp)
      else
        let l4 = vmm_pml4_index virt_addr; l3 = vmm_pdpt_index virt_addr;
            l2 = vmm_pd_index virt_addr; l1 = vmm_pt_index virt_addr
        in case walk_upper create (g_pml4 (fst vp)) l4 vp of
             (None, vp) \<Rightarrow> (None, vp)
           | (Some pdpt, vp) \<Rightarrow>
               (case walk_upper create pdpt l3 vp of
                  (None, vp) \<Rightarrow> (None, vp)
                | (Some pd, vp) \<Rightarrow>
                    (case walk_lower create pd l2 vp of
                       (None, vp) \<Rightarrow> (None, vp)
                     | (Some pt, vp) \<Rightarrow> (Some (pt, l1), vp))))"

section \<open>Public operations\<close>

text \<open>\<open>cr3\<close> is the control register's value at boot.\<close>

definition vmm_init :: "u64 \<Rightarrow> vmm \<Rightarrow> int \<times> vmm" where
  "vmm_init cr3 v =
     (let v = v\<lparr>g_pml4 := cr3 AND VMM_PHYS_MASK\<rparr> in
      if g_pml4 v = 0 then (0, v)
      else
        let image_base = VMM_KASLR_WINDOW_BASE + 0;
            layout = (g_kernel_layout v)\<lparr>kaslr_window_base := VMM_KASLR_WINDOW_BASE,
              kaslr_window_size := VMM_KASLR_WINDOW_SIZE, kaslr_slide := 0,
              kernel_image_base := image_base, kernel_image_size := VMM_KERNEL_IMAGE_MAX_SIZE\<rparr>;
            v = v\<lparr>g_kernel_layout := layout\<rparr>
        in case vmm_range_end image_base VMM_KERNEL_IMAGE_MAX_SIZE of
             None \<Rightarrow> (0, v)
           | Some image_end \<Rightarrow>
               (case vmm_range_end image_end VMM_KERNEL_HEAP_GUARD_SIZE of
                  None \<Rightarrow> (0, v)
                | Some heap_base \<Rightarrow>
                    let layout = layout\<lparr>kernel_heap_base := heap_base, kernel_heap_size := VMM_KERNEL_HEAP_SIZE\<rparr>;
                        v = v\<lparr>g_kernel_layout := layout\<rparr>
                    in case vmm_range_end heap_base VMM_KERNEL_HEAP_SIZE of
                         None \<Rightarrow> (0, v)
                       | Some heap_limit \<Rightarrow> (1, v\<lparr>g_kernel_heap_limit := heap_limit, g_kernel_heap_next := heap_base\<rparr>)))"

definition map_entry_flags :: "u64 \<Rightarrow> u64" where
  "map_entry_flags flags =
     (let entry_flags = VMM_PAGE_PRESENT;
          entry_flags = (if flags AND VMM_MAP_WRITABLE \<noteq> 0 then entry_flags OR VMM_PAGE_WRITABLE else entry_flags);
          entry_flags = (if flags AND VMM_MAP_USER \<noteq> 0 then entry_flags OR VMM_PAGE_USER else entry_flags)
      in if flags AND VMM_MAP_NX \<noteq> 0 then entry_flags OR VMM_MAP_NX else entry_flags)"

definition vmm_map_page :: "u64 \<Rightarrow> u64 \<Rightarrow> u64 \<Rightarrow> vmm \<times> pmm \<Rightarrow> int \<times> vmm \<times> pmm" where
  "vmm_map_page virt_addr phys_addr flags vp =
     (if virt_addr AND VMM_PAGE_OFFSET_MASK \<noteq> 0 \<or> phys_addr AND VMM_PAGE_OFFSET_MASK \<noteq> 0 then (0, vp)
      else case vmm_walk_to_pt virt_addr True vp of
          (None, vp) \<Rightarrow> (0, vp)
        | (Some (pt, pt_index), v, p) \<Rightarrow>
            if entry_at pt pt_index v AND VMM_PAGE_PRESENT \<noteq> 0 then (0, v, p)
            else (1, set_entry pt pt_index ((phys_addr AND VMM_PHYS_MASK) OR map_entry_flags flags) v, p))"

definition vmm_unmap_page :: "u64 \<Rightarrow> vmm \<times> pmm \<Rightarrow> int \<times> vmm \<times> pmm" where
  "vmm_unmap_page virt_addr vp =
     (if virt_addr AND VMM_PAGE_OFFSET_MASK \<noteq> 0 then (0, vp)
      else case vmm_walk_to_pt virt_addr False vp of
          (None, vp) \<Rightarrow> (0, vp)
        | (Some (pt, pt_index), v, p) \<Rightarrow>
            if entry_at pt pt_index v AND VMM_PAGE_PRESENT = 0 then (0, v, p)
            else (1, set_entry pt pt_index 0 v, p))"

definition vmm_translate :: "u64 \<Rightarrow> bool \<Rightarrow> vmm \<Rightarrow> u64 option" where
  "vmm_translate virt_addr has_out v =
     (if g_pml4 v = 0 \<or> \<not> has_out then None
      else
        let pml4e = entry_at (g_pml4 v) (vmm_pml4_index virt_addr) v in
        if pml4e AND VMM_PAGE_PRESENT = 0 then None
        else
          let pdpte = entry_at (vmm_entry_to_table pml4e) (vmm_pdpt_index virt_addr) v in
          if pdpte AND VMM_PAGE_PRESENT = 0 then None
          else if pdpte AND VMM_PAGE_SIZE \<noteq> 0 then
            Some ((pdpte AND VMM_PHYS_MASK) OR (virt_addr AND (push_bit 30 1 - 1)))
          else
            let pde = entry_at (vmm_entry_to_table pdpte) (vmm_pd_index virt_addr) v in
            if pde AND VMM_PAGE_PRESENT = 0 then None
            else if pde AND VMM_PAGE_SIZE \<noteq> 0 then
              Some ((pde AND VMM_PHYS_MASK) OR (virt_addr AND (push_bit 21 1 - 1)))
            else
              let pte = entry_at (vmm_entry_to_table pde) (vmm_pt_index virt_addr) v in
              if pte AND VMM_PAGE_PRESENT = 0 then None
              else Some ((pte AND VMM_PHYS_MASK) OR (virt_addr AND VMM_PAGE_OFFSET_MASK)))"

definition vmm_query_mapping :: "u64 \<Rightarrow> bool \<Rightarrow> bool \<Rightarrow> vmm \<Rightarrow> (u64 \<times> u64) option" where
  "vmm_query_mapping virt_addr has_phys has_flags v =
     (if g_pml4 v = 0 \<or> \<not> has_phys \<or> \<not> has_flags then None
      else
        let pml4e = entry_at (g_pml4 v) (vmm_pml4_index virt_addr) v in
        if pml4e AND VMM_PAGE_PRESENT = 0 then None
        else
          let pdpte = entry_at (vmm_entry_to_table pml4e) (vmm_pdpt_index virt_addr) v in
          if pdpte AND VMM_PAGE_PRESENT = 0 then None
          else if pdpte AND VMM_PAGE_SIZE \<noteq> 0 then
            Some ((pdpte AND VMM_PHYS_MASK) OR (virt_addr AND (push_bit 30 1 - 1)), vmm_entry_to_map_flags pdpte)
          else
            let pde = entry_at (vmm_entry_to_table pdpte) (vmm_pd_index virt_addr) v in
            if pde AND VMM_PAGE_PRESENT = 0 then None
            else if pde AND VMM_PAGE_SIZE \<noteq> 0 then
              Some ((pde AND VMM_PHYS_MASK) OR (virt_addr AND (push_bit 21 1 - 1)), vmm_entry_to_map_flags pde)
            else
              let pte = entry_at (vmm_entry_to_table pde) (vmm_pt_index virt_addr) v in
              if pte AND VMM_PAGE_PRESENT = 0 then None
              else Some ((pte AND VMM_PHYS_MASK) OR (virt_addr AND VMM_PAGE_OFFSET_MASK), vmm_entry_to_map_flags pte))"

text \<open>
  The mapping loop stops early when a page cannot be allocated or mapped; it returns the first
  address not mapped.  The second loop undoes a partial allocation, page by page from \<open>addr\<close> up to
  \<open>current\<close>; nothing in its code bounds it, so a run that does not end is \<open>None\<close>.
\<close>

fun map_loop :: "nat \<Rightarrow> u64 \<Rightarrow> u64 \<Rightarrow> vmm \<times> pmm \<Rightarrow> u64 \<times> vmm \<times> pmm" where
  "map_loop 0 current flags vp = (current, vp)"
| "map_loop (Suc n) current flags (v, p) =
     (let (phys_page, p1) = pmm_alloc_page p in
      if phys_page = 0 then (current, v, p1)
      else
        let (mapped, v2, p2) = vmm_map_page current phys_page (flags OR VMM_MAP_WRITABLE) (v, p1) in
        if mapped = 0 then (current, v2, pmm_free_page phys_page p2)
        else map_loop n (current + MM_PAGE_SIZE) flags (v2, p2))"

partial_function (option) unmap_loop :: "u64 \<Rightarrow> u64 \<Rightarrow> vmm \<times> pmm \<Rightarrow> (vmm \<times> pmm) option" where
  [code]: "unmap_loop addr current vp =
     (if \<not> addr < current then Some vp
      else case vmm_translate addr True (fst vp) of
          None \<Rightarrow> unmap_loop (addr + MM_PAGE_SIZE) current vp
        | Some phys \<Rightarrow>
            (case vmm_unmap_page addr vp of
               (_, v, p) \<Rightarrow> unmap_loop (addr + MM_PAGE_SIZE) current (v, pmm_free_page (phys AND VMM_PHYS_MASK) p)))"

definition vmm_alloc_kernel_pages :: "u64 \<Rightarrow> u64 \<Rightarrow> vmm \<times> pmm \<Rightarrow> (u64 \<times> vmm \<times> pmm) option" where
  "vmm_alloc_kernel_pages page_count flags vp =
     (if page_count = 0 then Some (0, vp)
      else if g_pml4 (fst vp) = 0 then Some (0, vp)
      else
        let start = g_kernel_heap_next (fst vp);
            requested_bytes = page_count * MM_PAGE_SIZE
        in if requested_bytes div MM_PAGE_SIZE \<noteq> page_count then Some (0, vp)
           else if start > UINT64_MAX - requested_bytes then Some (0, vp)
           else
             let expected_end = start + requested_bytes in
             if start < kernel_heap_base (g_kernel_layout (fst vp)) \<or> expected_end > g_kernel_heap_limit (fst vp)
             then Some (0, vp)
             else
               let (current, v, p) = map_loop (unat page_count) start flags vp in
               if current \<noteq> expected_end
               then map_option (\<lambda>vp. (0, vp)) (unmap_loop start current (v, p))
               else Some (start, v\<lparr>g_kernel_heap_next := current\<rparr>, p))"

definition vmm_get_kernel_layout :: "vmm \<Rightarrow> vmm_kernel_layout_t" where
  "vmm_get_kernel_layout v = g_kernel_layout v"

end
