(* ===== verification/Vmm_Tree.thy ===== *)
theory Vmm_Tree
  imports Vmm Pmm_Props "HOL-Library.Sublist"
begin

text \<open>
  The shape of the page tables: paths of indices from the root, the tables they lead to, and the
  invariant that distinct paths lead to distinct tables.  A write to one entry then changes only
  the paths that go through it.
\<close>

section \<open>Entries\<close>

abbreviation present :: "u64 \<Rightarrow> bool" where "present e \<equiv> e AND VMM_PAGE_PRESENT \<noteq> 0"
abbreviation large :: "u64 \<Rightarrow> bool" where "large e \<equiv> e AND VMM_PAGE_SIZE \<noteq> 0"

lemma and_push_bit_1: "(x :: u64) AND push_bit k 1 \<noteq> 0 \<longleftrightarrow> bit x k"
  by (simp add: and_exp_eq_0_iff_not_bit)

lemma entry_bits:
  "present e \<longleftrightarrow> bit e 0" "e AND VMM_PAGE_WRITABLE \<noteq> 0 \<longleftrightarrow> bit e 1" "e AND VMM_PAGE_USER \<noteq> 0 \<longleftrightarrow> bit e 2"
  "large e \<longleftrightarrow> bit e 7" "e AND VMM_MAP_NX \<noteq> 0 \<longleftrightarrow> bit e 63"
  "e AND VMM_MAP_WRITABLE \<noteq> 0 \<longleftrightarrow> bit e 1" "e AND VMM_MAP_USER \<noteq> 0 \<longleftrightarrow> bit e 2"
  using and_push_bit_1 [of e 0] and_push_bit_1 [of e 1] and_push_bit_1 [of e 2] and_push_bit_1 [of e 7] and_push_bit_1 [of e 63]
  by (simp_all add: VMM_PAGE_PRESENT_def VMM_PAGE_WRITABLE_def VMM_PAGE_USER_def VMM_PAGE_SIZE_def
      VMM_MAP_NX_def VMM_MAP_WRITABLE_def VMM_MAP_USER_def)

lemma bit_flags:
  "bit VMM_PAGE_PRESENT n \<longleftrightarrow> n = 0" "bit VMM_PAGE_WRITABLE n \<longleftrightarrow> n = 1" "bit VMM_PAGE_USER n \<longleftrightarrow> n = 2"
  "bit VMM_PAGE_SIZE n \<longleftrightarrow> n = 7" "bit VMM_MAP_NX n \<longleftrightarrow> n = 63" "bit VMM_MAP_WRITABLE n \<longleftrightarrow> n = 1"
  "bit VMM_MAP_USER n \<longleftrightarrow> n = 2"
proof -
  have p: "bit (push_bit k 1 :: u64) n \<longleftrightarrow> n = k" if "k < 64" for k
    using that by (auto simp: bit_simps)
  show "bit VMM_PAGE_PRESENT n \<longleftrightarrow> n = 0" using p [of 0] by (simp add: VMM_PAGE_PRESENT_def)
  show "bit VMM_PAGE_WRITABLE n \<longleftrightarrow> n = 1" using p [of 1] by (simp add: VMM_PAGE_WRITABLE_def)
  show "bit VMM_PAGE_USER n \<longleftrightarrow> n = 2" using p [of 2] by (simp add: VMM_PAGE_USER_def)
  show "bit VMM_PAGE_SIZE n \<longleftrightarrow> n = 7" using p [of 7] by (simp add: VMM_PAGE_SIZE_def)
  show "bit VMM_MAP_NX n \<longleftrightarrow> n = 63" using p [of 63] by (simp add: VMM_MAP_NX_def)
  show "bit VMM_MAP_WRITABLE n \<longleftrightarrow> n = 1" using p [of 1] by (simp add: VMM_MAP_WRITABLE_def)
  show "bit VMM_MAP_USER n \<longleftrightarrow> n = 2" using p [of 2] by (simp add: VMM_MAP_USER_def)
qed

lemma bit_phys_mask: "bit VMM_PHYS_MASK n \<longleftrightarrow> 12 \<le> n \<and> n < 52"
proof -
  have m: "VMM_PHYS_MASK = push_bit 12 (mask 40)" by (simp add: VMM_PHYS_MASK_def mask_eq_exp_minus_1)
  show ?thesis unfolding m by (auto simp: bit_simps)
qed

lemma bit_offset_mask: "bit VMM_PAGE_OFFSET_MASK n \<longleftrightarrow> n < 12"
proof -
  have m: "VMM_PAGE_OFFSET_MASK = mask 12" by (simp add: VMM_PAGE_OFFSET_MASK_def mask_eq_exp_minus_1)
  show ?thesis unfolding m by (auto simp: bit_simps)
qed

lemma bit_huge_mask: "bit VMM_HUGE2M_BASE_MASK n \<longleftrightarrow> 21 \<le> n \<and> n < 52"
proof -
  have m: "VMM_HUGE2M_OFFSET_MASK = mask 21"
    by (simp add: VMM_HUGE2M_OFFSET_MASK_def VMM_HUGE2M_SIZE_def mask_eq_exp_minus_1)
  show ?thesis unfolding VMM_HUGE2M_BASE_MASK_def m by (auto simp: bit_simps bit_phys_mask)
qed

lemmas entry_bit_simps = bit_simps bit_flags bit_phys_mask bit_offset_mask bit_huge_mask

lemma bit_map_entry_flags:
  "bit (map_entry_flags f) n \<longleftrightarrow> n = 0 \<or> n \<in> {1, 2, 63} \<and> bit f n"
  unfolding map_entry_flags_def Let_def entry_bits by (auto simp: bit_simps bit_flags)

lemma bit_split_child_flags:
  "bit (split_child_flags f) n \<longleftrightarrow> n = 0 \<or> n \<in> {1, 2, 63} \<and> bit f n"
  unfolding split_child_flags_def Let_def entry_bits by (auto simp: bit_simps bit_flags)

lemma bit_entry_to_map_flags: "bit (vmm_entry_to_map_flags e) n \<longleftrightarrow> n \<in> {1, 2, 63} \<and> bit e n"
  unfolding vmm_entry_to_map_flags_def Let_def entry_bits by (auto simp: bit_simps bit_flags)

section \<open>Table cells\<close>

definition page_aligned :: "u64 \<Rightarrow> bool" where
  "page_aligned a \<longleftrightarrow> a AND VMM_PAGE_OFFSET_MASK = 0"

lemma page_aligned_dvd: "page_aligned a \<longleftrightarrow> 4096 dvd unat a"
proof -
  have "VMM_PAGE_OFFSET_MASK = mask 12" by (simp add: VMM_PAGE_OFFSET_MASK_def mask_eq_exp_minus_1)
  then have "a AND VMM_PAGE_OFFSET_MASK = take_bit 12 a" by (simp add: take_bit_eq_mask)
  moreover have "unat (take_bit 12 a) = unat a mod 4096" by (simp only: unsigned_take_bit_eq) (simp add: take_bit_eq_mod)
  ultimately show ?thesis unfolding page_aligned_def by (metis dvd_eq_mod_eq_0 unat_eq_0)
qed

lemma page_aligned_bits: "page_aligned a \<longleftrightarrow> (\<forall>n<12. \<not> bit a n)"
proof -
  have "(\<forall>n<64. \<not> (bit a n \<and> n < 12)) \<longleftrightarrow> (\<forall>n<12. \<not> bit a n)" 
  proof (intro iffI allI impI)
    fix n :: nat
    assume "\<forall>n<64. \<not> (bit a n \<and> n < 12)" "n < 12"
    moreover from \<open>n < 12\<close> have "n < 64" by simp
    ultimately show "\<not> bit a n" by blast
  qed blast
  then show ?thesis by (simp add: page_aligned_def bit_eq_iff bit_and_iff bit_offset_mask)
qed

lemma page_aligned_table [simp]: "page_aligned (vmm_entry_to_table e)"
  by (simp add: page_aligned_bits vmm_entry_to_table_def bit_and_iff bit_phys_mask)

lemma unat_entry_addr:
  assumes "page_aligned b" "i < 512"
  shows "unat (entry_addr b i) = unat b + unat i * 8"
proof -
  obtain k where k: "unat b = 4096 * k" using assms(1) by (auto simp: page_aligned_dvd elim: dvdE)
  have i: "unat i < 512" using assms(2) by (simp add: word_less_unat)
  have "unat b < 2 ^ 64" using unsigned_less [of b] by simp
  then have "4096 * k + 4096 \<le> 2 ^ 64" unfolding k by simp
  then have le: "unat b + unat i * 8 < 2 ^ 64" using i k by linarith
  have m: "unat (ucast i * 8 :: u64) = unat i * 8"
    using i by (subst unat_mult_small) (simp_all add: unat_ucast_up)
  show ?thesis unfolding entry_addr_def using le m by (subst unat_add_small) simp_all
qed

lemma entry_addr_inj:
  assumes "page_aligned b" "page_aligned c" "i < 512" "j < 512" "entry_addr b i = entry_addr c j"
  shows "b = c \<and> i = j"
proof -
  have e: "unat b + unat i * 8 = unat c + unat j * 8"
    using unat_entry_addr [OF assms(1,3)] unat_entry_addr [OF assms(2,4)] assms(5) by simp
  obtain k l where k: "unat b = 4096 * k" "unat c = 4096 * l"
    using assms(1,2) by (auto simp: page_aligned_dvd elim!: dvdE)
  have i: "unat i < 512" "unat j < 512" using assms(3,4) by (simp_all add: word_less_unat)
  have "k = l" using e k i by linarith
  then show ?thesis using e k by (simp add: word_eq_unat)
qed

lemma fill_table_mem:
  assumes "page_aligned b" "page_aligned c" "j < 512"
  shows "vm_mem (fill_table b f v) (entry_addr c j) = (if c = b then f j else vm_mem v (entry_addr c j))"
proof -
  have j: "unat j < 512" using assms(3) by (simp add: word_less_unat)
  show ?thesis
  proof (cases "c = b")
    case True
    have "entry_addr c j - b = ucast j * 8" by (simp add: entry_addr_def True)
    moreover have u: "unat (ucast j * 8 :: u64) = unat j * 8"
      using j by (subst unat_mult_small) (simp_all add: unat_ucast_up)
    moreover have "(ucast j * 8 :: u64) < VMM_ENTRIES_PER_TABLE * 8" using u j by (simp add: word_less_unat VMM_ENTRIES_PER_TABLE_def)
    moreover have "(ucast j * 8 :: u64) mod 8 = 0" using u by (simp add: word_eq_unat unat_mod)
    moreover have "ucast ((ucast j * 8 :: u64) div 8) = j"
      using u j by (simp add: word_eq_unat unat_ucast_small unat_div)
    ultimately show ?thesis using True by (simp add: fill_table_def Let_def)
  next
    case False
    have "\<not> (entry_addr c j - b < VMM_ENTRIES_PER_TABLE * 8)"
    proof
      assume "entry_addr c j - b < VMM_ENTRIES_PER_TABLE * 8"
      then have lt: "unat (entry_addr c j - b) < 4096" by (simp add: word_less_unat VMM_ENTRIES_PER_TABLE_def)
      obtain k l where k: "unat b = 4096 * k" "unat c = 4096 * l"
        using assms(1,2) by (auto simp: page_aligned_dvd elim!: dvdE)
      have "unat b < 2 ^ 64" using unsigned_less [of b] by simp
      then have b: "4096 * k < 2 ^ 64" using k by simp
      have "unat b + unat (entry_addr c j - b) < 2 ^ 64" using lt b k by simp
      then have "unat (b + (entry_addr c j - b)) = unat b + unat (entry_addr c j - b)" by (subst unat_add_small) simp_all
      then have "unat (entry_addr c j) = unat b + unat (entry_addr c j - b)" by simp
      then have "4096 * l + unat j * 8 = 4096 * k + unat (entry_addr c j - b)"
        using unat_entry_addr [OF assms(2,3)] k by simp
      then have "l = k" using lt j by linarith
      then show False using False k by (simp add: word_eq_unat)
    qed
    then show ?thesis using False by (simp add: fill_table_def Let_def)
  qed
qed

lemma set_entry_mem:
  assumes "page_aligned b" "page_aligned c" "i < 512" "j < 512"
  shows "vm_mem (set_entry b i e v) (entry_addr c j) = (if c = b \<and> j = i then e else vm_mem v (entry_addr c j))"
  using entry_addr_inj [OF assms(2,1,4,3)] by (auto simp: set_entry_def)

lemma index_bounds [simp]:
  "vmm_pml4_index va < 512" "vmm_pdpt_index va < 512" "vmm_pd_index va < 512" "vmm_pt_index va < 512"
proof -
  have "unat (ucast (x AND VMM_INDEX_MASK) :: u16) < 512" for x
  proof -
    have "VMM_INDEX_MASK = mask 9" by (simp add: VMM_INDEX_MASK_def mask_eq_exp_minus_1)
    then have "x AND VMM_INDEX_MASK = take_bit 9 x" by (simp add: take_bit_eq_mask)
    then have "unat (x AND VMM_INDEX_MASK) = unat x mod 512" by (simp only: unsigned_take_bit_eq) (simp add: take_bit_eq_mod)
    then show ?thesis by (subst unat_ucast_small) (simp_all add: less_trans [of _ 512])
  qed
  then show "vmm_pml4_index va < 512" "vmm_pdpt_index va < 512" "vmm_pd_index va < 512" "vmm_pt_index va < 512"
    by (simp_all add: word_less_unat vmm_pml4_index_def vmm_pdpt_index_def vmm_pd_index_def vmm_pt_index_def)
qed

section \<open>Paths\<close>

fun descend :: "(u64 \<Rightarrow> u64) \<Rightarrow> u64 \<Rightarrow> u16 list \<Rightarrow> u64 option" where
  "descend m b [] = Some b"
| "descend m b (i # is) =
     (let e = m (entry_addr b i) in
      if present e \<and> \<not> large e then descend m (vmm_entry_to_table e) is else None)"

text \<open>The entry that maps a full path, and how many levels below it the walk left out.\<close>

fun resolve :: "(u64 \<Rightarrow> u64) \<Rightarrow> u64 \<Rightarrow> u16 list \<Rightarrow> (u64 \<times> nat) option" where
  "resolve m b [] = None"
| "resolve m b (i # is) =
     (let e = m (entry_addr b i) in
      if \<not> present e then None
      else if is = [] \<or> large e then Some (e, length is)
      else resolve m (vmm_entry_to_table e) is)"

definition path_ok :: "u16 list \<Rightarrow> bool" where
  "path_ok q \<longleftrightarrow> (\<forall>i\<in>set q. i < 512)"

lemma path_ok_simps [simp]:
  "path_ok []" "path_ok (i # q) \<longleftrightarrow> i < 512 \<and> path_ok q" "path_ok (q @ r) \<longleftrightarrow> path_ok q \<and> path_ok r"
  by (auto simp: path_ok_def)

lemma descend_append: "descend m b (p @ q) = Option.bind (descend m b p) (\<lambda>c. descend m c q)"
  by (induction p arbitrary: b) (auto simp: Let_def)

lemma resolve_append: "descend m b p = Some c \<Longrightarrow> q \<noteq> [] \<Longrightarrow> resolve m b (p @ q) = resolve m c q"
  by (induction p arbitrary: b) (auto simp: Let_def split: if_splits)

lemma descend_aligned: "page_aligned b \<Longrightarrow> descend m b p = Some c \<Longrightarrow> page_aligned c"
proof (induction p arbitrary: b)
  case (Cons i p)
  show ?case by (rule Cons.IH [OF page_aligned_table]) (use Cons.prems in \<open>simp add: Let_def split: if_splits\<close>)
qed simp

definition tree_ok :: "(u64 \<Rightarrow> u64) \<Rightarrow> u64 \<Rightarrow> bool" where
  "tree_ok m r \<longleftrightarrow> page_aligned r \<and>
     (\<forall>p q b. path_ok p \<longrightarrow> path_ok q \<longrightarrow> length p \<le> 3 \<longrightarrow> length q \<le> 3 \<longrightarrow>
        descend m r p = Some b \<longrightarrow> descend m r q = Some b \<longrightarrow> p = q)"

lemma tree_okD:
  assumes "tree_ok m r" "descend m r p = Some b" "descend m r q = Some b" "path_ok p" "path_ok q" "length p \<le> 3" "length q \<le> 3"
  shows "p = q"
  using assms unfolding tree_ok_def by blast

definition tables :: "(u64 \<Rightarrow> u64) \<Rightarrow> u64 \<Rightarrow> u64 set" where
  "tables m r = {b. \<exists>p. path_ok p \<and> length p \<le> 3 \<and> descend m r p = Some b}"

section \<open>Changing one entry\<close>

text \<open>\<open>m'\<close> differs from \<open>m\<close> on the tables of \<open>m\<close> at most in entry \<open>i\<close> of table \<open>b\<close>.\<close>

definition one_change :: "(u64 \<Rightarrow> u64) \<Rightarrow> u64 \<Rightarrow> u64 \<Rightarrow> u16 \<Rightarrow> (u64 \<Rightarrow> u64) \<Rightarrow> bool" where
  "one_change m r b i m' \<longleftrightarrow> (\<forall>c\<in>tables m r. \<forall>j<512. (c, j) \<noteq> (b, i) \<longrightarrow> m' (entry_addr c j) = m (entry_addr c j))"

lemma descend_snoc:
  "descend m b (p @ [i]) = (case descend m b p of None \<Rightarrow> None
     | Some c \<Rightarrow> if present (m (entry_addr c i)) \<and> \<not> large (m (entry_addr c i))
                then Some (vmm_entry_to_table (m (entry_addr c i))) else None)"
  by (simp add: descend_append Let_def split: option.splits)

lemma other_cell:
  assumes t: "tree_ok m r" "descend m r p = Some b" "path_ok p" "length p \<le> 3" and o: "one_change m r b i m'"
    and q: "path_ok q" "length q \<le> 3" "descend m r q = Some c" "j < 512" "q @ [j] \<noteq> p @ [i]"
  shows "m' (entry_addr c j) = m (entry_addr c j)"
proof -
  have c: "c \<in> tables m r" unfolding tables_def using q(1-3) by blast
  have "(c, j) \<noteq> (b, i) \<longrightarrow> m' (entry_addr c j) = m (entry_addr c j)"
    by (rule mp [OF spec [OF bspec [OF o [unfolded one_change_def] c]] q(4)])
  moreover have "(c, j) \<noteq> (b, i)"
  proof
    assume eq: "(c, j) = (b, i)"
    then have "descend m r p = Some c" using t(2) by simp
    then have "q = p" by (rule tree_okD [OF t(1) q(3) _ q(1) t(3) q(2) t(4)])
    then show False using q(5) eq by simp
  qed
  ultimately show ?thesis by (rule mp)
qed

lemma descend_change:
  assumes t: "tree_ok m r" "descend m r p = Some b" "path_ok p" "length p \<le> 3" and o: "one_change m r b i m'"
    and q: "path_ok q" "length q \<le> 4" "\<not> prefix (p @ [i]) q"
  shows "descend m' r q = descend m r q"
  using q
proof (induction q rule: rev_induct)
  case (snoc j q)
  have np: "\<not> prefix (p @ [i]) q" using snoc.prems(3) by (auto simp: prefix_def)
  then have IH: "descend m' r q = descend m r q" using snoc by simp
  show ?case
  proof (cases "descend m r q")
    case (Some c)
    have "q @ [j] \<noteq> p @ [i]" using snoc.prems(3) by (metis prefix_order.refl)
    then have "m' (entry_addr c j) = m (entry_addr c j)"
      using other_cell [OF t o, of q c j] snoc.prems Some by simp
    then show ?thesis using IH Some by (simp add: descend_snoc)
  qed (use IH in \<open>simp add: descend_snoc\<close>)
qed simp

lemma resolve_change_from:
  assumes t: "tree_ok m r" "descend m r p = Some b" "path_ok p" "length p \<le> 3" and o: "one_change m r b i m'"
    and q: "path_ok (q1 @ q2)" "length (q1 @ q2) \<le> 4" "\<not> prefix (p @ [i]) (q1 @ q2)" "descend m r q1 = Some c"
  shows "resolve m' c q2 = resolve m c q2"
  using q
proof (induction q2 arbitrary: q1 c)
  case (Cons j q2)
  have "q1 @ [j] \<noteq> p @ [i]" using Cons.prems(3) by (metis append.assoc append_Cons append_Nil prefix_def)
  then have same: "m' (entry_addr c j) = m (entry_addr c j)"
    using other_cell [OF t o, of q1 c j] Cons.prems by simp
  show ?case
  proof (cases "present (m (entry_addr c j)) \<and> \<not> large (m (entry_addr c j)) \<and> q2 \<noteq> []")
    case True
    then have "descend m r (q1 @ [j]) = Some (vmm_entry_to_table (m (entry_addr c j)))"
      using Cons.prems(4) by (simp add: descend_snoc)
    then have "resolve m' (vmm_entry_to_table (m (entry_addr c j))) q2 = resolve m (vmm_entry_to_table (m (entry_addr c j))) q2"
      using Cons.IH [of "q1 @ [j]"] Cons.prems by simp
    then show ?thesis using same True by (simp add: Let_def)
  next
    case False
    then show ?thesis using same by (auto simp: Let_def)
  qed
qed simp

lemma resolve_change:
  assumes "tree_ok m r" "descend m r p = Some b" "path_ok p" "length p \<le> 3" "one_change m r b i m'"
    "path_ok q" "length q \<le> 4" "\<not> prefix (p @ [i]) q"
  shows "resolve m' r q = resolve m r q"
  using resolve_change_from [OF assms(1-5), of "[]" q r] assms(6-8) by simp

text \<open>Paths through the changed entry start with the same tables.\<close>

lemma resolve_through:
  assumes "tree_ok m r" "descend m r p = Some b" "path_ok p" "length p \<le> 3" "one_change m r b i m'"
  shows "resolve m' r (p @ i # q) = resolve m' b (i # q)" "resolve m r (p @ i # q) = resolve m b (i # q)"
    "descend m' r (p @ i # q) = descend m' b (i # q)" "descend m r (p @ i # q) = descend m b (i # q)"
proof -
  have d: "descend m' r p = Some b" using descend_change [OF assms assms(3)] assms(2,4) by (auto simp: prefix_def)
  show "resolve m' r (p @ i # q) = resolve m' b (i # q)" by (rule resolve_append [OF d]) simp
  show "resolve m r (p @ i # q) = resolve m b (i # q)" by (rule resolve_append [OF assms(2)]) simp
  show "descend m' r (p @ i # q) = descend m' b (i # q)" by (simp add: descend_append d)
  show "descend m r (p @ i # q) = descend m b (i # q)" by (simp add: descend_append assms(2))
qed

section \<open>Adding a table\<close>

text \<open>
  The entry led to no table and now leads to a page \<open>n\<close> that was not one; the new table has no
  tables below it.
\<close>

lemma tree_ok_add:
  assumes t: "tree_ok m r" "descend m r p = Some b" "path_ok p" "length p \<le> 2" and o: "one_change m r b i m'" and i: "i < 512"
    and before: "\<not> present (m (entry_addr b i)) \<or> large (m (entry_addr b i))"
    and after: "present (m' (entry_addr b i))" "\<not> large (m' (entry_addr b i))" "vmm_entry_to_table (m' (entry_addr b i)) = n"
    and fresh: "n \<notin> tables m r"
    and leaf: "length p = 2 \<or> (\<forall>j<512. \<not> present (m' (entry_addr n j)))"
  shows "tree_ok m' r" "tables m' r = insert n (tables m r)" "descend m' r (p @ [i]) = Some n"
    "\<And>q. path_ok q \<Longrightarrow> length q \<le> 3 \<Longrightarrow> q \<noteq> p @ [i] \<Longrightarrow> descend m' r q = descend m r q"
proof -
  have p3: "length p \<le> 3" using t(4) by simp
  note thr = resolve_through(3,4) [OF t(1-3) p3 o]
  show new: "descend m' r (p @ [i]) = Some n" using thr(1) [of "[]"] after by (simp add: Let_def)
  have dm: "descend m' r q = (if q = p @ [i] then Some n else descend m r q)" if q: "path_ok q" "length q \<le> 3" for q
  proof (cases "prefix (p @ [i]) q")
    case True
    then obtain rest where rest: "q = p @ i # rest" by (auto simp: prefix_def)
    have none: "descend m r q = None" using thr(2) [of rest] before rest by (auto simp: Let_def)
    show ?thesis
    proof (cases rest)
      case Nil
      then show ?thesis using new rest by simp
    next
      case (Cons j rest')
      then have "length p \<noteq> 2" using q(2) rest by simp
      then have "\<not> present (m' (entry_addr n j))" using leaf q(1) rest Cons by simp
      then have "descend m' r q = None" using thr(1) [of rest] after rest Cons by (simp add: Let_def)
      then show ?thesis using none rest Cons by simp
    qed
  next
    case False
    then have "q \<noteq> p @ [i]" by (metis prefix_order.refl)
    then show ?thesis using descend_change [OF t(1-3) p3 o q(1) _ False] q(2) by simp
  qed
  then show "\<And>q. path_ok q \<Longrightarrow> length q \<le> 3 \<Longrightarrow> q \<noteq> p @ [i] \<Longrightarrow> descend m' r q = descend m r q" by simp
  have nb: "descend m r q \<noteq> Some n" if "path_ok q" "length q \<le> 3" for q
    using fresh that unfolding tables_def by blast
  have ok: "path_ok (p @ [i])" "length (p @ [i]) \<le> 3" using t(3,4) i by simp_all
  show "tables m' r = insert n (tables m r)"
  proof -
    have "descend m r (p @ [i]) = None" using thr(2) [of "[]"] before by (auto simp: Let_def)
    then have keep: "descend m' r q = Some c" if "path_ok q" "length q \<le> 3" "descend m r q = Some c" for q c
      using dm [OF that(1,2)] that(3) by auto
    show ?thesis
    proof (intro set_eqI iffI)
      fix c
      assume "c \<in> tables m' r"
      then obtain q where "path_ok q" "length q \<le> 3" "descend m' r q = Some c" unfolding tables_def by blast
      then show "c \<in> insert n (tables m r)" using dm [of q] unfolding tables_def by (auto split: if_splits)
    next
      fix c
      assume "c \<in> insert n (tables m r)"
      then show "c \<in> tables m' r" using keep new ok unfolding tables_def by blast
    qed
  qed
  show "tree_ok m' r" unfolding tree_ok_def
  proof (intro conjI allI impI)
    show "page_aligned r" using t(1) by (simp add: tree_ok_def)
    fix q1 q2 c
    assume q: "path_ok q1" "path_ok q2" "length q1 \<le> 3" "length q2 \<le> 3" "descend m' r q1 = Some c" "descend m' r q2 = Some c"
    show "q1 = q2"
      using q dm [OF q(1,3)] dm [OF q(2,4)] nb [OF q(1,3)] nb [OF q(2,4)] tree_okD [OF t(1), of q1 c q2]
      by (auto split: if_splits)
  qed
qed

text \<open>A change in the last level keeps all tables.\<close>

lemma tree_ok_leaf:
  assumes t: "tree_ok m r" "descend m r p = Some b" "path_ok p" "length p = 3" and o: "one_change m r b i m'"
  shows "tree_ok m' r" "tables m' r = tables m r" "\<And>q. path_ok q \<Longrightarrow> length q \<le> 3 \<Longrightarrow> descend m' r q = descend m r q"
proof -
  show dm: "descend m' r q = descend m r q" if q: "path_ok q" "length q \<le> 3" for q
  proof -
    have "\<not> prefix (p @ [i]) q" using q(2) t(4) by (auto simp: prefix_def)
    then show ?thesis using descend_change [OF t(1-3) _ o q(1)] t(4) q(2) by simp
  qed
  then show "tables m' r = tables m r" unfolding tables_def by auto
  show "tree_ok m' r" using t(1) dm unfolding tree_ok_def by metis
qed

end
