(* ===== verification/Vmm_Ops.thy ===== *)
theory Vmm_Ops
  imports Vmm_Tree
begin

text \<open>
  What walking the page tables does.  A walk that creates missing tables or splits a large page
  keeps the invariant, keeps every translation, and leaves all existing tables where they were.
\<close>

section \<open>The invariant\<close>

definition mem_ok :: "(u64 \<Rightarrow> u64) \<Rightarrow> u64 \<Rightarrow> bool" where
  "mem_ok m r \<longleftrightarrow> tree_ok m r \<and>
     (\<forall>j. j < 512 \<longrightarrow> present (m (entry_addr r j)) \<longrightarrow> \<not> large (m (entry_addr r j))) \<and>
     (\<forall>q c j. path_ok q \<longrightarrow> length q = 2 \<longrightarrow> descend m r q = Some c \<longrightarrow> j < 512 \<longrightarrow>
        present (m (entry_addr c j)) \<longrightarrow> large (m (entry_addr c j)) \<longrightarrow>
        m (entry_addr c j) AND VMM_PHYS_MASK = m (entry_addr c j) AND VMM_HUGE2M_BASE_MASK)"

definition vm_ok :: "vmm \<Rightarrow> pmm \<Rightarrow> bool" where
  "vm_ok v p \<longleftrightarrow> pmm_ok p \<and> g_pml4 v \<noteq> 0 \<and> mem_ok (vm_mem v) (g_pml4 v) \<and>
     tables (vm_mem v) (g_pml4 v) \<inter> free_frames p = {} \<and>
     (\<forall>a\<in>free_frames p \<union> used_frames p. vmm_entry_to_table a = a)"

lemma mem_okD:
  assumes "mem_ok m r"
  shows "tree_ok m r" "page_aligned r"
    "\<And>j. j < 512 \<Longrightarrow> present (m (entry_addr r j)) \<Longrightarrow> \<not> large (m (entry_addr r j))"
    "\<And>q c j. path_ok q \<Longrightarrow> length q = 2 \<Longrightarrow> descend m r q = Some c \<Longrightarrow> j < 512 \<Longrightarrow>
        present (m (entry_addr c j)) \<Longrightarrow> large (m (entry_addr c j)) \<Longrightarrow>
        m (entry_addr c j) AND VMM_PHYS_MASK = m (entry_addr c j) AND VMM_HUGE2M_BASE_MASK"
proof -
  show "tree_ok m r" "page_aligned r" using assms by (simp_all add: mem_ok_def tree_ok_def)
  show "\<And>j. j < 512 \<Longrightarrow> present (m (entry_addr r j)) \<Longrightarrow> \<not> large (m (entry_addr r j))"
    using assms unfolding mem_ok_def by blast
  show "\<And>q c j. path_ok q \<Longrightarrow> length q = 2 \<Longrightarrow> descend m r q = Some c \<Longrightarrow> j < 512 \<Longrightarrow>
        present (m (entry_addr c j)) \<Longrightarrow> large (m (entry_addr c j)) \<Longrightarrow>
        m (entry_addr c j) AND VMM_PHYS_MASK = m (entry_addr c j) AND VMM_HUGE2M_BASE_MASK"
    using assms unfolding mem_ok_def by blast
qed

lemma vm_okD:
  assumes "vm_ok v p"
  shows "pmm_ok p" "g_pml4 v \<noteq> 0" "mem_ok (vm_mem v) (g_pml4 v)" "tables (vm_mem v) (g_pml4 v) \<inter> free_frames p = {}"
    "\<And>a. a \<in> free_frames p \<union> used_frames p \<Longrightarrow> vmm_entry_to_table a = a"
  using assms unfolding vm_ok_def by blast+

section \<open>Translations as paths\<close>

definition va_path :: "u64 \<Rightarrow> u16 list" where
  "va_path va = [vmm_pml4_index va, vmm_pdpt_index va, vmm_pd_index va, vmm_pt_index va]"

abbreviation mapping :: "vmm \<Rightarrow> u64 \<Rightarrow> (u64 \<times> u64) option" where
  "mapping v va \<equiv> vmm_query_mapping va True True v"

definition decode :: "u64 \<Rightarrow> u64 \<times> nat \<Rightarrow> u64 \<times> u64" where
  "decode va = (\<lambda>(e, k). ((e AND VMM_PHYS_MASK) OR (va AND (mask (12 + 9 * k))), vmm_entry_to_map_flags e))"

lemma va_path_ok [simp]: "path_ok (va_path va)" "length (va_path va) = 4"
  by (simp_all add: va_path_def)

lemma query_resolve:
  assumes "g_pml4 v \<noteq> 0" "mem_ok (vm_mem v) (g_pml4 v)"
  shows "mapping v va = map_option (decode va) (resolve (vm_mem v) (g_pml4 v) (va_path va))"
proof -
  have o: "mask 12 = VMM_PAGE_OFFSET_MASK" "(mask 21 :: u64) = 2097151" "(mask 30 :: u64) = 1073741823"
    by (simp_all add: VMM_PAGE_OFFSET_MASK_def mask_eq_exp_minus_1)
  have "\<not> large (entry_at (g_pml4 v) (vmm_pml4_index va) v)" if "present (entry_at (g_pml4 v) (vmm_pml4_index va) v)"
    using mem_okD(3) [OF assms(2) _ that] by simp
  then show ?thesis using assms(1)
    by (auto simp: vmm_query_mapping_def va_path_def decode_def Let_def o)
qed

lemma translate_query: "vmm_translate va True v = map_option fst (mapping v va)"
  by (simp add: vmm_translate_def vmm_query_mapping_def Let_def)

section \<open>Extensions\<close>

definition extends_space :: "vmm \<times> pmm \<Rightarrow> vmm \<times> pmm \<Rightarrow> bool" where
  "extends_space vp vp' \<longleftrightarrow> (let (v, p) = vp; (v', p') = vp' in
     vm_ok v' p' \<and> v' = v\<lparr>vm_mem := vm_mem v'\<rparr> \<and> (\<forall>va. mapping v' va = mapping v va) \<and>
     (\<forall>q c. path_ok q \<longrightarrow> length q \<le> 3 \<longrightarrow> descend (vm_mem v) (g_pml4 v) q = Some c \<longrightarrow>
        descend (vm_mem v') (g_pml4 v) q = Some c) \<and>
     tables (vm_mem v') (g_pml4 v) \<subseteq> tables (vm_mem v) (g_pml4 v) \<union> free_frames p \<and>
     free_frames p' \<subseteq> free_frames p \<and> used_frames p \<subseteq> used_frames p' \<and>
     used_frames p' \<subseteq> used_frames p \<union> tables (vm_mem v') (g_pml4 v))"

lemma extends_refl: "vm_ok v p \<Longrightarrow> extends_space (v, p) (v, p)"
  by (simp add: extends_space_def)

lemma extends_spaceD:
  assumes "extends_space (v, p) (v', p')"
  shows "vm_ok v' p'" "v' = v\<lparr>vm_mem := vm_mem v'\<rparr>" "g_pml4 v' = g_pml4 v" "mapping v' va = mapping v va"
    "path_ok q \<Longrightarrow> length q \<le> 3 \<Longrightarrow> descend (vm_mem v) (g_pml4 v) q = Some c \<Longrightarrow> descend (vm_mem v') (g_pml4 v) q = Some c"
    "tables (vm_mem v') (g_pml4 v) \<subseteq> tables (vm_mem v) (g_pml4 v) \<union> free_frames p"
    "free_frames p' \<subseteq> free_frames p" "used_frames p \<subseteq> used_frames p'"
    "used_frames p' \<subseteq> used_frames p \<union> tables (vm_mem v') (g_pml4 v)"
    "tables (vm_mem v) (g_pml4 v) \<subseteq> tables (vm_mem v') (g_pml4 v)"
proof -
  note e = assms [unfolded extends_space_def, simplified]
  show "vm_ok v' p'" "v' = v\<lparr>vm_mem := vm_mem v'\<rparr>" "mapping v' va = mapping v va"
    "tables (vm_mem v') (g_pml4 v) \<subseteq> tables (vm_mem v) (g_pml4 v) \<union> free_frames p"
    "free_frames p' \<subseteq> free_frames p" "used_frames p \<subseteq> used_frames p'"
    "used_frames p' \<subseteq> used_frames p \<union> tables (vm_mem v') (g_pml4 v)" using e by blast+
  show "tables (vm_mem v) (g_pml4 v) \<subseteq> tables (vm_mem v') (g_pml4 v)" unfolding tables_def using e by blast
  show "path_ok q \<Longrightarrow> length q \<le> 3 \<Longrightarrow> descend (vm_mem v) (g_pml4 v) q = Some c \<Longrightarrow> descend (vm_mem v') (g_pml4 v) q = Some c"
    using e by blast
  have "g_pml4 v' = g_pml4 (v\<lparr>vm_mem := vm_mem v'\<rparr>)" using \<open>v' = v\<lparr>vm_mem := vm_mem v'\<rparr>\<close> by (rule arg_cong)
  then show "g_pml4 v' = g_pml4 v" by simp
qed

lemma extends_trans:
  assumes "extends_space (v, p) (v1, p1)" "extends_space (v1, p1) (v2, p2)"
  shows "extends_space (v, p) (v2, p2)"
proof -
  note a = extends_spaceD [OF assms(1)] and b = extends_spaceD [OF assms(2)]
  have "v2 = v\<lparr>vm_mem := vm_mem v2\<rparr>"
  proof -
    have "v2 = (v\<lparr>vm_mem := vm_mem v1\<rparr>)\<lparr>vm_mem := vm_mem v2\<rparr>" using b(2) unfolding a(2) [symmetric] .
    then show ?thesis by simp
  qed
  moreover have "mapping v2 va = mapping v va" for va using a(4) b(4) by simp
  moreover have "descend (vm_mem v2) (g_pml4 v) q = Some c"
    if "path_ok q" "length q \<le> 3" "descend (vm_mem v) (g_pml4 v) q = Some c" for q c
    using b(5) [OF that(1,2)] a(5) [OF that] a(3) by simp
  moreover have "tables (vm_mem v2) (g_pml4 v) \<subseteq> tables (vm_mem v) (g_pml4 v) \<union> free_frames p"
    using a(6,7) b(6) unfolding a(3) by blast
  moreover have "used_frames p2 \<subseteq> used_frames p \<union> tables (vm_mem v2) (g_pml4 v)" using a(9) b(9,10) unfolding a(3) by blast
  ultimately show ?thesis unfolding extends_space_def using b(1) a(7,8) b(7,8) by auto
qed

section \<open>Adding a table to the tree\<close>

lemma tables_aligned: "page_aligned r \<Longrightarrow> c \<in> tables m r \<Longrightarrow> page_aligned c"
  using descend_aligned unfolding tables_def by blast

lemma grow_change:
  assumes r: "page_aligned r" and b: "b \<in> tables (vm_mem v) r" and n: "page_aligned n" "n \<notin> tables (vm_mem v) r" and i: "i < 512"
    and m'_def: "m' = vm_mem (set_entry b i e (fill_table n f v))"
  shows "one_change (vm_mem v) r b i m'" "m' (entry_addr b i) = e" "\<And>j. j < 512 \<Longrightarrow> m' (entry_addr n j) = f j"
proof -
  have pb: "page_aligned b" using tables_aligned [OF r b] .
  show "m' (entry_addr b i) = e" unfolding m'_def by (simp add: set_entry_mem [OF pb pb i i])
  show "m' (entry_addr n j) = f j" if "j < 512" for j
    unfolding m'_def using b n(2) by (auto simp: set_entry_mem [OF pb n(1) i that] fill_table_mem [OF n(1) n(1) that])
  have "m' (entry_addr c j) = vm_mem v (entry_addr c j)" if c: "c \<in> tables (vm_mem v) r" "j < 512" "(c, j) \<noteq> (b, i)" for c j
  proof -
    have pc: "page_aligned c" using tables_aligned [OF r c(1)] .
    have "c \<noteq> n" using c(1) n(2) by blast
    then show ?thesis unfolding m'_def using c(3) by (auto simp: set_entry_mem [OF pb pc i c(2)] fill_table_mem [OF n(1) pc c(2)])
  qed
  then show "one_change (vm_mem v) r b i m'" unfolding one_change_def by blast
qed

lemma mem_ok_add:
  assumes ok: "mem_ok m r" and d: "descend m r p = Some b" "path_ok p" "length p \<le> 2" and o: "one_change m r b i m'" and i: "i < 512"
    and before: "\<not> present (m (entry_addr b i)) \<or> large (m (entry_addr b i))"
    and after: "present (m' (entry_addr b i))" "\<not> large (m' (entry_addr b i))" "vmm_entry_to_table (m' (entry_addr b i)) = n"
    and fresh: "n \<notin> tables m r"
    and leaf: "length p = 2 \<or> (\<forall>j<512. \<not> present (m' (entry_addr n j)))"
  shows "mem_ok m' r"
proof -
  note okD = mem_okD [OF ok]
  note add = tree_ok_add [OF okD(1) d o i before after fresh leaf]
  have p3: "length p \<le> 3" using d(3) by simp
  have same: "m' (entry_addr c j) = m (entry_addr c j) \<or> \<not> large (m' (entry_addr c j))"
    if "path_ok q" "length q \<le> 3" "descend m r q = Some c" "j < 512" for q c j
  proof (cases "q @ [j] = p @ [i]")
    case True
    then show ?thesis using that(3) d(1) after(2) by simp
  next
    case False
    then show ?thesis using other_cell [OF okD(1) d(1,2) p3 o that] by simp
  qed
  show ?thesis unfolding mem_ok_def
  proof (intro conjI allI impI)
    show "tree_ok m' r" by (rule add(1))
    fix j assume "j < 512" "present (m' (entry_addr r j))"
    then show "\<not> large (m' (entry_addr r j))" using same [of "[]" r j] okD(3) [of j] by auto
  next
    fix q c j
    assume q: "path_ok q" "length q = 2" "descend m' r q = Some c" "j < 512"
      "present (m' (entry_addr c j))" "large (m' (entry_addr c j))"
    show "m' (entry_addr c j) AND VMM_PHYS_MASK = m' (entry_addr c j) AND VMM_HUGE2M_BASE_MASK"
    proof (cases "q = p @ [i]")
      case True
      then have "length p \<noteq> 2" "c = n" using q(2,3) add(3) by auto
      then show ?thesis using leaf q(4,5) by blast
    next
      case False
      then have "descend m r q = Some c" using add(4) [of q] q(1-3) by simp
      then show ?thesis using same [OF q(1) _ _ q(4), of c] okD(4) [OF q(1,2) _ q(4), of c] q(2,5,6) by auto
    qed
  qed
qed

text \<open>The whole step on the two states, given that the new entry resolves as the old one did.\<close>

lemma extends_add:
  assumes ok: "vm_ok v p" and d: "descend (vm_mem v) (g_pml4 v) q = Some b" "path_ok q" "length q \<le> 2" and i: "i < 512"
    and before: "\<not> present (entry_at b i v) \<or> large (entry_at b i v)"
    and al: "pmm_alloc_page p = (n, p')" "n \<noteq> 0"
    and e: "present e" "\<not> large e" "vmm_entry_to_table e = n"
    and leaf: "length q = 2 \<or> (\<forall>j<512. \<not> present (f j))"
    and res: "\<And>va rest. va_path va = q @ i # rest \<Longrightarrow> \<forall>j<512. vm_mem v' (entry_addr n j) = f j \<Longrightarrow>
        map_option (decode va) (resolve (vm_mem v') n rest) = map_option (decode va) (resolve (vm_mem v) b (i # rest))"
    and v': "v' = set_entry b i e (fill_table n f v)"
  shows "extends_space (v, p) (v', p')" "descend (vm_mem v') (g_pml4 v) (q @ [i]) = Some n"
proof -
  let ?m = "vm_mem v" and ?r = "g_pml4 v" and ?m' = "vm_mem v'"
  note okD = vm_okD [OF ok]
  note mok = mem_okD [OF okD(3)]
  have a: "n \<in> free_frames p" "pmm_ok p'" "free_frames p' = free_frames p - {n}" "used_frames p' = insert n (used_frames p)"
    using al okD(1) by (auto elim: pmm.alloc_cases)
  have bt: "b \<in> tables ?m ?r" using d unfolding tables_def by (auto intro!: exI [of _ q])
  have nt: "n \<notin> tables ?m ?r" using a(1) okD(4) by blast
  have np: "page_aligned n" using e(3) page_aligned_table by metis
  have "?m' = vm_mem (set_entry b i e (fill_table n f v))" by (simp add: v')
  note g = grow_change [OF mok(2) bt np nt i this]
  have leaf': "length q = 2 \<or> (\<forall>j<512. \<not> present (?m' (entry_addr n j)))" using leaf g(3) by simp
  have af: "present (?m' (entry_addr b i))" "\<not> large (?m' (entry_addr b i))" "vmm_entry_to_table (?m' (entry_addr b i)) = n"
    using e unfolding g(2) by blast+
  note add = tree_ok_add [OF mok(1) d g(1) i before af nt leaf']
  show "descend ?m' ?r (q @ [i]) = Some n" by (rule add(3))
  have mok': "mem_ok ?m' ?r" by (rule mem_ok_add [OF okD(3) d g(1) i before af nt leaf'])
  have rv: "v' = v\<lparr>vm_mem := ?m'\<rparr>" "g_pml4 v' = ?r" by (simp_all add: v' set_entry_def fill_table_def)
  have ok': "vm_ok v' p'" unfolding vm_ok_def
  proof (intro conjI)
    show "tables (vm_mem v') (g_pml4 v') \<inter> free_frames p' = {}" using okD(4) unfolding rv(2) add(2) a(3) by blast
    show "\<forall>a\<in>free_frames p' \<union> used_frames p'. vmm_entry_to_table a = a" using okD(5) a(1) unfolding a(3,4) by blast
  qed (use a(2) okD(2) rv(2) mok' in simp_all)
  have q3: "length q \<le> 3" using d(3) by simp
  have mp: "mapping v' va = mapping v va" for va
  proof (cases "prefix (q @ [i]) (va_path va)")
    case True
    then obtain rest where rest: "va_path va = q @ i # rest" by (auto simp: prefix_def)
    have "length (va_path va) = 4" by simp
    then have ne: "rest \<noteq> []" using rest d(3) by auto
    have "resolve ?m' b (i # rest) = resolve ?m' n rest" using af ne by (simp add: Let_def)
    then show ?thesis
      using res [OF rest] g(3) resolve_through(1,2) [OF mok(1) d(1,2) q3 g(1)] query_resolve [OF okD(2,3)]
        query_resolve [of v'] mok' okD(2) rv(2) rest by simp
  next
    case False
    then have "resolve ?m' ?r (va_path va) = resolve ?m ?r (va_path va)"
      using resolve_change [OF mok(1) d(1,2) q3 g(1)] by simp
    then show ?thesis using query_resolve [OF okD(2,3)] query_resolve [of v'] mok' okD(2) rv(2) by simp
  qed
  have ds: "descend ?m' ?r q' = Some c" if "path_ok q'" "length q' \<le> 3" "descend ?m ?r q' = Some c" for q' c
  proof (cases "q' = q @ [i]")
    case True
    have "descend ?m ?r (q @ [i]) = None" using before d(1) by (auto simp: descend_snoc)
    then show ?thesis using that(3) True by simp
  qed (use add(4) that in simp)
  show "extends_space (v, p) (v', p')" unfolding extends_space_def prod.case Let_def
    using ok' rv(1) mp ds add(2) a(1,3,4) by (intro conjI allI impI) auto
qed

end
