(* ===== verification/Vmm_Walk.thy ===== *)
theory Vmm_Walk
  imports Vmm_Ops
begin

text \<open>
  The walk of kernel/mm/vmm.c on every branch: finding, creating and splitting tables extends the
  address space without changing any translation; then what mapping and unmapping one page does.
\<close>

section \<open>New entries\<close>

lemma table_of_or:
  assumes "\<And>n. bit f n \<Longrightarrow> \<not> (12 \<le> n \<and> n < 52)"
  shows "vmm_entry_to_table ((a AND VMM_PHYS_MASK) OR f) = vmm_entry_to_table a"
  unfolding vmm_entry_to_table_def by (rule bit_eqI) (use assms in \<open>auto simp: bit_simps bit_phys_mask\<close>)

lemma new_entry:
  fixes f a :: u64
  assumes "bit f 0" "\<And>n. bit f n \<Longrightarrow> n \<in> {0, 1, 2, 63}"
  defines "e \<equiv> (a AND VMM_PHYS_MASK) OR f"
  shows "present e" "\<not> large e" "vmm_entry_to_table e = vmm_entry_to_table a" "vmm_entry_to_map_flags e = vmm_entry_to_map_flags f"
proof -
  show "present e" unfolding entry_bits e_def using assms(1) by (simp add: bit_or_iff)
  show "\<not> large e" unfolding entry_bits e_def using assms(2) [of 7] by (auto simp: bit_simps bit_phys_mask)
  show "vmm_entry_to_table e = vmm_entry_to_table a" unfolding e_def
    by (rule table_of_or) (use assms(2) in force)
  show "vmm_entry_to_map_flags e = vmm_entry_to_map_flags f" unfolding e_def
    by (rule bit_eqI) (auto simp: bit_entry_to_map_flags bit_simps bit_phys_mask)
qed

lemma table_flags:
  "bit (VMM_PAGE_PRESENT OR VMM_PAGE_WRITABLE) n \<longleftrightarrow> n \<in> {0, 1}"
  "bit (VMM_PAGE_PRESENT OR VMM_PAGE_WRITABLE OR VMM_PAGE_USER) n \<longleftrightarrow> n \<in> {0, 1, 2}"
  by (auto simp: bit_or_iff bit_flags)

text \<open>A page of the split table translates as the large page did.\<close>

lemma bit_pt_offset:
  "bit (ucast (vmm_pt_index va) * MM_PAGE_SIZE :: u64) n \<longleftrightarrow> 12 \<le> n \<and> n < 21 \<and> bit va n"
proof -
  have i: "VMM_INDEX_MASK = mask 9" by (simp add: VMM_INDEX_MASK_def mask_eq_exp_minus_1)
  have "ucast (vmm_pt_index va) * MM_PAGE_SIZE = push_bit 12 (ucast (vmm_pt_index va) :: u64)"
    by (simp add: MM_PAGE_SIZE_def push_bit_eq_mult mult.commute)
  then show ?thesis
    by (auto simp: vmm_pt_index_def i bit_simps dest: bit_imp_le_length)
qed

lemma split_child_bits:
  "bit (split_child e (vmm_pt_index va)) n \<longleftrightarrow>
     21 \<le> n \<and> n < 52 \<and> bit e n \<or> 12 \<le> n \<and> n < 21 \<and> bit va n \<or> n = 0 \<or> n \<in> {1, 2, 63} \<and> bit e n"
proof -
  have "(e AND VMM_HUGE2M_BASE_MASK) + ucast (vmm_pt_index va) * MM_PAGE_SIZE =
      (e AND VMM_HUGE2M_BASE_MASK) OR ucast (vmm_pt_index va) * MM_PAGE_SIZE"
    by (rule disjunctive_add) (auto simp: bit_and_iff bit_huge_mask bit_pt_offset)
  then show ?thesis unfolding split_child_def Let_def
    by (auto simp: bit_or_iff bit_and_iff bit_huge_mask bit_pt_offset bit_phys_mask bit_split_child_flags)
qed

lemma split_child_decode:
  assumes "e AND VMM_PHYS_MASK = e AND VMM_HUGE2M_BASE_MASK"
  shows "decode va (split_child e (vmm_pt_index va), 0) = decode va (e, 1)"
proof -
  have "(split_child e (vmm_pt_index va) AND VMM_PHYS_MASK) OR (va AND mask 12) =
      (e AND VMM_HUGE2M_BASE_MASK) OR (va AND mask 21)"
    by (rule bit_eqI) (auto simp: bit_or_iff bit_and_iff bit_mask_iff split_child_bits bit_phys_mask bit_huge_mask)
  moreover have "vmm_entry_to_map_flags (split_child e (vmm_pt_index va)) = vmm_entry_to_map_flags e"
    by (rule bit_eqI) (auto simp: bit_entry_to_map_flags split_child_bits)
  ultimately show ?thesis using assms by (simp add: decode_def)
qed

section \<open>Creating and splitting\<close>

lemma alloc_fails:
  assumes "pmm_ok p" "pmm_alloc_page p = (0, p')"
  shows "p' = p" "free_frames p = {}"
  using assms by (auto elim: pmm.alloc_cases)

lemma alloc_phys:
  assumes "vm_ok v p" "pmm_alloc_page p = (n, p')" "n \<noteq> 0"
  shows "vmm_entry_to_table n = n"
proof -
  have "n \<in> free_frames p" using assms vm_okD(1) by (auto elim: pmm.alloc_cases)
  then show ?thesis using vm_okD(5) [OF assms(1)] by blast
qed

lemma create_extends:
  assumes ok: "vm_ok v p" and d: "descend (vm_mem v) (g_pml4 v) q = Some b" "path_ok q" "length q \<le> 2" and i: "i < 512"
    and r: "vmm_get_or_create_next_table b i (v, p) = (res, v', p')"
  shows "extends_space (v, p) (v', p')"
    "case res of Some c \<Rightarrow> descend (vm_mem v') (g_pml4 v) (q @ [i]) = Some c
       | None \<Rightarrow> v' = v \<and> p' = p \<and> (free_frames p = {} \<or> present (entry_at b i v) \<and> large (entry_at b i v))"
proof -
  let ?e = "entry_at b i v"
  have "extends_space (v, p) (v', p') \<and> (case res of Some c \<Rightarrow> descend (vm_mem v') (g_pml4 v) (q @ [i]) = Some c
       | None \<Rightarrow> v' = v \<and> p' = p \<and> (free_frames p = {} \<or> present ?e \<and> large ?e))"
  proof (cases "present ?e")
    case True
    then show ?thesis using r extends_refl [OF ok] d(1)
      by (auto simp: vmm_get_or_create_next_table_def Let_def descend_snoc split: if_splits)
  next
    case False
    obtain n p1 where al: "pmm_alloc_page p = (n, p1)" by (cases "pmm_alloc_page p")
    show ?thesis
    proof (cases "n = 0")
      case True
      then show ?thesis using alloc_fails [OF vm_okD(1) [OF ok]] al r False extends_refl [OF ok]
        by (auto simp: vmm_get_or_create_next_table_def)
    next
      case n: False
      let ?f = "VMM_PAGE_PRESENT OR VMM_PAGE_WRITABLE"
      have rr: "res = Some n" "v' = set_entry b i ((n AND VMM_PHYS_MASK) OR ?f) (fill_table n (\<lambda>_. 0) v)" "p' = p1"
        using r False n al by (auto simp: vmm_get_or_create_next_table_def vmm_zero_page_def or.assoc)
      have e: "present ((n AND VMM_PHYS_MASK) OR ?f)" "\<not> large ((n AND VMM_PHYS_MASK) OR ?f)"
        "vmm_entry_to_table ((n AND VMM_PHYS_MASK) OR ?f) = n"
        using new_entry [of ?f n] alloc_phys [OF ok al n] by (auto simp: table_flags(1))
      have res: "map_option (decode va) (resolve (vm_mem v') n rest) = map_option (decode va) (resolve (vm_mem v) b (i # rest))"
        if va: "va_path va = q @ i # rest" and z: "\<forall>j<512. vm_mem v' (entry_addr n j) = 0" for va rest
      proof -
        have len: "length (q @ i # rest) = 4" "path_ok (q @ i # rest)" using va_path_ok [of va] va by simp_all
        then obtain j rest' where "rest = j # rest'" using d(3) by (cases rest) auto
        then show ?thesis using z len False by (simp add: Let_def)
      qed
      show ?thesis using extends_add [OF ok d i _ al n e _ res rr(2)] False rr by simp
    qed
  qed
  then show "extends_space (v, p) (v', p')"
    "case res of Some c \<Rightarrow> descend (vm_mem v') (g_pml4 v) (q @ [i]) = Some c
       | None \<Rightarrow> v' = v \<and> p' = p \<and> (free_frames p = {} \<or> present ?e \<and> large ?e)" by blast+
qed

lemma split_extends:
  assumes ok: "vm_ok v p" and d: "descend (vm_mem v) (g_pml4 v) q = Some b" "path_ok q" "length q = 2" and i: "i < 512"
    and l: "present (entry_at b i v)" "large (entry_at b i v)"
    and r: "vmm_split_large_pd_entry b i (v, p) = (res, v', p')"
  shows "extends_space (v, p) (v', p')"
    "if res = 0 then v' = v \<and> p' = p \<and> free_frames p = {}
     else \<exists>n. descend (vm_mem v') (g_pml4 v) (q @ [i]) = Some n"
proof -
  let ?e = "entry_at b i v"
  obtain n p1 where al: "pmm_alloc_page p = (n, p1)" by (cases "pmm_alloc_page p")
  have "extends_space (v, p) (v', p') \<and> (if res = 0 then v' = v \<and> p' = p \<and> free_frames p = {}
     else \<exists>n. descend (vm_mem v') (g_pml4 v) (q @ [i]) = Some n)"
  proof (cases "n = 0")
    case True
    then show ?thesis using alloc_fails [OF vm_okD(1) [OF ok]] al r l extends_refl [OF ok]
      by (auto simp: vmm_split_large_pd_entry_def)
  next
    case n: False
    define f where "f = (if ?e AND VMM_PAGE_USER \<noteq> 0 then VMM_PAGE_PRESENT OR VMM_PAGE_WRITABLE OR VMM_PAGE_USER
      else VMM_PAGE_PRESENT OR VMM_PAGE_WRITABLE)"
    have fill: "fill_table n g (vmm_zero_page n v) = fill_table n g v" for g
      by (simp add: vmm_zero_page_def fill_table_def Let_def fun_eq_iff cong: if_cong)
    have rr: "res = 1" "v' = set_entry b i ((n AND VMM_PHYS_MASK) OR f) (fill_table n (split_child ?e) v)" "p' = p1"
      using r l n al by (auto simp: vmm_split_large_pd_entry_def Let_def f_def fill or.assoc split: if_splits)
    have fb: "bit f 0" "\<And>n. bit f n \<Longrightarrow> n \<in> {0, 1, 2, 63}" by (auto simp: f_def table_flags split: if_splits)
    have e: "present ((n AND VMM_PHYS_MASK) OR f)" "\<not> large ((n AND VMM_PHYS_MASK) OR f)"
      "vmm_entry_to_table ((n AND VMM_PHYS_MASK) OR f) = n"
      using new_entry [OF fb, of n] alloc_phys [OF ok al n] by simp_all
    have al2: "?e AND VMM_PHYS_MASK = ?e AND VMM_HUGE2M_BASE_MASK"
      using mem_okD(4) [OF vm_okD(3) [OF ok] d(2,3,1) i l] .
    have res: "map_option (decode va) (resolve (vm_mem v') n rest) = map_option (decode va) (resolve (vm_mem v) b (i # rest))"
      if va: "va_path va = q @ i # rest" and z: "\<forall>j<512. vm_mem v' (entry_addr n j) = split_child ?e j" for va rest
    proof -
      obtain x y where "q = [x, y]" using d(3) by (auto simp: numeral_2_eq_2 length_Suc_conv)
      then have rest: "rest = [vmm_pt_index va]" using va by (simp add: va_path_def)
      have "present (split_child ?e (vmm_pt_index va))" unfolding entry_bits by (simp add: split_child_bits)
      then show ?thesis using z l split_child_decode [OF al2, of va] rest by (simp add: Let_def)
    qed
    show ?thesis using extends_add [OF ok d(1,2) _ i _ al n e _ res rr(2)] d(3) l(2) rr by auto
  qed
  then show "extends_space (v, p) (v', p')" "if res = 0 then v' = v \<and> p' = p \<and> free_frames p = {}
     else \<exists>n. descend (vm_mem v') (g_pml4 v) (q @ [i]) = Some n" by blast+
qed

end
