(* ===== verification/Vmm_Map.thy ===== *)
theory Vmm_Map
  imports Vmm_Walk
begin

text \<open>
  Mapping and unmapping one page: the walk composed from its levels, and the change of one leaf
  entry, which affects exactly the addresses of that page.
\<close>

section \<open>The whole walk\<close>

lemma large_mapped:
  assumes ok: "vm_ok v p" and d: "descend (vm_mem v) (g_pml4 v) q = Some b" and va: "va_path va = q @ i # rest"
    and l: "present (entry_at b i v)" "large (entry_at b i v)"
  shows "mapping v va \<noteq> None"
  using query_resolve [OF vm_okD(2,3) [OF ok], of va] resolve_append [OF d, of "i # rest"] va l by (simp add: Let_def)

lemma walk_upper_extends:
  assumes ok: "vm_ok v p" and d: "descend (vm_mem v) (g_pml4 v) q = Some b" "path_ok q" "length q \<le> 1" and i: "i < 512"
    and r: "walk_upper create b i (v, p) = (res, v', p')"
  shows "extends_space (v, p) (v', p')"
    "case res of Some c \<Rightarrow> descend (vm_mem v') (g_pml4 v) (q @ [i]) = Some c
       | None \<Rightarrow> create \<longrightarrow> v' = v \<and> p' = p \<and> (free_frames p = {} \<or> present (entry_at b i v) \<and> large (entry_at b i v))"
proof -
  have "extends_space (v, p) (v', p') \<and> (case res of Some c \<Rightarrow> descend (vm_mem v') (g_pml4 v) (q @ [i]) = Some c
       | None \<Rightarrow> create \<longrightarrow> v' = v \<and> p' = p \<and> (free_frames p = {} \<or> present (entry_at b i v) \<and> large (entry_at b i v)))"
  proof (cases create)
    case True
    have d2: "length q \<le> 2" using d(3) by simp
    have r': "vmm_get_or_create_next_table b i (v, p) = (res, v', p')" using r True by (simp add: walk_upper_def)
    show ?thesis using create_extends [OF ok d(1,2) d2 i r'] by (auto split: option.splits)
  next
    case False
    then show ?thesis using r d(1) extends_refl [OF ok]
      by (auto simp: walk_upper_def Let_def descend_snoc split: if_splits)
  qed
  then show "extends_space (v, p) (v', p')"
    "case res of Some c \<Rightarrow> descend (vm_mem v') (g_pml4 v) (q @ [i]) = Some c
       | None \<Rightarrow> create \<longrightarrow> v' = v \<and> p' = p \<and> (free_frames p = {} \<or> present (entry_at b i v) \<and> large (entry_at b i v))"
    by blast+
qed

lemma descend_entry:
  assumes "descend m r q = Some b" "descend m r (q @ [i]) = Some c"
  shows "present (m (entry_addr b i))" "\<not> large (m (entry_addr b i))" "vmm_entry_to_table (m (entry_addr b i)) = c"
  using assms by (auto simp: descend_snoc split: if_splits)

text \<open>After a successful split the entry leads to the new table.\<close>

lemma walk_lower_split:
  assumes ok: "vm_ok v p" and d: "descend (vm_mem v) (g_pml4 v) q = Some b" "path_ok q" "length q = 2" and i: "i < 512"
    and l: "present (entry_at b i v)" "large (entry_at b i v)"
    and r: "walk_lower create b i (v, p) = (res, v', p')"
  shows "extends_space (v, p) (v', p')"
    "case res of Some c \<Rightarrow> descend (vm_mem v') (g_pml4 v) (q @ [i]) = Some c | None \<Rightarrow> free_frames p' = {}"
proof -
  obtain k v1 p1 where s: "vmm_split_large_pd_entry b i (v, p) = (k, v1, p1)" by (cases "vmm_split_large_pd_entry b i (v, p)")
  note sp = split_extends [OF ok d i l s]
  have g: "vmm_get_or_create_next_table b i (v, p) = (None, v, p)" using l by (simp add: vmm_get_or_create_next_table_def)
  have "extends_space (v, p) (v', p') \<and>
    (case res of Some c \<Rightarrow> descend (vm_mem v') (g_pml4 v) (q @ [i]) = Some c | None \<Rightarrow> free_frames p' = {})"
  proof (cases "k = 0")
    case True
    then show ?thesis using r s sp l g by (auto simp: walk_lower_def split: if_splits)
  next
    case False
    then obtain n where n: "descend (vm_mem v1) (g_pml4 v) (q @ [i]) = Some n" using sp(2) by auto
    have b: "descend (vm_mem v1) (g_pml4 v) q = Some b" using extends_spaceD(5) [OF sp(1) d(2) _ d(1)] d(3) by simp
    note e = descend_entry [OF b n]
    have "res = Some n" "v' = v1" "p' = p1"
      using r s l g e False by (auto simp: walk_lower_def vmm_get_or_create_next_table_def split: if_splits)
    then show ?thesis using sp(1) n by simp
  qed
  then show "extends_space (v, p) (v', p')"
    "case res of Some c \<Rightarrow> descend (vm_mem v') (g_pml4 v) (q @ [i]) = Some c | None \<Rightarrow> free_frames p' = {}" by blast+
qed

lemma walk_lower_extends:
  assumes ok: "vm_ok v p" and d: "descend (vm_mem v) (g_pml4 v) q = Some b" "path_ok q" "length q = 2" and i: "i < 512"
    and r: "walk_lower create b i (v, p) = (res, v', p')"
  shows "extends_space (v, p) (v', p')"
    "case res of Some c \<Rightarrow> descend (vm_mem v') (g_pml4 v) (q @ [i]) = Some c | None \<Rightarrow> create \<longrightarrow> free_frames p' = {}"
proof -
  have "extends_space (v, p) (v', p') \<and>
    (case res of Some c \<Rightarrow> descend (vm_mem v') (g_pml4 v) (q @ [i]) = Some c | None \<Rightarrow> create \<longrightarrow> free_frames p' = {})"
  proof (cases "present (entry_at b i v) \<and> large (entry_at b i v)")
    case True
    then show ?thesis using walk_lower_split [OF ok d i _ _ r] by (auto split: option.splits)
  next
    case nl: False
    show ?thesis
    proof (cases create)
      case True
      have d2: "length q \<le> 2" using d(3) by simp
      obtain res1 v1 p1 where g: "vmm_get_or_create_next_table b i (v, p) = (res1, v1, p1)"
        by (cases "vmm_get_or_create_next_table b i (v, p)")
      note cr = create_extends [OF ok d(1,2) d2 i g]
      have "res = res1" "v' = v1" "p' = p1" using r g True nl cr(2) by (auto simp: walk_lower_def split: option.splits)
      then show ?thesis using cr nl by (auto split: option.splits)
    next
      case False
      then show ?thesis using r d(1) nl extends_refl [OF ok]
        by (auto simp: walk_lower_def Let_def descend_snoc split: if_splits)
    qed
  qed
  then show "extends_space (v, p) (v', p')"
    "case res of Some c \<Rightarrow> descend (vm_mem v') (g_pml4 v) (q @ [i]) = Some c | None \<Rightarrow> create \<longrightarrow> free_frames p' = {}" by blast+
qed

definition upper_path :: "u64 \<Rightarrow> u16 list" where
  "upper_path va = [vmm_pml4_index va, vmm_pdpt_index va, vmm_pd_index va]"

lemma upper_path_simps [simp]: "path_ok (upper_path va)" "length (upper_path va) = 3"
  by (simp_all add: upper_path_def)

lemma va_path_upper: "va_path va = upper_path va @ [vmm_pt_index va]"
  by (simp add: va_path_def upper_path_def)

lemma walk_to_pt_extends:
  assumes ok: "vm_ok v p" and r: "vmm_walk_to_pt va create (v, p) = (res, v', p')"
  shows "extends_space (v, p) (v', p') \<and>
    (case res of Some (pt, i) \<Rightarrow> i = vmm_pt_index va \<and> descend (vm_mem v') (g_pml4 v) (upper_path va) = Some pt
     | None \<Rightarrow> create \<longrightarrow> free_frames p' = {} \<or> mapping v va \<noteq> None)"
proof -
  let ?r = "g_pml4 v" and ?l4 = "vmm_pml4_index va" and ?l3 = "vmm_pdpt_index va" and ?l2 = "vmm_pd_index va"
  have nz: "?r \<noteq> 0" using vm_okD(2) [OF ok] .
  obtain r1 v1 p1 where s1: "walk_upper create ?r ?l4 (v, p) = (r1, v1, p1)" by (cases "walk_upper create ?r ?l4 (v, p)")
  note w1 = walk_upper_extends [OF ok _ _ _ _ s1, of "[]", simplified]
  show ?thesis
  proof (cases r1)
    case None
    have "mapping v va \<noteq> None" if "present (entry_at ?r ?l4 v)" "large (entry_at ?r ?l4 v)"
      using large_mapped [OF ok _ _ that, of "[]" va] by (simp add: va_path_def)
    then show ?thesis using None r s1 w1 nz by (auto simp: vmm_walk_to_pt_def)
  next
    case (Some pdpt)
    have d1: "descend (vm_mem v1) (g_pml4 v1) [?l4] = Some pdpt" using w1(2) Some extends_spaceD(3) [OF w1(1)] by simp
    obtain r2 v2 p2 where s2: "walk_upper create pdpt ?l3 (v1, p1) = (r2, v2, p2)" by (cases "walk_upper create pdpt ?l3 (v1, p1)")
    note w2 = walk_upper_extends [OF extends_spaceD(1) [OF w1(1)] d1 _ _ _ s2, simplified]
    note e2 = extends_trans [OF w1(1) w2(1)]
    show ?thesis
    proof (cases r2)
      case None
      have "mapping v va \<noteq> None" if "present (entry_at pdpt ?l3 v1)" "large (entry_at pdpt ?l3 v1)"
        using large_mapped [OF extends_spaceD(1) [OF w1(1)] d1 _ that, of va] extends_spaceD(4) [OF w1(1)] by (simp add: va_path_def)
      then show ?thesis using None Some r s1 s2 w2 e2 nz by (auto simp: vmm_walk_to_pt_def)
    next
      case (Some pd)
      have d2: "descend (vm_mem v2) (g_pml4 v2) [?l4, ?l3] = Some pd" using w2(2) Some extends_spaceD(3) [OF w2(1)] by simp
      obtain r3 v3 p3 where s3: "walk_lower create pd ?l2 (v2, p2) = (r3, v3, p3)" by (cases "walk_lower create pd ?l2 (v2, p2)")
      note w3 = walk_lower_extends [OF extends_spaceD(1) [OF w2(1)] d2 _ _ _ s3, simplified]
      note e3 = extends_trans [OF e2 w3(1)]
      show ?thesis using \<open>r1 = Some pdpt\<close> Some r s1 s2 s3 w3(2) e3 nz extends_spaceD(3) [OF e2]
        by (auto simp: vmm_walk_to_pt_def upper_path_def split: option.splits)
    qed
  qed
qed

text \<open>A page mapped by a leaf of the last level is found without any change.\<close>

lemma resolve_leaf_steps:
  assumes "resolve m r (i # j # q) = Some (e, 0)"
  shows "present (m (entry_addr r i))" "\<not> large (m (entry_addr r i))"
    "resolve m (vmm_entry_to_table (m (entry_addr r i))) (j # q) = Some (e, 0)"
  using assms by (auto simp: Let_def split: if_splits)

lemma walk_to_pt_leaf:
  assumes ok: "vm_ok v p" and e: "resolve (vm_mem v) (g_pml4 v) (va_path va) = Some (e, 0)"
  obtains pt where "vmm_walk_to_pt va False (v, p) = (Some (pt, vmm_pt_index va), v, p)"
    "descend (vm_mem v) (g_pml4 v) (upper_path va) = Some pt" "entry_at pt (vmm_pt_index va) v = e" "present e"
proof -
  note r1 = resolve_leaf_steps [OF e [unfolded va_path_def]]
  note r2 = resolve_leaf_steps [OF r1(3)]
  note r3 = resolve_leaf_steps [OF r2(3)]
  let ?pt = "vmm_entry_to_table (entry_at (vmm_entry_to_table (entry_at (vmm_entry_to_table (entry_at (g_pml4 v)
    (vmm_pml4_index va) v)) (vmm_pdpt_index va) v)) (vmm_pd_index va) v)"
  have d: "descend (vm_mem v) (g_pml4 v) (upper_path va) = Some ?pt"
    using r1(1,2) r2(1,2) r3(1,2) by (simp add: upper_path_def Let_def)
  have "entry_at ?pt (vmm_pt_index va) v = e" "present e" using r3(3) by (auto simp: Let_def split: if_splits)
  moreover have "vmm_walk_to_pt va False (v, p) = (Some (?pt, vmm_pt_index va), v, p)"
    using vm_okD(2) [OF ok] r1(1,2) r2(1,2) r3(1,2) by (simp add: vmm_walk_to_pt_def walk_upper_def walk_lower_def)
  ultimately show ?thesis using that d by blast
qed

section \<open>Changing a leaf\<close>

lemma leaf_update:
  assumes ok: "vm_ok v p" and d: "descend (vm_mem v) (g_pml4 v) (upper_path va) = Some b"
    and v': "v' = set_entry b (vmm_pt_index va) e v"
  shows "vm_ok v' p" "tables (vm_mem v') (g_pml4 v) = tables (vm_mem v) (g_pml4 v)" "v' = v\<lparr>vm_mem := vm_mem v'\<rparr>"
    "mapping v' w = (if va_path w = va_path va then (if present e then Some (decode w (e, 0)) else None) else mapping v w)"
    "\<And>q. path_ok q \<Longrightarrow> length q \<le> 3 \<Longrightarrow> descend (vm_mem v') (g_pml4 v) q = descend (vm_mem v) (g_pml4 v) q"
proof -
  let ?m = "vm_mem v" and ?r = "g_pml4 v" and ?m' = "vm_mem v'" and ?i = "vmm_pt_index va" and ?q = "upper_path va"
  note okD = vm_okD [OF ok]
  note mok = mem_okD [OF okD(3)]
  have bt: "b \<in> tables ?m ?r" unfolding tables_def using d by (auto intro!: exI [of _ ?q])
  have pb: "page_aligned b" using tables_aligned [OF mok(2) bt] .
  have "?m' (entry_addr c j) = ?m (entry_addr c j)" if "c \<in> tables ?m ?r" "j < 512" "(c, j) \<noteq> (b, ?i)" for c j
    using that by (auto simp: v' set_entry_mem [OF pb tables_aligned [OF mok(2) that(1)] index_bounds(4) that(2)])
  then have o: "one_change ?m ?r b ?i ?m'" unfolding one_change_def by blast
  have e': "?m' (entry_addr b ?i) = e" unfolding v' by (simp add: set_entry_mem [OF pb pb])
  note leaf = tree_ok_leaf [OF mok(1) d upper_path_simps o]
  have q3: "length ?q \<le> 3" by simp
  have rest: "?m' (entry_addr c j) = ?m (entry_addr c j)"
    if "path_ok q" "length q \<le> 2" "descend ?m ?r q = Some c" "j < 512" for q c j
  proof -
    have "length (q @ [j]) \<noteq> length (?q @ [?i])" using that(2) by simp
    then have "q @ [j] \<noteq> ?q @ [?i]" by metis
    then show ?thesis using other_cell [OF mok(1) d _ q3 o that(1) _ that(3,4)] that(2) by simp
  qed
  show sm: "v' = v\<lparr>vm_mem := ?m'\<rparr>" by (simp add: v' set_entry_def)
  have r': "g_pml4 v' = ?r" by (simp add: v' set_entry_def)
  have mok': "mem_ok ?m' ?r" unfolding mem_ok_def
  proof (intro conjI allI impI)
    show "tree_ok ?m' ?r" by (rule leaf(1))
    fix j assume "j < 512" "present (?m' (entry_addr ?r j))"
    then show "\<not> large (?m' (entry_addr ?r j))" using rest [of "[]" ?r j] mok(3) [of j] by simp
  next
    fix q c j
    assume q: "path_ok q" "length q = 2" "descend ?m' ?r q = Some c" "j < 512" "present (?m' (entry_addr c j))" "large (?m' (entry_addr c j))"
    have "descend ?m ?r q = Some c" using leaf(3) [of q] q(1-3) by simp
    then show "?m' (entry_addr c j) AND VMM_PHYS_MASK = ?m' (entry_addr c j) AND VMM_HUGE2M_BASE_MASK"
      using rest [of q c j] mok(4) [OF q(1,2) _ q(4), of c] q by simp
  qed
  show tb: "tables ?m' ?r = tables ?m ?r" by (rule leaf(2))
  show "\<And>q. path_ok q \<Longrightarrow> length q \<le> 3 \<Longrightarrow> descend ?m' ?r q = descend ?m ?r q" by (rule leaf(3))
  show ok': "vm_ok v' p" unfolding vm_ok_def r' using okD mok' unfolding tb by blast
  have qr: "mapping v' w = map_option (decode w) (resolve ?m' ?r (va_path w))" using query_resolve [of v' w] mok' okD(2) r' by simp
  show "mapping v' w = (if va_path w = va_path va then (if present e then Some (decode w (e, 0)) else None) else mapping v w)"
  proof (cases "va_path w = va_path va")
    case True
    have "resolve ?m' ?r (va_path w) = resolve ?m' b [?i]"
      using resolve_through(1) [OF mok(1) d _ q3 o, of "[]"] unfolding True by (simp add: va_path_upper)
    then show ?thesis using qr e' True by (simp add: Let_def)
  next
    case False
    have "\<not> prefix (?q @ [?i]) (va_path w)"
    proof
      assume "prefix (?q @ [?i]) (va_path w)"
      then obtain z where z: "va_path w = va_path va @ z" unfolding prefix_def va_path_upper by auto
      then have "length (va_path w) = length (va_path va) + length z" by simp
      then have "z = []" by simp
      then show False using z False by simp
    qed
    then have "resolve ?m' ?r (va_path w) = resolve ?m ?r (va_path w)"
      using resolve_change [OF mok(1) d _ q3 o] by simp
    then show ?thesis using qr query_resolve [OF okD(2,3)] False by simp
  qed
qed

section \<open>Pages\<close>

text \<open>Two addresses lie in the same page when they agree in bits 12 to 47; the tables ignore the rest.\<close>

definition same_page :: "u64 \<Rightarrow> u64 \<Rightarrow> bool" where
  "same_page w va \<longleftrightarrow> drop_bit 12 (take_bit 48 w) = drop_bit 12 (take_bit 48 va)"

lemma same_page_bits: "same_page w va \<longleftrightarrow> (\<forall>n. 12 \<le> n \<and> n < 48 \<longrightarrow> bit w n = bit va n)"
proof -
  have "same_page w va \<longleftrightarrow> (\<forall>k<64. 12 + k < 48 \<longrightarrow> bit w (12 + k) = bit va (12 + k))"
    unfolding same_page_def by (auto simp: bit_eq_iff bit_simps)
  also have "\<dots> \<longleftrightarrow> (\<forall>n. 12 \<le> n \<and> n < 48 \<longrightarrow> bit w n = bit va n)"
  proof (rule iffI; (rule allI, rule impI)?)
    fix n :: nat
    assume a: "\<forall>k<64. 12 + k < 48 \<longrightarrow> bit w (12 + k) = bit va (12 + k)" and n: "12 \<le> n \<and> n < 48"
    have "n - 12 < 64" "12 + (n - 12) < 48" using n by linarith+
    then have "bit w (12 + (n - 12)) = bit va (12 + (n - 12))" using a by blast
    then show "bit w n = bit va n" using n by simp
  qed simp
  finally show ?thesis .
qed

lemma index_eq_bits:
  assumes "k + 9 \<le> 64"
  shows "(ucast (drop_bit k w AND VMM_INDEX_MASK) :: u16) = ucast (drop_bit k va AND VMM_INDEX_MASK) \<longleftrightarrow>
    (\<forall>n. k \<le> n \<and> n < k + 9 \<longrightarrow> bit w n = bit (va :: u64) n)"
proof -
  have i: "VMM_INDEX_MASK = mask 9" by (simp add: VMM_INDEX_MASK_def mask_eq_exp_minus_1)
  have "(ucast (drop_bit k w AND VMM_INDEX_MASK) :: u16) = ucast (drop_bit k va AND VMM_INDEX_MASK) \<longleftrightarrow>
      (\<forall>j<16. j < 9 \<longrightarrow> bit w (k + j) = bit va (k + j))"
    unfolding i using assms by (auto simp: bit_eq_iff bit_simps)
  also have "\<dots> \<longleftrightarrow> (\<forall>n. k \<le> n \<and> n < k + 9 \<longrightarrow> bit w n = bit va n)"
  proof (rule iffI; (rule allI, rule impI)?)
    fix n
    assume a: "\<forall>j<16. j < 9 \<longrightarrow> bit w (k + j) = bit va (k + j)" and n: "k \<le> n \<and> n < k + 9"
    have "n - k < 16" "n - k < 9" using n by linarith+
    then have "bit w (k + (n - k)) = bit va (k + (n - k))" using a by blast
    then show "bit w n = bit va n" using n by simp
  qed simp
  finally show ?thesis .
qed

lemma va_path_same_page: "va_path w = va_path va \<longleftrightarrow> same_page w va"
proof -
  have "va_path w = va_path va \<longleftrightarrow> (\<forall>n. 39 \<le> n \<and> n < 48 \<longrightarrow> bit w n = bit va n) \<and> (\<forall>n. 30 \<le> n \<and> n < 39 \<longrightarrow> bit w n = bit va n) \<and>
      (\<forall>n. 21 \<le> n \<and> n < 30 \<longrightarrow> bit w n = bit va n) \<and> (\<forall>n. 12 \<le> n \<and> n < 21 \<longrightarrow> bit w n = bit va n)"
    unfolding va_path_def vmm_pml4_index_def vmm_pdpt_index_def vmm_pd_index_def vmm_pt_index_def
    by (simp add: index_eq_bits)
  also have "\<dots> \<longleftrightarrow> (\<forall>n. 12 \<le> n \<and> n < 48 \<longrightarrow> bit w n = bit va n)"
  proof
    assume a: "(\<forall>n. 39 \<le> n \<and> n < 48 \<longrightarrow> bit w n = bit va n) \<and> (\<forall>n. 30 \<le> n \<and> n < 39 \<longrightarrow> bit w n = bit va n) \<and>
      (\<forall>n. 21 \<le> n \<and> n < 30 \<longrightarrow> bit w n = bit va n) \<and> (\<forall>n. 12 \<le> n \<and> n < 21 \<longrightarrow> bit w n = bit va n)"
    show "\<forall>n. 12 \<le> n \<and> n < 48 \<longrightarrow> bit w n = bit va n"
    proof (intro allI impI)
      fix n :: nat
      assume "12 \<le> n \<and> n < 48"
      then consider "39 \<le> n \<and> n < 48" | "30 \<le> n \<and> n < 39" | "21 \<le> n \<and> n < 30" | "12 \<le> n \<and> n < 21" by linarith
      then show "bit w n = bit va n" using a by cases blast+
    qed
  qed auto
  finally show ?thesis by (simp add: same_page_bits)
qed

end
