(* ===== verification/Vmm_Props.thy ===== *)
theory Vmm_Props
  imports Vmm_Map
begin

text \<open>
  The properties of the virtual memory manager: mapping, unmapping and the kernel heap's page
  allocation change exactly the translations they should, and a failing call changes none.
\<close>

section \<open>Growing address spaces\<close>

text \<open>
  From one state to a later one: tables only appear, they come from free frames, and the frames
  taken are tables or in \<open>D\<close>.
\<close>

definition grows :: "u64 set \<Rightarrow> vmm \<times> pmm \<Rightarrow> vmm \<times> pmm \<Rightarrow> bool" where
  "grows D vp vp' \<longleftrightarrow> (let (v, p) = vp; (v', p') = vp' in
     vm_ok v' p' \<and> v' = v\<lparr>vm_mem := vm_mem v'\<rparr> \<and>
     (\<forall>q c. path_ok q \<longrightarrow> length q \<le> 3 \<longrightarrow> descend (vm_mem v) (g_pml4 v) q = Some c \<longrightarrow>
        descend (vm_mem v') (g_pml4 v) q = Some c) \<and>
     tables (vm_mem v') (g_pml4 v) \<subseteq> tables (vm_mem v) (g_pml4 v) \<union> free_frames p \<and>
     free_frames p' \<subseteq> free_frames p \<and> used_frames p \<subseteq> used_frames p' \<and>
     used_frames p' \<subseteq> used_frames p \<union> tables (vm_mem v') (g_pml4 v) \<union> D)"

lemma growsD:
  assumes "grows D (v, p) (v', p')"
  shows "vm_ok v' p'" "v' = v\<lparr>vm_mem := vm_mem v'\<rparr>" "g_pml4 v' = g_pml4 v"
    "\<And>q c. path_ok q \<Longrightarrow> length q \<le> 3 \<Longrightarrow> descend (vm_mem v) (g_pml4 v) q = Some c \<Longrightarrow> descend (vm_mem v') (g_pml4 v) q = Some c"
    "tables (vm_mem v') (g_pml4 v) \<subseteq> tables (vm_mem v) (g_pml4 v) \<union> free_frames p"
    "free_frames p' \<subseteq> free_frames p" "used_frames p \<subseteq> used_frames p'"
    "used_frames p' \<subseteq> used_frames p \<union> tables (vm_mem v') (g_pml4 v) \<union> D"
    "tables (vm_mem v) (g_pml4 v) \<subseteq> tables (vm_mem v') (g_pml4 v)"
proof -
  note e = assms [unfolded grows_def, simplified]
  show "vm_ok v' p'" "v' = v\<lparr>vm_mem := vm_mem v'\<rparr>"
    "tables (vm_mem v') (g_pml4 v) \<subseteq> tables (vm_mem v) (g_pml4 v) \<union> free_frames p"
    "free_frames p' \<subseteq> free_frames p" "used_frames p \<subseteq> used_frames p'"
    "used_frames p' \<subseteq> used_frames p \<union> tables (vm_mem v') (g_pml4 v) \<union> D" using e by blast+
  show "tables (vm_mem v) (g_pml4 v) \<subseteq> tables (vm_mem v') (g_pml4 v)" unfolding tables_def using e by blast
  show "\<And>q c. path_ok q \<Longrightarrow> length q \<le> 3 \<Longrightarrow> descend (vm_mem v) (g_pml4 v) q = Some c \<Longrightarrow> descend (vm_mem v') (g_pml4 v) q = Some c"
    using e by blast
  have "g_pml4 v' = g_pml4 (v\<lparr>vm_mem := vm_mem v'\<rparr>)" using \<open>v' = v\<lparr>vm_mem := vm_mem v'\<rparr>\<close> by (rule arg_cong)
  then show "g_pml4 v' = g_pml4 v" by simp
qed

lemma extends_grows: "extends_space (v, p) (v', p') \<Longrightarrow> grows {} (v, p) (v', p')"
  unfolding extends_space_def grows_def by simp

lemma grows_trans:
  assumes "grows D (v, p) (v1, p1)" "grows D' (v1, p1) (v2, p2)"
  shows "grows (D \<union> D') (v, p) (v2, p2)"
proof -
  note a = growsD [OF assms(1)] and b = growsD [OF assms(2)]
  have "v2 = (v\<lparr>vm_mem := vm_mem v1\<rparr>)\<lparr>vm_mem := vm_mem v2\<rparr>" using b(2) unfolding a(2) [symmetric] .
  then have "v2 = v\<lparr>vm_mem := vm_mem v2\<rparr>" by simp
  moreover have "descend (vm_mem v2) (g_pml4 v) q = Some c"
    if "path_ok q" "length q \<le> 3" "descend (vm_mem v) (g_pml4 v) q = Some c" for q c
    using b(4) [OF that(1,2)] a(4) [OF that] a(3) by simp
  moreover have "tables (vm_mem v2) (g_pml4 v) \<subseteq> tables (vm_mem v) (g_pml4 v) \<union> free_frames p"
    using a(5,6) b(5) unfolding a(3) by blast
  moreover have "used_frames p2 \<subseteq> used_frames p \<union> tables (vm_mem v2) (g_pml4 v) \<union> (D \<union> D')"
    using a(8) b(8,9) unfolding a(3) by blast
  ultimately show ?thesis unfolding grows_def using b(1) a(6,7) b(6,7) by auto
qed

lemma grows_leaf:
  assumes g: "grows D (v, p) (v1, p1)" and d: "descend (vm_mem v1) (g_pml4 v1) (upper_path va) = Some b"
    and v': "v' = set_entry b (vmm_pt_index va) e v1"
  shows "grows D (v, p) (v', p1)" "descend (vm_mem v') (g_pml4 v) (upper_path va) = Some b"
proof -
  note a = growsD [OF g] and lf = leaf_update [OF growsD(1) [OF g] d v']
  have "v' = (v\<lparr>vm_mem := vm_mem v1\<rparr>)\<lparr>vm_mem := vm_mem v'\<rparr>" using lf(3) unfolding a(2) [symmetric] .
  then have "v' = v\<lparr>vm_mem := vm_mem v'\<rparr>" by simp
  moreover have "descend (vm_mem v') (g_pml4 v) q = descend (vm_mem v1) (g_pml4 v) q" if "path_ok q" "length q \<le> 3" for q
    using lf(5) [OF that] a(3) by simp
  ultimately show "grows D (v, p) (v', p1)" "descend (vm_mem v') (g_pml4 v) (upper_path va) = Some b"
    unfolding grows_def using lf(1,2) a d by auto
qed

section \<open>One page\<close>

definition leaf_flags :: "u64 \<Rightarrow> u64" where
  "leaf_flags flags = flags AND (VMM_MAP_WRITABLE OR VMM_MAP_USER OR VMM_MAP_NX)"

lemma decode_leaf:
  "decode w ((pa AND VMM_PHYS_MASK) OR map_entry_flags flags, 0) =
     ((pa AND VMM_PHYS_MASK) OR (w AND VMM_PAGE_OFFSET_MASK), leaf_flags flags)"
proof -
  have o: "VMM_PAGE_OFFSET_MASK = mask 12" by (simp add: VMM_PAGE_OFFSET_MASK_def mask_eq_exp_minus_1)
  have "((pa AND VMM_PHYS_MASK) OR map_entry_flags flags) AND VMM_PHYS_MASK = pa AND VMM_PHYS_MASK"
    by (rule bit_eqI) (auto simp: bit_or_iff bit_and_iff bit_phys_mask bit_map_entry_flags)
  moreover have "vmm_entry_to_map_flags ((pa AND VMM_PHYS_MASK) OR map_entry_flags flags) = leaf_flags flags"
    by (rule bit_eqI) (auto simp: bit_entry_to_map_flags leaf_flags_def bit_or_iff bit_and_iff bit_phys_mask bit_map_entry_flags bit_flags)
  ultimately show ?thesis by (simp add: decode_def o)
qed

lemma map_entry_present: "present ((pa AND VMM_PHYS_MASK) OR map_entry_flags flags)"
  unfolding entry_bits by (simp add: bit_or_iff bit_map_entry_flags)

lemma map_page_failure:
  assumes ok: "vm_ok v p" and r: "vmm_map_page va pa flags (v, p) = (0, v', p')"
  shows "extends_space (v, p) (v', p')"
    "\<not> page_aligned va \<or> \<not> page_aligned pa \<or> mapping v va \<noteq> None \<or> free_frames p' = {}"
proof -
  obtain res v1 p1 where w: "vmm_walk_to_pt va True (v, p) = (res, v1, p1)" by (cases "vmm_walk_to_pt va True (v, p)")
  note wk = walk_to_pt_extends [OF ok w]
  have al: "page_aligned va \<and> page_aligned pa \<longleftrightarrow> \<not> (va AND VMM_PAGE_OFFSET_MASK \<noteq> 0 \<or> pa AND VMM_PAGE_OFFSET_MASK \<noteq> 0)"
    by (simp add: page_aligned_def)
  have "extends_space (v, p) (v', p') \<and>
    (\<not> page_aligned va \<or> \<not> page_aligned pa \<or> mapping v va \<noteq> None \<or> free_frames p' = {})"
  proof (cases "page_aligned va \<and> page_aligned pa")
    case False
    then show ?thesis using r extends_refl [OF ok] al by (auto simp: vmm_map_page_def split: if_splits)
  next
    case True
    show ?thesis
    proof (cases res)
      case None
      then show ?thesis using r w wk True al by (auto simp: vmm_map_page_def split: if_splits)
    next
      case (Some a)
      obtain pt i where a: "a = (pt, i)" by (cases a)
      have st: "present (entry_at pt i v1)" "v' = v1" "p' = p1"
        using r w True al Some a by (auto simp: vmm_map_page_def split: if_splits)
      have x: "extends_space (v, p) (v1, p1)" "i = vmm_pt_index va" "descend (vm_mem v1) (g_pml4 v1) (upper_path va) = Some pt"
        using wk Some a extends_spaceD(3) by auto
      have "mapping v1 va \<noteq> None"
        using query_resolve [OF vm_okD(2,3) [OF extends_spaceD(1) [OF x(1)]], of va] resolve_append [OF x(3), of "[i]"] st(1) x(2)
        by (simp add: va_path_upper Let_def)
      then show ?thesis using x(1) st(2,3) extends_spaceD(4) [OF x(1), of va] by simp
    qed
  qed
  then show "extends_space (v, p) (v', p')"
    "\<not> page_aligned va \<or> \<not> page_aligned pa \<or> mapping v va \<noteq> None \<or> free_frames p' = {}" by blast+
qed

lemma map_page_success:
  assumes ok: "vm_ok v p" and r: "vmm_map_page va pa flags (v, p) = (res, v', p')" and nz: "res \<noteq> 0"
  shows "grows {} (v, p) (v', p')" "page_aligned va" "page_aligned pa" "mapping v va = None" "res = 1"
    "mapping v' w = (if same_page w va then Some ((pa AND VMM_PHYS_MASK) OR (w AND VMM_PAGE_OFFSET_MASK), leaf_flags flags)
       else mapping v w)"
    "descend (vm_mem v') (g_pml4 v) (upper_path va) \<noteq> None"
proof -
  obtain wres v1 p1 where w: "vmm_walk_to_pt va True (v, p) = (wres, v1, p1)" by (cases "vmm_walk_to_pt va True (v, p)")
  note wk = walk_to_pt_extends [OF ok w]
  show al: "page_aligned va" "page_aligned pa" using r nz by (auto simp: page_aligned_def vmm_map_page_def split: if_splits)
  obtain pt i where a: "wres = Some (pt, i)" using r nz w by (cases wres) (auto simp: vmm_map_page_def split: if_splits)
  let ?e = "(pa AND VMM_PHYS_MASK) OR map_entry_flags flags"
  have st: "\<not> present (entry_at pt i v1)" "v' = set_entry pt i ?e v1" "p' = p1" "res = 1"
    using r w a nz by (auto simp: vmm_map_page_def split: if_splits)
  show "res = 1" by (rule st(4))
  have x: "extends_space (v, p) (v1, p1)" "i = vmm_pt_index va" "descend (vm_mem v1) (g_pml4 v) (upper_path va) = Some pt"
    using wk a by auto
  note xD = extends_spaceD [OF x(1)]
  have d: "descend (vm_mem v1) (g_pml4 v1) (upper_path va) = Some pt" using x(3) xD(3) by simp
  have "mapping v1 va = None"
    using query_resolve [OF vm_okD(2,3) [OF xD(1)], of va] resolve_append [OF d, of "[i]"] st(1) x(2)
    by (simp add: va_path_upper Let_def)
  then show "mapping v va = None" using xD(4) by simp
  note lf = leaf_update [OF xD(1) d st(2) [unfolded x(2)]]
  note gl = grows_leaf [OF extends_grows [OF x(1)] d st(2) [unfolded x(2)]]
  show "grows {} (v, p) (v', p')" "descend (vm_mem v') (g_pml4 v) (upper_path va) \<noteq> None" using gl st(3) by simp_all
  show "mapping v' w = (if same_page w va then Some ((pa AND VMM_PHYS_MASK) OR (w AND VMM_PAGE_OFFSET_MASK), leaf_flags flags)
       else mapping v w)"
    unfolding lf(4) decode_leaf va_path_same_page using map_entry_present xD(4) by simp
qed

lemma unmap_page_cases:
  assumes ok: "vm_ok v p" and r: "vmm_unmap_page va (v, p) = (res, v', p')"
  obtains "res = 0" "extends_space (v, p) (v', p')"
  | "res = 1" "grows {} (v, p) (v', p')" "page_aligned va" "mapping v va \<noteq> None"
    "\<And>w. mapping v' w = (if same_page w va then None else mapping v w)"
proof -
  obtain wres v1 p1 where w: "vmm_walk_to_pt va False (v, p) = (wres, v1, p1)" by (cases "vmm_walk_to_pt va False (v, p)")
  note wk = walk_to_pt_extends [OF ok w]
  show ?thesis
  proof (cases "res = 0")
    case True
    then have "extends_space (v, p) (v', p')" using r w wk extends_refl [OF ok]
      by (auto simp: vmm_unmap_page_def split: if_splits option.splits)
    then show ?thesis using that(1) True by blast
  next
    case False
    have al: "page_aligned va" using r False by (auto simp: page_aligned_def vmm_unmap_page_def split: if_splits)
    obtain pt i where a: "wres = Some (pt, i)" using r False w by (cases wres) (auto simp: vmm_unmap_page_def split: if_splits)
    have st: "present (entry_at pt i v1)" "v' = set_entry pt i 0 v1" "p' = p1" "res = 1"
      using r w a False by (auto simp: vmm_unmap_page_def split: if_splits)
    have x: "extends_space (v, p) (v1, p1)" "i = vmm_pt_index va" "descend (vm_mem v1) (g_pml4 v) (upper_path va) = Some pt"
      using wk a by auto
    note xD = extends_spaceD [OF x(1)]
    have d: "descend (vm_mem v1) (g_pml4 v1) (upper_path va) = Some pt" using x(3) xD(3) by simp
    have mv: "mapping v va \<noteq> None"
      using query_resolve [OF vm_okD(2,3) [OF xD(1)], of va] resolve_append [OF d, of "[i]"] st(1) x(2) xD(4)
      by (simp add: va_path_upper Let_def)
    note lf = leaf_update [OF xD(1) d st(2) [unfolded x(2)]]
    note gl = grows_leaf [OF extends_grows [OF x(1)] d st(2) [unfolded x(2)]]
    have mp: "mapping v' w = (if same_page w va then None else mapping v w)" for w
      unfolding lf(4) va_path_same_page using xD(4) by simp
    show ?thesis by (rule that(2) [OF st(4) _ al mv mp]) (use gl(1) st(3) in simp)
  qed
qed

text \<open>A page mapped through a table of the last level can be unmapped, with no change to the allocator.\<close>

lemma unmap_leaf:
  assumes ok: "vm_ok v p" and al: "page_aligned va" and d: "descend (vm_mem v) (g_pml4 v) (upper_path va) \<noteq> None"
    and m: "mapping v va \<noteq> None"
  obtains v' where "vmm_unmap_page va (v, p) = (1, v', p)" "grows {} (v, p) (v', p)"
    "tables (vm_mem v') (g_pml4 v) = tables (vm_mem v) (g_pml4 v)"
    "\<And>w. mapping v' w = (if same_page w va then None else mapping v w)"
proof -
  obtain b where b: "descend (vm_mem v) (g_pml4 v) (upper_path va) = Some b" using d by blast
  have "resolve (vm_mem v) (g_pml4 v) (va_path va) \<noteq> None" using m query_resolve [OF vm_okD(2,3) [OF ok]] by auto
  then obtain e where e: "resolve (vm_mem v) (g_pml4 v) (va_path va) = Some (e, 0)"
    using resolve_append [OF b, of "[vmm_pt_index va]"] by (auto simp: va_path_upper Let_def split: if_splits)
  obtain pt where w: "vmm_walk_to_pt va False (v, p) = (Some (pt, vmm_pt_index va), v, p)"
    "descend (vm_mem v) (g_pml4 v) (upper_path va) = Some pt" "entry_at pt (vmm_pt_index va) v = e" "present e"
    using walk_to_pt_leaf [OF ok e] .
  let ?v = "set_entry pt (vmm_pt_index va) 0 v"
  have u: "vmm_unmap_page va (v, p) = (1, ?v, p)"
    using w al by (simp add: vmm_unmap_page_def page_aligned_def)
  note lf = leaf_update [OF ok w(2) refl, where e = 0]
  have g: "grows {} (v, p) (?v, p)" by (rule grows_leaf(1) [OF extends_grows [OF extends_refl [OF ok]] w(2) refl])
  have m: "mapping ?v w = (if same_page w va then None else mapping v w)" for w
    unfolding lf(4) va_path_same_page by simp
  show ?thesis by (rule that [OF u g lf(2) m])
qed

section \<open>Boot\<close>

lemma frame_phys:
  assumes ok: "pmm_ok p" and b: "unat (g_base p) + 4096 * pages p \<le> 2 ^ 52" and a: "a \<in> frames k p"
  shows "vmm_entry_to_table a = a" "page_aligned a"
proof -
  obtain f where f: "a = frame_addr p f" "unat f < pages p" using a by (auto simp: frames_def)
  have u: "unat a = unat (g_base p) + unat f * 4096" using unat_frame_addr [OF pmm_okD(2,3) [OF ok] f(2)] f(1) by simp
  have "4096 dvd unat (g_base p)" using pmm_okD(2) [OF ok] by (simp add: region_ok_def)
  then show al: "page_aligned a" unfolding page_aligned_dvd u by simp
  have "unat a < 2 ^ 52" using u b f(2) by simp
  then have "take_bit 52 a = a" by (simp add: word_eq_unat unsigned_take_bit_eq take_bit_nat_eq_self)
  then have hi: "\<not> bit a n" if "52 \<le> n" for n using that by (metis bit_take_bit_iff linorder_not_less)
  show "vmm_entry_to_table a = a" unfolding vmm_entry_to_table_def
  proof (rule bit_eqI)
    fix n
    have "bit a n \<Longrightarrow> 12 \<le> n \<and> n < 52" using al hi [of n] unfolding page_aligned_bits by (metis linorder_not_less)
    then show "bit (a AND VMM_PHYS_MASK) n = bit a n" by (auto simp: bit_and_iff bit_phys_mask)
  qed
qed

text \<open>An empty root table outside the free frames makes a valid address space.\<close>

lemma vm_ok_empty:
  assumes ok: "pmm_ok p" and b: "unat (g_base p) + 4096 * pages p \<le> 2 ^ 52"
    and r: "g_pml4 v \<noteq> 0" "page_aligned (g_pml4 v)" "g_pml4 v \<notin> free_frames p" and z: "\<And>a. vm_mem v a = 0"
  shows "vm_ok v p"
proof -
  have d: "descend (vm_mem v) (g_pml4 v) q = (if q = [] then Some (g_pml4 v) else None)" for q
    by (cases q) (simp_all add: z)
  have "tables (vm_mem v) (g_pml4 v) = {g_pml4 v}" unfolding tables_def d by auto
  moreover have "mem_ok (vm_mem v) (g_pml4 v)" unfolding mem_ok_def tree_ok_def d using r(2) by (simp add: z)
  ultimately show ?thesis unfolding vm_ok_def using ok r frame_phys [OF ok b] by auto
qed

section \<open>Properties of single pages\<close>

text \<open>
  C5. Mapping a page.  A successful call maps exactly the addresses of one page, none of which was
  mapped before, to the given frame with the given permissions, and keeps every other translation,
  even where the walk splits a large page or adds tables.  A call that fails keeps all
  translations, and fails only for an unaligned address, a page already mapped, or an
  allocator with no free frame left.
\<close>

theorem vmm_map_page_effect:
  assumes ok: "vm_ok v p" and r: "vmm_map_page va pa flags (v, p) = (res, v', p')"
  shows "vm_ok v' p' \<and>
    (if res = 0
     then (\<forall>w. mapping v' w = mapping v w) \<and>
       (\<not> page_aligned va \<or> \<not> page_aligned pa \<or> mapping v va \<noteq> None \<or> free_frames p' = {})
     else mapping v va = None \<and> (\<forall>w. mapping v' w =
       (if same_page w va then Some ((pa AND VMM_PHYS_MASK) OR (w AND VMM_PAGE_OFFSET_MASK), leaf_flags flags)
        else mapping v w)))"
proof (cases "res = 0")
  case True
  then show ?thesis using map_page_failure [OF ok r [unfolded True]] extends_spaceD(1,4) by auto
next
  case False
  note m = map_page_success [OF ok r False]
  show ?thesis using False growsD(1) [OF m(1)] m(4,6) by simp
qed

text \<open>
  An address space with one chain of tables, for the page at 0x40000000, and an allocator with one
  free frame.
\<close>

definition demo_mem :: "u64 \<Rightarrow> u64" where
  "demo_mem a = (if a = 0x1000 then 0x2003 else if a = 0x2008 then 0x3003 else if a = 0x3000 then 0x4003 else 0)"

definition vmm_demo :: vmm where
  "vmm_demo = \<lparr>vm_mem = demo_mem, g_pml4 = 0x1000, g_kernel_layout = \<lparr>kaslr_window_base = 0, kaslr_window_size = 0,
     kaslr_slide = 0, kernel_image_base = 0, kernel_image_size = 0, kernel_heap_base = 0x40000000, kernel_heap_size = 0x10000\<rparr>,
     g_kernel_heap_next = 0x40000000, g_kernel_heap_limit = 0x40010000\<rparr>"

definition pmm_demo :: pmm where
  "pmm_demo = pmm_init 0x100000 0x2000 pmm_bss"

lemma pmm_demo_ok: "pmm_ok pmm_demo" "g_total_pages pmm_demo = 2" "g_base pmm_demo = 0x100000"
proof -
  show "pmm_ok pmm_demo" unfolding pmm_demo_def by (rule pmm_init_spec(1)) (rule refl)
  show "g_total_pages pmm_demo = 2" "g_base pmm_demo = 0x100000" unfolding pmm_demo_def by code_simp+
qed

lemma demo_cell:
  assumes "page_aligned b" "i < 512" "demo_mem (entry_addr b i) \<noteq> 0"
  shows "(b, i) \<in> {(0x1000, 0), (0x2000, 1), (0x3000, 0)}"
proof -
  have a: "page_aligned 0x1000" "page_aligned 0x2000" "page_aligned 0x3000" by (simp_all add: page_aligned_def VMM_PAGE_OFFSET_MASK_def)
  consider "entry_addr b i = entry_addr 0x1000 0" | "entry_addr b i = entry_addr 0x2000 1" | "entry_addr b i = entry_addr 0x3000 0"
    using assms(3) by (auto simp: demo_mem_def entry_addr_def split: if_splits)
  then show ?thesis
  proof cases
    case 1
    then show ?thesis using entry_addr_inj [OF assms(1) a(1) assms(2), of 0] by simp
  next
    case 2
    then show ?thesis using entry_addr_inj [OF assms(1) a(2) assms(2), of 1] by simp
  next
    case 3
    then show ?thesis using entry_addr_inj [OF assms(1) a(3) assms(2), of 0] by simp
  qed
qed

lemma demo_step:
  assumes "page_aligned b" "path_ok (i # q)" "descend demo_mem b (i # q) = Some c"
  shows "(b, i) \<in> {(0x1000, 0), (0x2000, 1), (0x3000, 0)} \<and> descend demo_mem (b + 0x1000) q = Some c"
proof -
  have "demo_mem (entry_addr b i) \<noteq> 0" using assms(3) by (auto simp: Let_def split: if_splits)
  then have bi: "(b, i) \<in> {(0x1000, 0), (0x2000, 1), (0x3000, 0)}" using demo_cell [OF assms(1)] assms(2) by simp
  then have "vmm_entry_to_table (demo_mem (entry_addr b i)) = b + 0x1000"
    by (auto simp: demo_mem_def entry_addr_def vmm_entry_to_table_def VMM_PHYS_MASK_def)
  then show ?thesis using bi assms(3) by (simp add: Let_def split: if_splits)
qed

lemma demo_paths:
  assumes "path_ok q" "length q \<le> 3" "descend demo_mem 0x1000 q = Some c"
  shows "(q, c) \<in> {([], 0x1000), ([0], 0x2000), ([0, 1], 0x3000), ([0, 1, 0], 0x4000)}"
proof -
  have a: "page_aligned 0x1000" "page_aligned 0x2000" "page_aligned 0x3000" by (simp_all add: page_aligned_def VMM_PAGE_OFFSET_MASK_def)
  show ?thesis
  proof (cases q)
    case (Cons i q1)
    note s1 = demo_step [OF a(1) assms(1,3) [unfolded Cons]]
    show ?thesis
    proof (cases q1)
      case (Cons j q2)
      have s2: "j = 1 \<and> descend demo_mem (0x3000 :: u64) q2 = Some c"
        using demo_step [OF a(2), of j q2 c] s1 assms(1) \<open>q = i # q1\<close> Cons by simp
      show ?thesis
      proof (cases q2)
        case (Cons k q3)
        have s3: "k = 0 \<and> descend demo_mem (0x4000 :: u64) q3 = Some c"
          using demo_step [OF a(3), of k q3 c] s2 assms(1) \<open>q = i # q1\<close> \<open>q1 = j # q2\<close> Cons by simp
        have "q3 = []" using assms(2) \<open>q = i # q1\<close> \<open>q1 = j # q2\<close> Cons by simp
        then show ?thesis using s1 s2 s3 \<open>q = i # q1\<close> \<open>q1 = j # q2\<close> Cons by simp
      qed (use s1 s2 \<open>q = i # q1\<close> Cons in simp)
    qed (use s1 Cons in simp)
  qed (use assms(3) in simp)
qed

lemma vmm_demo_ok: "vm_ok vmm_demo pmm_demo"
proof -
  have m: "mem_ok demo_mem 0x1000" unfolding mem_ok_def tree_ok_def
  proof (intro conjI allI impI)
    show "page_aligned 0x1000" by (simp add: page_aligned_def VMM_PAGE_OFFSET_MASK_def)
    fix q1 q2 b
    assume "path_ok q1" "path_ok q2" "length q1 \<le> 3" "length q2 \<le> 3" "descend demo_mem 0x1000 q1 = Some b" "descend demo_mem 0x1000 q2 = Some b"
    then show "q1 = q2" using demo_paths [of q1 b] demo_paths [of q2 b] by auto
  next
    have l: "\<not> large (demo_mem a)" for a by (simp add: demo_mem_def VMM_PAGE_SIZE_def)
    then show "\<And>j. \<not> large (demo_mem (entry_addr 0x1000 j))" by blast
    show "\<And>q c j. large (demo_mem (entry_addr c j)) \<Longrightarrow>
      demo_mem (entry_addr c j) AND VMM_PHYS_MASK = demo_mem (entry_addr c j) AND VMM_HUGE2M_BASE_MASK" using l by blast
  qed
  have t: "tables demo_mem 0x1000 \<subseteq> {0x1000, 0x2000, 0x3000, 0x4000}"
  proof
    fix b
    assume "b \<in> tables demo_mem 0x1000"
    then obtain q where "path_ok q" "length q \<le> 3" "descend demo_mem 0x1000 q = Some b" unfolding tables_def by blast
    then show "b \<in> {0x1000, 0x2000, 0x3000, 0x4000}" using demo_paths [of q b] by auto
  qed
  have f: "0x100000 \<le> unat a" if "a \<in> frames k pmm_demo" for a k
    using that unat_frame_addr [OF pmm_okD(2,3) [OF pmm_demo_ok(1)]] by (auto simp: frames_def pmm_demo_ok)
  have "tables demo_mem 0x1000 \<inter> free_frames pmm_demo = {}" using t f [of _ PMM_BLOCK_FREE] by fastforce
  then show ?thesis unfolding vm_ok_def
    using m pmm_demo_ok(1) frame_phys(1) [OF pmm_demo_ok(1)] by (auto simp: vmm_demo_def pmm_demo_ok)
qed

theorem vmm_map_page_effect_witness:
  "\<exists>v' p'. vmm_map_page 0x40000000 0x5000 2 (vmm_demo, pmm_demo) = (1, v', p') \<and> mapping v' 0x40000123 = Some (0x5123, 2)"
proof -
  obtain res v' p' where r: "vmm_map_page 0x40000000 0x5000 2 (vmm_demo, pmm_demo) = (res, v', p')"
    by (cases "vmm_map_page 0x40000000 0x5000 2 (vmm_demo, pmm_demo)")
  have "fst (vmm_map_page 0x40000000 0x5000 2 (vmm_demo, pmm_demo)) = 1" by code_simp
  then have res: "res = 1" using r by simp
  have "same_page 0x40000123 0x40000000" "leaf_flags 2 = 2"
    "(0x5000 AND VMM_PHYS_MASK) OR (0x40000123 AND VMM_PAGE_OFFSET_MASK) = 0x5123" by code_simp+
  then show ?thesis using vmm_map_page_effect [OF vmm_demo_ok r] r res by simp
qed

text \<open>
  C20. Unmapping a page.  A successful call leaves exactly the addresses of one page unmapped and
  keeps every other translation, also when it had to split a large page; a call that fails keeps
  all translations.
\<close>

theorem vmm_unmap_page_effect:
  assumes ok: "vm_ok v p" and r: "vmm_unmap_page va (v, p) = (res, v', p')"
  shows "vm_ok v' p' \<and>
    (\<forall>w. mapping v' w = (if res \<noteq> 0 \<and> same_page w va then None else mapping v w)) \<and>
    (res \<noteq> 0 \<longrightarrow> page_aligned va \<and> mapping v va \<noteq> None)"
  using ok r
proof (rule unmap_page_cases)
  assume "res = 0" and e: "extends_space (v, p) (v', p')"
  then show ?thesis using extends_spaceD(1,4) [OF e] by simp
next
  assume "res = 1" and g: "grows {} (v, p) (v', p')" and "page_aligned va" "mapping v va \<noteq> None"
    "\<And>w. mapping v' w = (if same_page w va then None else mapping v w)"
  then show ?thesis using growsD(1) [OF g] by simp
qed

text \<open>
  C19. Mapping and unmapping are inverse.  After a successful mapping, unmapping the same page
  succeeds, takes no frame from the allocator, and restores every translation.
\<close>

theorem vmm_map_unmap_roundtrip:
  assumes ok: "vm_ok v p" and r: "vmm_map_page va pa flags (v, p) = (1, v1, p1)"
  shows "\<exists>v2. vmm_unmap_page va (v1, p1) = (1, v2, p1) \<and> vm_ok v2 p1 \<and> (\<forall>w. mapping v2 w = mapping v w)"
proof -
  note m = map_page_success [OF ok r one_neq_zero]
  note g = growsD [OF m(1)]
  have d: "descend (vm_mem v1) (g_pml4 v1) (upper_path va) \<noteq> None" using m(7) g(3) by simp
  have "same_page va va" by (simp add: same_page_def)
  then have mv: "mapping v1 va \<noteq> None" using m(6) [of va] by simp
  obtain v2 where u: "vmm_unmap_page va (v1, p1) = (1, v2, p1)" "grows {} (v1, p1) (v2, p1)"
    "\<And>w. mapping v2 w = (if same_page w va then None else mapping v1 w)"
    using unmap_leaf [OF g(1) m(2) d mv] by metis
  have "mapping v w = None" if "same_page w va" for w
    using m(4) query_resolve [OF vm_okD(2,3) [OF ok]] that unfolding va_path_same_page [symmetric] by simp
  then have "mapping v2 w = mapping v w" for w using u(3) [of w] m(6) [of w] by simp
  then show ?thesis using u(1) growsD(1) [OF u(2)] by blast
qed

theorem vmm_map_unmap_roundtrip_witness:
  "\<exists>v1 p1 v2. vmm_map_page 0x40000000 0x5000 2 (vmm_demo, pmm_demo) = (1, v1, p1) \<and>
     vmm_unmap_page 0x40000000 (v1, p1) = (1, v2, p1) \<and> (\<forall>w. mapping v2 w = mapping vmm_demo w)"
proof -
  obtain res v' p' where r: "vmm_map_page 0x40000000 0x5000 2 (vmm_demo, pmm_demo) = (res, v', p')"
    by (cases "vmm_map_page 0x40000000 0x5000 2 (vmm_demo, pmm_demo)")
  have "fst (vmm_map_page 0x40000000 0x5000 2 (vmm_demo, pmm_demo)) = 1" by code_simp
  then have "vmm_map_page 0x40000000 0x5000 2 (vmm_demo, pmm_demo) = (1, v', p')" using r by simp
  from vmm_map_unmap_roundtrip [OF vmm_demo_ok this] this show ?thesis by blast
qed

theorem vmm_unmap_page_effect_witness:
  "\<exists>v1 p1 v2 p2. vmm_map_page 0x40000000 0x5000 2 (vmm_demo, pmm_demo) = (1, v1, p1) \<and>
     vmm_unmap_page 0x40000000 (v1, p1) = (1, v2, p2) \<and> mapping v2 0x40000123 = None"
proof -
  obtain res v1 p1 where r: "vmm_map_page 0x40000000 0x5000 2 (vmm_demo, pmm_demo) = (res, v1, p1)"
    by (cases "vmm_map_page 0x40000000 0x5000 2 (vmm_demo, pmm_demo)")
  have f: "fst (vmm_map_page 0x40000000 0x5000 2 (vmm_demo, pmm_demo)) = 1"
    "fst (vmm_unmap_page 0x40000000 (snd (vmm_map_page 0x40000000 0x5000 2 (vmm_demo, pmm_demo)))) = 1" by code_simp+
  then have res: "res = 1" using r by simp
  obtain res2 v2 p2 where r2: "vmm_unmap_page 0x40000000 (v1, p1) = (res2, v2, p2)" by (cases "vmm_unmap_page 0x40000000 (v1, p1)")
  then have res2: "res2 = 1" using f(2) r by simp
  have ok: "vm_ok v1 p1" using growsD(1) [OF map_page_success(1) [OF vmm_demo_ok r]] res by simp
  have "same_page 0x40000123 0x40000000" by code_simp
  then show ?thesis using vmm_unmap_page_effect [OF ok r2] r r2 res res2 by simp
qed

end
