(* ===== verification/Vmm_Heap.thy ===== *)
theory Vmm_Heap
  imports Vmm_Props
begin

text \<open>
  The kernel heap's page allocation (\<^verbatim>\<open>vmm_alloc_kernel_pages\<close>): the loop that maps frame after frame,
  the loop that undoes a partial run, and the effect of the whole call.
\<close>

section \<open>Runs of pages\<close>

fun in_run :: "u64 \<Rightarrow> nat \<Rightarrow> u64 \<Rightarrow> bool" where
  "in_run cur 0 w = False"
| "in_run cur (Suc n) w = (same_page w cur \<or> in_run (cur + MM_PAGE_SIZE) n w)"

fun run_mapped :: "vmm \<Rightarrow> u64 \<Rightarrow> u64 \<Rightarrow> u64 list \<Rightarrow> bool" where
  "run_mapped v flags cur [] = True"
| "run_mapped v flags cur (f # fs) =
     (mapping v cur = Some (f, flags) \<and> descend (vm_mem v) (g_pml4 v) (upper_path cur) \<noteq> None \<and>
      run_mapped v flags (cur + MM_PAGE_SIZE) fs)"

lemma unat_of_nat_u64: "n < 2 ^ 64 \<Longrightarrow> unat (of_nat n :: u64) = n"
  by (simp add: unat_of_nat)

lemma page_step:
  assumes "page_aligned cur" "unat cur + 4096 * Suc n \<le> 2 ^ 48"
  shows "unat (cur + MM_PAGE_SIZE) = unat cur + 4096" "page_aligned (cur + MM_PAGE_SIZE)"
    "unat (cur + MM_PAGE_SIZE) + 4096 * n \<le> 2 ^ 48"
proof -
  show u: "unat (cur + MM_PAGE_SIZE) = unat cur + 4096"
    using assms(2) by (subst unat_add_small) (simp_all add: unat_page_size)
  show "page_aligned (cur + MM_PAGE_SIZE)" using assms(1) unfolding page_aligned_dvd u by simp
  show "unat (cur + MM_PAGE_SIZE) + 4096 * n \<le> 2 ^ 48" using assms(2) u by simp
qed

lemma high_bits_zero: "unat (a :: u64) < 2 ^ 48 \<Longrightarrow> 48 \<le> n \<Longrightarrow> \<not> bit a n"
proof -
  assume "unat a < 2 ^ 48" "48 \<le> n"
  then have "take_bit 48 a = a" by (simp add: word_eq_unat unsigned_take_bit_eq take_bit_nat_eq_self)
  then show ?thesis using \<open>48 \<le> n\<close> by (metis bit_take_bit_iff linorder_not_less)
qed

lemma same_page_eq:
  assumes "page_aligned a" "page_aligned b" "unat a < 2 ^ 48" "unat b < 2 ^ 48" "same_page a b"
  shows "a = b"
proof (rule bit_eqI)
  fix n :: nat
  consider "n < 12" | "12 \<le> n \<and> n < 48" | "48 \<le> n" by linarith
  then show "bit a n = bit b n"
    using assms high_bits_zero [OF assms(3)] high_bits_zero [OF assms(4)]
    unfolding page_aligned_bits same_page_bits by cases auto
qed

lemma earlier_not_in_run:
  assumes "page_aligned a" "page_aligned cur" "unat a < unat cur" "unat cur + 4096 * n \<le> 2 ^ 48"
  shows "\<not> in_run cur n a"
  using assms(2-4)
proof (induction n arbitrary: cur)
  case (Suc n)
  note st = page_step [OF Suc.prems(1,3)]
  have "\<not> same_page a cur" using same_page_eq [OF assms(1) Suc.prems(1)] Suc.prems(2,3) by auto
  moreover have "\<not> in_run (cur + MM_PAGE_SIZE) n a" by (rule Suc.IH) (use st Suc.prems in simp_all)
  ultimately show ?case by simp
qed simp

lemma in_run_same: "same_page w a \<Longrightarrow> in_run cur n w \<Longrightarrow> in_run cur n a"
  by (induction n arbitrary: cur) (auto simp: same_page_def)

lemma same_page_mapping:
  assumes "vm_ok v p" "same_page w va"
  shows "mapping v w = None \<longleftrightarrow> mapping v va = None"
  using query_resolve [OF vm_okD(2,3) [OF assms(1)]] assms(2) unfolding va_path_same_page [symmetric] by simp

section \<open>The mapping loop\<close>

lemma alloc_grows:
  assumes ok: "vm_ok v p" and a: "pmm_alloc_page p = (f, p1)" "f \<noteq> 0"
  shows "grows {f} (v, p) (v, p1)" "f \<in> free_frames p" "f \<notin> free_frames p1" "f \<in> used_frames p1" "f \<notin> used_frames p"
    "f \<notin> tables (vm_mem v) (g_pml4 v)" "vmm_entry_to_table f = f"
proof -
  note okD = vm_okD [OF ok]
  have f: "f \<in> free_frames p" "pmm_ok p1" "free_frames p1 = free_frames p - {f}" "used_frames p1 = insert f (used_frames p)" "f \<notin> used_frames p"
    using a okD(1) by (auto elim: pmm.alloc_cases)
  then show "f \<in> free_frames p" "f \<notin> free_frames p1" "f \<in> used_frames p1" "f \<notin> used_frames p" by simp_all
  show "f \<notin> tables (vm_mem v) (g_pml4 v)" using f(1) okD(4) by blast
  show "vmm_entry_to_table f = f" using f(1) okD(5) by blast
  have "vm_ok v p1" unfolding vm_ok_def f(3,4) using okD f(1,2) by blast
  then show "grows {f} (v, p) (v, p1)" unfolding grows_def using f(3,4) by auto
qed

lemma free_ok:
  assumes ok: "vm_ok v p" and f: "f \<in> used_frames p" "f \<notin> tables (vm_mem v) (g_pml4 v)"
  shows "vm_ok v (pmm_free_page f p)" "free_frames (pmm_free_page f p) = insert f (free_frames p)"
    "used_frames (pmm_free_page f p) = used_frames p - {f}"
proof -
  note okD = vm_okD [OF ok]
  have r: "pmm_ok (pmm_free_page f p)" "free_frames (pmm_free_page f p) = insert f (free_frames p)"
    "used_frames (pmm_free_page f p) = used_frames p - {f}"
    using pmm.release_used [OF okD(1) f(1)] by blast+
  then show "free_frames (pmm_free_page f p) = insert f (free_frames p)"
    "used_frames (pmm_free_page f p) = used_frames p - {f}" by blast+
  show "vm_ok v (pmm_free_page f p)" unfolding vm_ok_def r(2,3) using okD r(1) f by blast
qed

definition run_result :: "u64 \<Rightarrow> u64 \<Rightarrow> u64 list \<Rightarrow> vmm \<times> pmm \<Rightarrow> vmm \<times> pmm \<Rightarrow> bool" where
  "run_result flags cur fs vp vp' \<longleftrightarrow> (let (v, p) = vp; (v', p') = vp' in
     grows (set fs) (v, p) (v', p') \<and> run_mapped v' flags cur fs \<and>
     (\<forall>w. if in_run cur (length fs) w then mapping v w = None else mapping v' w = mapping v w) \<and>
     distinct fs \<and> set fs \<subseteq> free_frames p \<and> set fs \<subseteq> used_frames p' \<and> set fs \<inter> tables (vm_mem v') (g_pml4 v') = {})"

lemma run_result_Nil:
  assumes "grows {} (v, p) (v', p')" "\<And>w. mapping v' w = mapping v w"
  shows "run_result flags cur [] (v, p) (v', p')"
  using assms by (simp add: run_result_def)

lemma map_fails_run:
  assumes ok: "vm_ok v p" and a: "pmm_alloc_page p = (f, p1)" "f \<noteq> 0"
    and m: "vmm_map_page cur f fl (v, p1) = (0, v2, p2)"
  shows "run_result flags cur [] (v, p) (v2, pmm_free_page f p2)"
proof (rule run_result_Nil)
  note al = alloc_grows [OF ok a]
  note ok1 = growsD(1) [OF al(1)]
  note ex = map_page_failure(1) [OF ok1 m]
  note g = growsD [OF extends_grows [OF ex]]
  show "\<And>w. mapping v2 w = mapping v w" by (rule extends_spaceD(4) [OF ex])
  have "f \<in> used_frames p2" using al(4) g(7) by blast
  moreover have nt: "f \<notin> tables (vm_mem v2) (g_pml4 v)" using g(5) al(3,6) by blast
  ultimately have f: "vm_ok v2 (pmm_free_page f p2)" "free_frames (pmm_free_page f p2) = insert f (free_frames p2)"
    "used_frames (pmm_free_page f p2) = used_frames p2 - {f}" using free_ok [OF g(1)] g(3) by simp_all
  note a1 = growsD [OF al(1)]
  have "free_frames (pmm_free_page f p2) \<subseteq> free_frames p" unfolding f(2) using g(6) a1(6) al(2) by blast
  moreover have "used_frames p \<subseteq> used_frames (pmm_free_page f p2)" unfolding f(3) using g(7) a1(7) al(5) by blast
  moreover have "used_frames (pmm_free_page f p2) \<subseteq> used_frames p \<union> tables (vm_mem v2) (g_pml4 v)"
    unfolding f(3) using g(8) a1(8) g(9) by blast
  moreover have "tables (vm_mem v2) (g_pml4 v) \<subseteq> tables (vm_mem v) (g_pml4 v) \<union> free_frames p" using g(5) a1(6) by blast
  ultimately show "grows {} (v, p) (v2, pmm_free_page f p2)" unfolding grows_def using f(1) g(2,4) by auto
qed

lemma run_mapped_later:
  assumes "grows D (v, p) (v', p')" "run_mapped v flags cur fs"
    "\<And>w. in_run cur (length fs) w \<Longrightarrow> mapping v' w = mapping v w"
  shows "run_mapped v' flags cur fs"
  using assms(2,3)
proof (induction fs arbitrary: cur)
  case (Cons f fs)
  have "same_page cur cur" by (simp add: same_page_def)
  then have "mapping v' cur = mapping v cur" using Cons.prems(2) by simp
  moreover have "descend (vm_mem v') (g_pml4 v') (upper_path cur) \<noteq> None"
    using growsD(3,4) [OF assms(1)] Cons.prems(1) by force
  moreover have "run_mapped v' flags (cur + MM_PAGE_SIZE) fs" using Cons by simp
  ultimately show ?case using Cons.prems(1) by simp
qed simp

lemma run_result_Cons:
  assumes ok: "vm_ok v p" and a: "pmm_alloc_page p = (f, p1)" "f \<noteq> 0"
    and m: "vmm_map_page cur f fl (v, p1) = (k, v2, p2)" "k \<noteq> 0"
    and r: "run_result (leaf_flags fl) (cur + MM_PAGE_SIZE) fs (v2, p2) (v', p')"
    and c: "page_aligned cur" "unat cur + 4096 * Suc (length fs) \<le> 2 ^ 48"
  shows "run_result (leaf_flags fl) cur (f # fs) (v, p) (v', p')"
proof -
  note al = alloc_grows [OF ok a]
  note ok1 = growsD(1) [OF al(1)]
  note mp = map_page_success [OF ok1 m]
  note g12 = growsD [OF mp(1)]
  have gv2: "grows {f} (v, p) (v2, p2)" using grows_trans [OF al(1) mp(1)] by simp
  have R: "grows (set fs) (v2, p2) (v', p')" "run_mapped v' (leaf_flags fl) (cur + MM_PAGE_SIZE) fs"
    "\<And>w. in_run (cur + MM_PAGE_SIZE) (length fs) w \<Longrightarrow> mapping v2 w = None"
    "\<And>w. \<not> in_run (cur + MM_PAGE_SIZE) (length fs) w \<Longrightarrow> mapping v' w = mapping v2 w"
    "distinct fs" "set fs \<subseteq> free_frames p2" "set fs \<subseteq> used_frames p'" "set fs \<inter> tables (vm_mem v') (g_pml4 v') = {}"
    using r by (auto simp: run_result_def split: if_splits)
  note gR = growsD [OF R(1)]
  have g: "grows (set (f # fs)) (v, p) (v', p')" using grows_trans [OF gv2 R(1)] by simp
  have fnf: "f \<notin> free_frames p2" using al(3) g12(6) by blast
  have fu: "f \<in> used_frames p'" using al(4) g12(7) gR(7) by blast
  have fnt: "f \<notin> tables (vm_mem v') (g_pml4 v')" using gR(3,5) g12(3,5) al(3,6) fnf by auto
  have sp: "same_page cur cur" by (simp add: same_page_def)
  have off: "cur AND VMM_PAGE_OFFSET_MASK = 0" using c(1) by (simp add: page_aligned_def)
  have "f AND VMM_PHYS_MASK = f" using al(7) by (simp add: vmm_entry_to_table_def)
  then have mc: "mapping v2 cur = Some (f, leaf_flags fl)" using mp(6) [of cur] sp off by simp
  note st = page_step [OF c]
  have nr: "\<not> in_run (cur + MM_PAGE_SIZE) (length fs) cur"
    by (rule earlier_not_in_run [OF c(1) st(2)]) (use st in simp_all)
  have dc: "descend (vm_mem v') (g_pml4 v') (upper_path cur) \<noteq> None" using mp(7) gR(3,4) g12(3) by force
  have run: "run_mapped v' (leaf_flags fl) cur (f # fs)" using mc R(4) [OF nr] dc R(2) by simp
  have none: "mapping v w = None" if "same_page w cur" for w using same_page_mapping [OF ok that] mp(4) by simp
  have "mapping v w = None" if "in_run cur (length (f # fs)) w" for w
  proof (cases "same_page w cur")
    case False
    then have "mapping v2 w = None" using that R(3) by simp
    then show ?thesis using mp(6) [of w] False by simp
  qed (rule none)
  moreover have "mapping v' w = mapping v w" if "\<not> in_run cur (length (f # fs)) w" for w
    using that R(4) [of w] mp(6) [of w] by simp
  moreover have "set (f # fs) \<subseteq> free_frames p" using al(2) R(6) growsD(6) [OF gv2] by auto
  moreover have "distinct (f # fs)" using R(5,6) fnf by auto
  ultimately show ?thesis unfolding run_result_def prod.case Let_def
    using g run fu fnt R(7,8) by simp
qed

lemma map_loop_run:
  assumes "vm_ok v p" "page_aligned cur" "unat cur + 4096 * n \<le> 2 ^ 48" "map_loop n cur flags (v, p) = (cur', v', p')"
  shows "\<exists>fs. length fs \<le> n \<and> cur' = cur + of_nat (length fs) * MM_PAGE_SIZE \<and>
    run_result (leaf_flags (flags OR VMM_MAP_WRITABLE)) cur fs (v, p) (v', p')"
  using assms
proof (induction n arbitrary: cur v p)
  case 0
  then show ?case using run_result_Nil [OF extends_grows [OF extends_refl]] by (intro exI [of _ "[]"]) simp
next
  case (Suc n)
  obtain f p1 where a: "pmm_alloc_page p = (f, p1)" by (cases "pmm_alloc_page p")
  show ?case
  proof (cases "f = 0")
    case True
    then have "p1 = p" using alloc_fails [OF vm_okD(1) [OF Suc.prems(1)]] a by simp
    then show ?thesis using run_result_Nil [OF extends_grows [OF extends_refl [OF Suc.prems(1)]]] Suc.prems(4) a True
      by (intro exI [of _ "[]"]) simp
  next
    case f: False
    obtain k v2 p2 where m: "vmm_map_page cur f (flags OR VMM_MAP_WRITABLE) (v, p1) = (k, v2, p2)"
      by (cases "vmm_map_page cur f (flags OR VMM_MAP_WRITABLE) (v, p1)")
    show ?thesis
    proof (cases "k = 0")
      case True
      then show ?thesis using map_fails_run [OF Suc.prems(1) a f, of cur "flags OR VMM_MAP_WRITABLE" v2 p2] m Suc.prems(4) a f
        by (intro exI [of _ "[]"]) simp
    next
      case k: False
      note st = page_step [OF Suc.prems(2,3)]
      have ok2: "vm_ok v2 p2" using growsD(1) [OF map_page_success(1) [OF growsD(1) [OF alloc_grows(1) [OF Suc.prems(1) a f]] m k]] .
      have "map_loop n (cur + MM_PAGE_SIZE) flags (v2, p2) = (cur', v', p')" using Suc.prems(4) a f m k by simp
      from Suc.IH [OF ok2 st(2,3) this] obtain fs where fs: "length fs \<le> n"
        "cur' = cur + MM_PAGE_SIZE + of_nat (length fs) * MM_PAGE_SIZE"
        "run_result (leaf_flags (flags OR VMM_MAP_WRITABLE)) (cur + MM_PAGE_SIZE) fs (v2, p2) (v', p')" by blast
      have "unat cur + 4096 * Suc (length fs) \<le> 2 ^ 48" using Suc.prems(3) fs(1) by simp
      then have "run_result (leaf_flags (flags OR VMM_MAP_WRITABLE)) cur (f # fs) (v, p) (v', p')"
        by (rule run_result_Cons [OF Suc.prems(1) a f m k fs(3) Suc.prems(2)])
      then show ?thesis using fs(1,2) by (intro exI [of _ "f # fs"]) (simp add: algebra_simps)
    qed
  qed
qed

section \<open>The undoing loop\<close>

lemma unmap_loop_run:
  assumes "vm_ok v p" "page_aligned cur" "unat cur + 4096 * length fs \<le> 2 ^ 48" "run_mapped v flags cur fs"
    "distinct fs" "set fs \<subseteq> used_frames p" "set fs \<inter> tables (vm_mem v) (g_pml4 v) = {}"
  shows "\<exists>v' p'. unmap_loop cur (cur + of_nat (length fs) * MM_PAGE_SIZE) (v, p) = Some (v', p') \<and> vm_ok v' p' \<and>
    v' = v\<lparr>vm_mem := vm_mem v'\<rparr> \<and> (\<forall>w. mapping v' w = (if in_run cur (length fs) w then None else mapping v w)) \<and>
    used_frames p' = used_frames p - set fs \<and> tables (vm_mem v') (g_pml4 v') = tables (vm_mem v) (g_pml4 v)"
  using assms
proof (induction fs arbitrary: cur v p)
  case Nil
  then show ?case by (simp add: unmap_loop.simps)
next
  case (Cons f fs)
  let ?stop = "cur + of_nat (length (f # fs)) * MM_PAGE_SIZE"
  note okD = vm_okD [OF Cons.prems(1)]
  have len: "unat cur + 4096 * Suc (length fs) \<le> 2 ^ 48" using Cons.prems(3) by simp
  note st = page_step [OF Cons.prems(2) len]
  have mc: "mapping v cur = Some (f, flags)" and dc: "descend (vm_mem v) (g_pml4 v) (upper_path cur) \<noteq> None"
    and rest: "run_mapped v flags (cur + MM_PAGE_SIZE) fs" using Cons.prems(4) by simp_all
  have mne: "mapping v cur \<noteq> None" using mc by simp
  obtain v1 where u: "vmm_unmap_page cur (v, p) = (1, v1, p)" "grows {} (v, p) (v1, p)"
    "tables (vm_mem v1) (g_pml4 v) = tables (vm_mem v) (g_pml4 v)"
    "\<And>w. mapping v1 w = (if same_page w cur then None else mapping v w)"
    using unmap_leaf [OF Cons.prems(1,2) dc mne] by metis
  note g = growsD [OF u(2)]
  have fu: "f \<in> used_frames p" "f \<notin> tables (vm_mem v1) (g_pml4 v1)" using Cons.prems(6,7) u(3) g(3) by auto
  note fr = free_ok [OF g(1) fu]
  have ft: "f AND VMM_PHYS_MASK = f" using okD(5) fu(1) by (simp add: vmm_entry_to_table_def)
  have "of_nat (length (f # fs)) * MM_PAGE_SIZE = of_nat (4096 * Suc (length fs))" by (simp add: MM_PAGE_SIZE_def algebra_simps)
  moreover have "unat (of_nat (4096 * Suc (length fs)) :: u64) = 4096 * Suc (length fs)"
    using len by (intro unat_of_nat_u64) simp
  ultimately have "unat ?stop = unat cur + 4096 * Suc (length fs)"
    using len by (subst unat_add_small) simp_all
  then have lt: "cur < ?stop" by (simp add: word_less_unat)
  have nr: "\<not> in_run (cur + MM_PAGE_SIZE) (length fs) cur"
    by (rule earlier_not_in_run [OF Cons.prems(2) st(2)]) (use st in simp_all)
  have nsp: "\<not> same_page w cur" if "in_run (cur + MM_PAGE_SIZE) (length fs) w" for w
    using in_run_same [OF _ that] nr by blast
  have "run_mapped v1 flags (cur + MM_PAGE_SIZE) fs"
    by (rule run_mapped_later [OF u(2) rest]) (use u(4) nsp in simp)
  moreover have "set fs \<subseteq> used_frames (pmm_free_page f p)" using Cons.prems(5,6) unfolding fr(3) by auto
  moreover have "set fs \<inter> tables (vm_mem v1) (g_pml4 v1) = {}" using Cons.prems(7) u(3) g(3) by auto
  ultimately obtain v' p' where r: "unmap_loop (cur + MM_PAGE_SIZE) (cur + MM_PAGE_SIZE + of_nat (length fs) * MM_PAGE_SIZE)
      (v1, pmm_free_page f p) = Some (v', p')" "vm_ok v' p'" "v' = v1\<lparr>vm_mem := vm_mem v'\<rparr>"
    "\<forall>w. mapping v' w = (if in_run (cur + MM_PAGE_SIZE) (length fs) w then None else mapping v1 w)"
    "used_frames p' = used_frames (pmm_free_page f p) - set fs" "tables (vm_mem v') (g_pml4 v') = tables (vm_mem v1) (g_pml4 v1)"
    using Cons.IH [OF fr(1) st(2,3)] Cons.prems(5) by auto
  have "unmap_loop cur ?stop (v, p) = Some (v', p')"
    using lt mc u(1) r(1) ft by (subst unmap_loop.simps) (simp add: translate_query algebra_simps)
  moreover have "v' = v\<lparr>vm_mem := vm_mem v'\<rparr>"
  proof -
    have "v' = (v\<lparr>vm_mem := vm_mem v1\<rparr>)\<lparr>vm_mem := vm_mem v'\<rparr>" using r(3) unfolding g(2) [symmetric] .
    then show ?thesis by simp
  qed
  ultimately show ?case using r(2,4-6) u(3,4) g(3) fr(3) by auto
qed

section \<open>The whole call\<close>

lemma run_mapped_nth:
  "run_mapped v flags cur fs \<Longrightarrow> k < length fs \<Longrightarrow> mapping v (cur + of_nat k * MM_PAGE_SIZE) = Some (fs ! k, flags)"
proof (induction fs arbitrary: cur k)
  case (Cons f fs)
  show ?case
  proof (cases k)
    case (Suc j)
    have eq: "cur + of_nat k * MM_PAGE_SIZE = (cur + MM_PAGE_SIZE) + of_nat j * MM_PAGE_SIZE" by (simp add: Suc algebra_simps)
    show ?thesis unfolding eq using Cons.IH [of "cur + MM_PAGE_SIZE" j] Cons.prems Suc by simp
  qed (use Cons.prems in simp)
qed simp

lemma heap_next_irrelevant [simp]:
  "vm_ok (v\<lparr>g_kernel_heap_next := h\<rparr>) p = vm_ok v p" "mapping (v\<lparr>g_kernel_heap_next := h\<rparr>) w = mapping v w"
  by (simp_all add: vm_ok_def vmm_query_mapping_def Let_def)

text \<open>The guards of the call exclude wrap-around.\<close>

lemma requested_bytes_exact:
  fixes n :: u64
  assumes "(n * MM_PAGE_SIZE) div MM_PAGE_SIZE = n"
  shows "unat (n * MM_PAGE_SIZE) = 4096 * unat n"
proof -
  let ?x = "4096 * unat n"
  have u: "unat (n * MM_PAGE_SIZE) = ?x mod 2 ^ 64" by (simp add: unat_word_ariths unat_page_size mult.commute)
  have "unat (n * MM_PAGE_SIZE) div 4096 = unat n" using arg_cong [OF assms, of unat] by (simp add: unat_div unat_page_size)
  then have "unat n \<le> (?x mod 2 ^ 64) div 4096" unfolding u by simp
  then have "?x \<le> ?x mod 2 ^ 64" by (simp add: less_eq_div_iff_mult_less_eq mult.commute)
  then show ?thesis using u mod_less_eq_dividend [of ?x "2 ^ 64"] by linarith
qed

lemma no_wrap_end:
  fixes a b :: u64
  assumes "\<not> a > UINT64_MAX - b"
  shows "unat (a + b) = unat a + unat b"
proof -
  have "unat (UINT64_MAX - b) = 2 ^ 64 - 1 - unat b"
    by (subst unat_diff_le) (simp_all add: unsigned_minus_1_eq_mask mask_eq_exp_minus_1)
  moreover have "unat a \<le> unat (UINT64_MAX - b)" using assms by (simp add: word_less_unat)
  moreover have "unat b < 2 ^ 64" using unsigned_less [of b] by simp
  ultimately show ?thesis by (intro unat_add_small) simp
qed

definition heap_ok :: "vmm \<Rightarrow> bool" where
  "heap_ok v \<longleftrightarrow> page_aligned (g_kernel_heap_next v) \<and> 0 < kernel_heap_base (g_kernel_layout v) \<and>
     unat (g_kernel_heap_limit v) \<le> 2 ^ 48"

text \<open>What a successful call has done, with \<open>fs\<close> the frames behind the new pages.\<close>

definition heap_grown :: "u64 \<Rightarrow> nat \<Rightarrow> u64 list \<Rightarrow> vmm \<times> pmm \<Rightarrow> vmm \<times> pmm \<Rightarrow> bool" where
  "heap_grown flags n fs vp vp' \<longleftrightarrow> (let (v, p) = vp; (v', p') = vp'; start = g_kernel_heap_next v in
     unat (g_kernel_heap_next v') = unat start + 4096 * n \<and> g_kernel_heap_next v' \<le> g_kernel_heap_limit v \<and>
     length fs = n \<and> distinct fs \<and> set fs \<subseteq> free_frames p \<inter> used_frames p' \<and> used_frames p \<subseteq> used_frames p' \<and>
     (\<forall>k<n. mapping v' (start + of_nat k * MM_PAGE_SIZE) = Some (fs ! k, leaf_flags (flags OR VMM_MAP_WRITABLE))) \<and>
     (\<forall>w. if in_run start n w then mapping v w = None else mapping v' w = mapping v w))"

lemma alloc_kernel_pages_cases:
  assumes ok: "vm_ok v p" and h: "heap_ok v"
  obtains "vmm_alloc_kernel_pages n flags (v, p) = Some (0, v, p)"
  | cur v1 p1 fs where
      "unat (g_kernel_heap_next v) + 4096 * unat n \<le> unat (g_kernel_heap_limit v)" "g_kernel_heap_next v \<noteq> 0"
      "length fs \<le> unat n" "cur = g_kernel_heap_next v + of_nat (length fs) * MM_PAGE_SIZE"
      "run_result (leaf_flags (flags OR VMM_MAP_WRITABLE)) (g_kernel_heap_next v) fs (v, p) (v1, p1)"
      "vmm_alloc_kernel_pages n flags (v, p) =
        (if length fs < unat n then map_option (\<lambda>vp. (0, vp)) (unmap_loop (g_kernel_heap_next v) cur (v1, p1))
         else Some (g_kernel_heap_next v, v1\<lparr>g_kernel_heap_next := cur\<rparr>, p1))"
proof -
  let ?start = "g_kernel_heap_next v" and ?bytes = "n * MM_PAGE_SIZE"
  show ?thesis
  proof (cases "n = 0 \<or> ?bytes div MM_PAGE_SIZE \<noteq> n \<or> ?start > UINT64_MAX - ?bytes \<or>
      ?start < kernel_heap_base (g_kernel_layout v) \<or> ?start + ?bytes > g_kernel_heap_limit v")
    case True
    then have "vmm_alloc_kernel_pages n flags (v, p) = Some (0, v, p)"
      using vm_okD(2) [OF ok] by (auto simp: vmm_alloc_kernel_pages_def Let_def)
    then show ?thesis by (rule that(1))
  next
    case False
    have b: "unat ?bytes = 4096 * unat n" using False by (intro requested_bytes_exact) simp
    have e: "unat (?start + ?bytes) = unat ?start + 4096 * unat n" using no_wrap_end [where a = ?start and b = ?bytes] False b by simp
    have lim: "unat ?start + 4096 * unat n \<le> unat (g_kernel_heap_limit v)" using False e by (simp add: word_less_unat)
    have nz: "?start \<noteq> 0" using False h by (auto simp: heap_ok_def)
    obtain cur v1 p1 where m: "map_loop (unat n) ?start flags (v, p) = (cur, v1, p1)" by (cases "map_loop (unat n) ?start flags (v, p)")
    have "unat ?start + 4096 * unat n \<le> 2 ^ 48" using lim h by (simp add: heap_ok_def)
    from map_loop_run [OF ok _ this m] h obtain fs where fs: "length fs \<le> unat n"
      "cur = ?start + of_nat (length fs) * MM_PAGE_SIZE"
      "run_result (leaf_flags (flags OR VMM_MAP_WRITABLE)) ?start fs (v, p) (v1, p1)" unfolding heap_ok_def by blast
    have "of_nat (length fs) * MM_PAGE_SIZE = of_nat (4096 * length fs)" by (simp add: MM_PAGE_SIZE_def mult.commute)
    moreover have "unat (of_nat (4096 * length fs) :: u64) = 4096 * length fs"
      using fs(1) lim h by (intro unat_of_nat_u64) (simp add: heap_ok_def)
    ultimately have "unat cur = unat ?start + 4096 * length fs"
      unfolding fs(2) using fs(1) lim h by (subst unat_add_small) (simp_all add: heap_ok_def)
    then have c: "cur \<noteq> ?start + ?bytes \<longleftrightarrow> length fs < unat n" using e fs(1) by (auto simp: word_eq_unat)
    have r: "vmm_alloc_kernel_pages n flags (v, p) =
        (if length fs < unat n then map_option (\<lambda>vp. (0, vp)) (unmap_loop ?start cur (v1, p1))
         else Some (?start, v1\<lparr>g_kernel_heap_next := cur\<rparr>, p1))"
      using False vm_okD(2) [OF ok] m by (simp add: vmm_alloc_kernel_pages_def Let_def c)
    show ?thesis by (rule that(2) [OF lim nz fs r])
  qed
qed

lemma run_length_word:
  fixes start :: u64
  assumes "unat start + 4096 * n \<le> 2 ^ 48"
  shows "unat (start + of_nat n * MM_PAGE_SIZE) = unat start + 4096 * n"
proof -
  have "of_nat n * MM_PAGE_SIZE = of_nat (4096 * n)" by (simp add: MM_PAGE_SIZE_def mult.commute)
  moreover have "unat (of_nat (4096 * n) :: u64) = 4096 * n" using assms by (intro unat_of_nat_u64) simp
  ultimately show ?thesis using assms by (subst unat_add_small) simp_all
qed

text \<open>A run that stopped short is undone, and all that remains of it are page tables.\<close>

lemma short_run_undone:
  assumes h: "heap_ok v" and ok: "vm_ok v p" and b48: "unat (g_kernel_heap_next v) + 4096 * length fs \<le> 2 ^ 48"
    and run: "run_result fl (g_kernel_heap_next v) fs (v, p) (v1, p1)"
  obtains v' p' where "unmap_loop (g_kernel_heap_next v) (g_kernel_heap_next v + of_nat (length fs) * MM_PAGE_SIZE) (v1, p1) = Some (v', p')"
    "vm_ok v' p'" "heap_ok v'" "\<And>w. mapping v' w = mapping v w" "g_kernel_heap_next v' = g_kernel_heap_next v"
    "used_frames p \<subseteq> used_frames p'" "used_frames p' \<subseteq> used_frames p \<union> tables (vm_mem v') (g_pml4 v')"
proof -
  let ?start = "g_kernel_heap_next v"
  have g: "grows (set fs) (v, p) (v1, p1)" and rm: "run_mapped v1 fl ?start fs"
    and fr: "\<And>w. if in_run ?start (length fs) w then mapping v w = None else mapping v1 w = mapping v w"
    and fs: "distinct fs" "set fs \<subseteq> free_frames p" "set fs \<subseteq> used_frames p1" "set fs \<inter> tables (vm_mem v1) (g_pml4 v1) = {}"
    using run by (auto simp: run_result_def)
  note gD = growsD [OF g]
  have al: "page_aligned ?start" using h by (simp add: heap_ok_def)
  obtain v' p' where u: "unmap_loop ?start (?start + of_nat (length fs) * MM_PAGE_SIZE) (v1, p1) = Some (v', p')" "vm_ok v' p'"
    "v' = v1\<lparr>vm_mem := vm_mem v'\<rparr>" "\<forall>w. mapping v' w = (if in_run ?start (length fs) w then None else mapping v1 w)"
    "used_frames p' = used_frames p1 - set fs" "tables (vm_mem v') (g_pml4 v') = tables (vm_mem v1) (g_pml4 v1)"
    using unmap_loop_run [OF gD(1) al b48 rm fs(1,3,4)] by blast
  have "v' = (v\<lparr>vm_mem := vm_mem v1\<rparr>)\<lparr>vm_mem := vm_mem v'\<rparr>" using u(3) unfolding gD(2) [symmetric] .
  then have v': "v' = v\<lparr>vm_mem := vm_mem v'\<rparr>" by simp
  have "free_frames p \<inter> used_frames p = {}" using frames_disjoint [OF vm_okD(1) [OF ok]] by simp
  then have "set fs \<inter> used_frames p = {}" using fs(2) by blast
  then have sub: "used_frames p \<subseteq> used_frames p'" using gD(7) u(5) by auto
  show ?thesis
    by (rule that [OF u(1,2) _ _ _ sub])
      (use u(4-6) fr gD(3,8) h in \<open>auto split: if_splits simp: heap_ok_def\<close>, (subst v', simp)+)
qed

lemma full_run_done:
  assumes h: "heap_ok v" and lim: "unat (g_kernel_heap_next v) + 4096 * n \<le> unat (g_kernel_heap_limit v)" and n: "length fs = n"
    and cur: "cur = g_kernel_heap_next v + of_nat n * MM_PAGE_SIZE"
    and run: "run_result (leaf_flags (flags OR VMM_MAP_WRITABLE)) (g_kernel_heap_next v) fs (v, p) (v1, p1)"
  shows "heap_grown flags n fs (v, p) (v1\<lparr>g_kernel_heap_next := cur\<rparr>, p1)" "heap_ok (v1\<lparr>g_kernel_heap_next := cur\<rparr>)"
    "vm_ok (v1\<lparr>g_kernel_heap_next := cur\<rparr>) p1"
proof -
  have g: "grows (set fs) (v, p) (v1, p1)"
    and rm: "run_mapped v1 (leaf_flags (flags OR VMM_MAP_WRITABLE)) (g_kernel_heap_next v) fs" using run by (auto simp: run_result_def)
  note gD = growsD [OF g]
  have uc: "unat cur = unat (g_kernel_heap_next v) + 4096 * n" unfolding cur using lim h by (intro run_length_word) (simp add: heap_ok_def)
  have eqs: "g_kernel_heap_limit v1 = g_kernel_heap_limit v" "g_kernel_layout v1 = g_kernel_layout v" by (subst gD(2), simp)+
  have "page_aligned cur" using h unfolding page_aligned_dvd uc heap_ok_def by simp
  then show "heap_ok (v1\<lparr>g_kernel_heap_next := cur\<rparr>)" using h eqs by (simp add: heap_ok_def)
  show "vm_ok (v1\<lparr>g_kernel_heap_next := cur\<rparr>) p1" using gD(1) by simp
  have "cur \<le> g_kernel_heap_limit v" using uc lim by (simp add: word_le_unat)
  then show "heap_grown flags n fs (v, p) (v1\<lparr>g_kernel_heap_next := cur\<rparr>, p1)"
    unfolding heap_grown_def using uc n run gD(7) run_mapped_nth [OF rm] by (auto simp: run_result_def)
qed

lemma alloc_kernel_pages_effect:
  assumes ok: "vm_ok v p" and h: "heap_ok v"
  shows "\<exists>a v' p'. vmm_alloc_kernel_pages n flags (v, p) = Some (a, v', p') \<and> vm_ok v' p' \<and> heap_ok v' \<and>
    (if a = 0
     then (\<forall>w. mapping v' w = mapping v w) \<and> g_kernel_heap_next v' = g_kernel_heap_next v \<and> used_frames p \<subseteq> used_frames p' \<and>
       used_frames p' \<subseteq> used_frames p \<union> tables (vm_mem v') (g_pml4 v')
     else a = g_kernel_heap_next v \<and> (\<exists>fs. heap_grown flags (unat n) fs (v, p) (v', p')))"
  using ok h
proof (rule alloc_kernel_pages_cases [where n = n and flags = flags])
  assume "vmm_alloc_kernel_pages n flags (v, p) = Some (0, v, p)"
  then show ?thesis using ok h by auto
next
  let ?start = "g_kernel_heap_next v"
  fix cur v1 p1 fs
  assume lim: "unat ?start + 4096 * unat n \<le> unat (g_kernel_heap_limit v)" and nz: "?start \<noteq> 0" and len: "length fs \<le> unat n"
    and cur: "cur = ?start + of_nat (length fs) * MM_PAGE_SIZE"
    and run: "run_result (leaf_flags (flags OR VMM_MAP_WRITABLE)) ?start fs (v, p) (v1, p1)"
    and r: "vmm_alloc_kernel_pages n flags (v, p) =
        (if length fs < unat n then map_option (\<lambda>vp. (0, vp)) (unmap_loop ?start cur (v1, p1))
         else Some (?start, v1\<lparr>g_kernel_heap_next := cur\<rparr>, p1))"
  show ?thesis
  proof (cases "length fs < unat n")
    case True
    have "unat ?start + 4096 * length fs \<le> 2 ^ 48" using lim h len by (simp add: heap_ok_def)
    then show ?thesis
    proof (rule short_run_undone [OF h ok _ run])
      fix v' p'
      assume u: "unmap_loop ?start (?start + of_nat (length fs) * MM_PAGE_SIZE) (v1, p1) = Some (v', p')"
        "vm_ok v' p'" "heap_ok v'" "\<And>w. mapping v' w = mapping v w" "g_kernel_heap_next v' = ?start"
        "used_frames p \<subseteq> used_frames p'" "used_frames p' \<subseteq> used_frames p \<union> tables (vm_mem v') (g_pml4 v')"
      have "vmm_alloc_kernel_pages n flags (v, p) = Some (0, v', p')" using r u(1) True cur by simp
      then show ?thesis using u(2-) by auto
    qed
  next
    case False
    then have n: "length fs = unat n" using len by simp
    note d = full_run_done [OF h lim n cur [unfolded n] run]
    show ?thesis using r False nz d by auto
  qed
qed

text \<open>
  C8. The kernel heap.  An allocation of pages always returns.  When it succeeds, the new pages
  follow the heap's end, each is backed by its own frame that was free before, with the
  requested permissions and writable, none of their addresses was mapped before, every other
  translation is kept and the heap stays below its limit.  When it fails it returns NULL, all
  translations are as before, and the only frames it keeps are page tables.
\<close>

theorem vmm_alloc_kernel_pages_effect:
  assumes ok: "vm_ok v p" and h: "heap_ok v"
  shows "\<exists>a v' p'. vmm_alloc_kernel_pages n flags (v, p) = Some (a, v', p') \<and> vm_ok v' p' \<and> heap_ok v' \<and>
    (if a = 0
     then (\<forall>w. mapping v' w = mapping v w) \<and> g_kernel_heap_next v' = g_kernel_heap_next v \<and> used_frames p \<subseteq> used_frames p' \<and>
       used_frames p' \<subseteq> used_frames p \<union> tables (vm_mem v') (g_pml4 v')
     else a = g_kernel_heap_next v \<and> (\<exists>fs. heap_grown flags (unat n) fs (v, p) (v', p')))"
  by (rule alloc_kernel_pages_effect [OF ok h])

theorem vmm_alloc_kernel_pages_effect_witness:
  "\<exists>v' p' f. vmm_alloc_kernel_pages 1 0 (vmm_demo, pmm_demo) = Some (0x40000000, v', p') \<and> vm_ok v' p' \<and>
     f \<in> free_frames pmm_demo \<and> mapping v' 0x40000000 = Some (f, 2)"
proof -
  have h: "heap_ok vmm_demo" by (simp add: heap_ok_def vmm_demo_def page_aligned_def VMM_PAGE_OFFSET_MASK_def)
  have c: "map_option fst (vmm_alloc_kernel_pages 1 0 (vmm_demo, pmm_demo)) = Some 0x40000000" "leaf_flags (0 OR VMM_MAP_WRITABLE) = 2"
    by code_simp+
  from vmm_alloc_kernel_pages_effect [OF vmm_demo_ok h, of 1 0] c(1) obtain v' p' fs where
    r: "vmm_alloc_kernel_pages 1 0 (vmm_demo, pmm_demo) = Some (0x40000000, v', p')" "vm_ok v' p'"
      "heap_grown 0 1 fs (vmm_demo, pmm_demo) (v', p')" by auto
  then show ?thesis using c(2) by (auto simp: heap_grown_def vmm_demo_def intro!: exI [of _ "fs ! 0"])
qed

end
