(* ===== verification/Uaccess.thy ===== *)
theory Uaccess
  imports Vmm_Props
begin

text \<open>
  Access to user memory, kernel/mm/uaccess.c: the check that a range lies in user space and is
  mapped with the needed permissions, and the two copies.  The bytes of physical memory that are
  not page tables are a function of the physical address; an access at a virtual address goes
  through the translation of \<open>Vmm\<close>.  Kernel buffers are lists of bytes and \<open>None\<close> is NULL.  The
  processor's override of supervisor access prevention (\<^verbatim>\<open>stac\<close>, \<^verbatim>\<open>clac\<close>) is not part of the state.
\<close>

section \<open>Operations\<close>

definition UACCESS_USER_MAX_VA :: u64 where "UACCESS_USER_MAX_VA = 0x00007FFFFFFFFFFF"

type_synonym phys_bytes = "u64 \<Rightarrow> u8"

text \<open>The loop over the pages of the range; its code gives no bound, so a run that never ends is \<open>None\<close>.\<close>

partial_function (option) validate_loop :: "u64 \<Rightarrow> u64 \<Rightarrow> bool \<Rightarrow> vmm \<Rightarrow> int option" where
  [code]: "validate_loop page_addr last_page require_write v =
     (case vmm_query_mapping page_addr True True v of
        None \<Rightarrow> Some 0
      | Some (phys_addr, flags) \<Rightarrow>
          if flags AND VMM_MAP_USER = 0 then Some 0
          else if require_write \<and> flags AND VMM_MAP_WRITABLE = 0 then Some 0
          else if page_addr = last_page then Some 1
          else validate_loop (page_addr + MM_PAGE_SIZE) last_page require_write v)"

definition uaccess_validate_range :: "u64 \<Rightarrow> u64 \<Rightarrow> bool \<Rightarrow> vmm \<Rightarrow> int option" where
  "uaccess_validate_range user_addr sz require_write v =
     (if sz = 0 then Some 1
      else if user_addr = 0 \<or> user_addr > UACCESS_USER_MAX_VA then Some 0
      else
        let end_addr = user_addr + sz - 1 in
        if end_addr < user_addr \<or> end_addr > UACCESS_USER_MAX_VA then Some 0
        else validate_loop (user_addr AND NOT (MM_PAGE_SIZE - 1)) (end_addr AND NOT (MM_PAGE_SIZE - 1)) require_write v)"

definition uaccess_validate_read :: "u64 \<Rightarrow> u64 \<Rightarrow> vmm \<Rightarrow> int option" where
  "uaccess_validate_read user_addr sz v = uaccess_validate_range user_addr sz False v"

definition uaccess_validate_write :: "u64 \<Rightarrow> u64 \<Rightarrow> vmm \<Rightarrow> int option" where
  "uaccess_validate_write user_addr sz v = uaccess_validate_range user_addr sz True v"

text \<open>Loads and stores of one byte at a virtual address; \<open>None\<close> is a page fault.\<close>

definition load_byte :: "vmm \<Rightarrow> phys_bytes \<Rightarrow> u64 \<Rightarrow> u8 option" where
  "load_byte v m a = map_option m (vmm_translate a True v)"

definition store_byte :: "vmm \<Rightarrow> u64 \<Rightarrow> u8 \<Rightarrow> phys_bytes \<Rightarrow> phys_bytes option" where
  "store_byte v a x m = map_option (\<lambda>pa. m(pa := x)) (vmm_translate a True v)"

text \<open>The copying loops; index by index, for \<open>n\<close> more bytes.\<close>

fun copy_in :: "nat \<Rightarrow> u64 \<Rightarrow> vmm \<Rightarrow> phys_bytes \<Rightarrow> u8 list option" where
  "copy_in 0 a v m = Some []"
| "copy_in (Suc n) a v m =
     (case load_byte v m a of None \<Rightarrow> None | Some x \<Rightarrow> map_option (Cons x) (copy_in n (a + 1) v m))"

fun copy_out :: "u64 \<Rightarrow> u8 list \<Rightarrow> vmm \<Rightarrow> phys_bytes \<Rightarrow> phys_bytes option" where
  "copy_out a [] v m = Some m"
| "copy_out a (x # xs) v m =
     (case store_byte v a x m of None \<Rightarrow> None | Some m' \<Rightarrow> copy_out (a + 1) xs v m')"

text \<open>
  The result is \<open>None\<close> for a page fault in the loop or a check that never ends; otherwise the status
  and the destination buffer, or the new memory.
\<close>

definition uaccess_copy_from_user ::
  "u8 list option \<Rightarrow> u64 \<Rightarrow> u64 \<Rightarrow> vmm \<Rightarrow> phys_bytes \<Rightarrow> (int \<times> u8 list option) option" where
  "uaccess_copy_from_user dst user_src sz v m =
     (case dst of
        None \<Rightarrow> Some (- 1, dst)
      | Some dst_bytes \<Rightarrow>
          (case uaccess_validate_read user_src sz v of
             None \<Rightarrow> None
           | Some valid \<Rightarrow>
               if valid = 0 then Some (- 1, dst)
               else map_option (\<lambda>bytes. (0, Some (bytes @ drop (unat sz) dst_bytes))) (copy_in (unat sz) user_src v m)))"

definition uaccess_copy_to_user ::
  "u64 \<Rightarrow> u8 list option \<Rightarrow> u64 \<Rightarrow> vmm \<Rightarrow> phys_bytes \<Rightarrow> (int \<times> phys_bytes) option" where
  "uaccess_copy_to_user user_dst src sz v m =
     (case src of
        None \<Rightarrow> Some (- 1, m)
      | Some src_bytes \<Rightarrow>
          (case uaccess_validate_write user_dst sz v of
             None \<Rightarrow> None
           | Some valid \<Rightarrow>
               if valid = 0 then Some (- 1, m)
               else map_option (\<lambda>m'. (0, m')) (copy_out user_dst (take (unat sz) src_bytes) v m)))"

section \<open>What the check decides\<close>

lemma unat_u64: "unat (x :: u64) < 2 ^ 64"
  using unsigned_less [of x] by simp

text \<open>A virtual address a user program may read, or write.\<close>

definition user_access :: "vmm \<Rightarrow> bool \<Rightarrow> u64 \<Rightarrow> bool" where
  "user_access v wr a \<longleftrightarrow> (case mapping v a of None \<Rightarrow> False
     | Some (_, flags) \<Rightarrow> flags AND VMM_MAP_USER \<noteq> 0 \<and> (wr \<longrightarrow> flags AND VMM_MAP_WRITABLE \<noteq> 0))"

lemma user_access_page:
  assumes "vm_ok v p" "same_page w va"
  shows "user_access v wr w \<longleftrightarrow> user_access v wr va"
  using query_resolve [OF vm_okD(2,3) [OF assms(1)]] assms(2) unfolding va_path_same_page [symmetric] user_access_def decode_def
  by (auto split: option.splits)

lemma validate_loop_step:
  "validate_loop pg lst wr v =
     (if \<not> user_access v wr pg then Some 0 else if pg = lst then Some 1 else validate_loop (pg + MM_PAGE_SIZE) lst wr v)"
  by (subst validate_loop.simps) (auto simp: user_access_def split: option.splits)

lemma all_le_Suc: "(\<forall>k\<le>Suc n. P k) \<longleftrightarrow> P 0 \<and> (\<forall>k\<le>n. P (Suc k))"
  by (metis Suc_le_mono le0 not0_implies_Suc)

lemma validate_loop_result:
  assumes "unat lst = unat pg + 4096 * n"
  shows "validate_loop pg lst wr v = Some (if \<forall>k\<le>n. user_access v wr (pg + of_nat k * MM_PAGE_SIZE) then 1 else 0)"
  using assms
proof (induction n arbitrary: pg)
  case 0
  then have "pg = lst" by (simp add: word_eq_unat)
  then show ?case by (simp add: validate_loop_step)
next
  case (Suc n)
  have l: "unat lst < 2 ^ 64" by (rule unat_u64)
  have u: "unat (pg + MM_PAGE_SIZE) = unat pg + 4096" using Suc.prems l by (subst unat_add_small) (simp_all add: unat_page_size)
  have "pg \<noteq> lst" using Suc.prems by auto
  moreover have "validate_loop (pg + MM_PAGE_SIZE) lst wr v =
      Some (if \<forall>k\<le>n. user_access v wr (pg + MM_PAGE_SIZE + of_nat k * MM_PAGE_SIZE) then 1 else 0)"
    by (rule Suc.IH) (use Suc.prems u in simp)
  moreover have "(\<forall>k\<le>Suc n. user_access v wr (pg + of_nat k * MM_PAGE_SIZE)) \<longleftrightarrow>
      user_access v wr pg \<and> (\<forall>k\<le>n. user_access v wr (pg + MM_PAGE_SIZE + of_nat k * MM_PAGE_SIZE))"
    unfolding all_le_Suc by (simp add: algebra_simps)
  ultimately show ?case by (subst validate_loop_step) simp
qed

lemma page_align_mask: "(x :: u64) AND NOT (MM_PAGE_SIZE - 1) = x AND NOT VMM_PAGE_OFFSET_MASK"
  by (simp add: MM_PAGE_SIZE_def VMM_PAGE_OFFSET_MASK_def)

lemma same_page_align: "same_page x (x AND NOT (MM_PAGE_SIZE - 1))"
  unfolding same_page_bits page_align_mask by (simp add: bit_and_iff bit_not_iff bit_offset_mask possible_bit_word)

lemma page_of:
  fixes a :: u64
  assumes "unat x = unat a + i"
  shows "same_page x ((a AND NOT (MM_PAGE_SIZE - 1)) + of_nat ((unat a + i) div 4096 - unat a div 4096) * MM_PAGE_SIZE)"
proof -
  let ?k = "(unat a + i) div 4096 - unat a div 4096"
  have x: "unat a + i < 2 ^ 64" using assms unat_u64 [of x] by simp
  have k: "4096 * (unat a div 4096) + 4096 * ?k = 4096 * ((unat a + i) div 4096)"
    by (simp add: div_le_mono algebra_simps)
  have ul: "4096 * ((unat a + i) div 4096) < 2 ^ 64" using x by simp
  have "of_nat ?k * MM_PAGE_SIZE = of_nat (4096 * ?k)" by (simp add: MM_PAGE_SIZE_def mult.commute)
  moreover have "unat (of_nat (4096 * ?k) :: u64) = 4096 * ?k" using k ul by (simp only: unat_of_nat) simp
  ultimately have "unat ((a AND NOT (MM_PAGE_SIZE - 1)) + of_nat ?k * MM_PAGE_SIZE) = 4096 * ((unat a + i) div 4096)"
    using k ul by (subst unat_add_small) (simp_all add: unat_page_align)
  also have "\<dots> = unat (x AND NOT (MM_PAGE_SIZE - 1))" by (simp add: unat_page_align assms)
  finally have "(a AND NOT (MM_PAGE_SIZE - 1)) + of_nat ?k * MM_PAGE_SIZE = x AND NOT (MM_PAGE_SIZE - 1)" by (simp add: word_eq_unat)
  then show ?thesis using same_page_align by simp
qed

text \<open>A range is accessible page by page exactly when it is byte by byte.\<close>

lemma pages_cover_bytes:
  assumes ok: "vm_ok v p" and e: "unat a + m < 2 ^ 64"
  shows "(\<forall>k\<le>(unat a + m) div 4096 - unat a div 4096. user_access v wr ((a AND NOT (MM_PAGE_SIZE - 1)) + of_nat k * MM_PAGE_SIZE)) \<longleftrightarrow>
    (\<forall>i\<le>m. user_access v wr (a + of_nat i))" (is "(\<forall>k\<le>?n. ?P k) \<longleftrightarrow> _")
proof -
  have u: "unat (a + of_nat i) = unat a + i" if "i \<le> m" for i
  proof -
    have "unat (of_nat i :: u64) = i" using that e by (simp add: unat_of_nat)
    then show ?thesis using that e by (subst unat_add_small) simp_all
  qed
  have byte: "user_access v wr (a + of_nat i) \<longleftrightarrow> ?P ((unat a + i) div 4096 - unat a div 4096)" if "i \<le> m" for i
    using user_access_page [OF ok page_of [OF u [OF that]]] .
  show ?thesis
  proof (intro iffI allI impI)
    fix i
    assume a: "\<forall>k\<le>?n. ?P k" and i: "i \<le> m"
    have "(unat a + i) div 4096 - unat a div 4096 \<le> ?n" using i by (simp add: div_le_mono diff_le_mono)
    then show "user_access v wr (a + of_nat i)" using a byte [OF i] by blast
  next
    fix k
    assume a: "\<forall>i\<le>m. user_access v wr (a + of_nat i)" and k: "k \<le> ?n"
    define i where "i = 4096 * (unat a div 4096 + k) - unat a"
    have le: "4096 * (unat a div 4096 + k) \<le> unat a + m"
    proof -
      have "unat a div 4096 + k \<le> (unat a + m) div 4096" using k div_le_mono [of "unat a" "unat a + m" 4096] by simp
      then have "4096 * (unat a div 4096 + k) \<le> 4096 * ((unat a + m) div 4096)" by simp
      then show ?thesis by (rule le_trans) simp
    qed
    have im: "i \<le> m" using le by (simp add: i_def)
    have "(unat a + i) div 4096 - unat a div 4096 = k"
    proof (cases "k = 0")
      case True
      then show ?thesis by (simp add: i_def)
    next
      case False
      have "unat a \<le> 4096 * (unat a div 4096 + k)"
        using False dividend_less_times_div [of 4096 "unat a"] by (cases k) (simp_all add: algebra_simps)
      then have "unat a + i = 4096 * (unat a div 4096 + k)" by (simp add: i_def)
      then show ?thesis by simp
    qed
    then show "?P k" using a byte [OF im] im by simp
  qed
qed

definition range_allowed :: "vmm \<Rightarrow> bool \<Rightarrow> u64 \<Rightarrow> u64 \<Rightarrow> bool" where
  "range_allowed v wr a n \<longleftrightarrow> n = 0 \<or>
     a \<noteq> 0 \<and> unat a + (unat n - 1) \<le> unat UACCESS_USER_MAX_VA \<and> (\<forall>i<unat n. user_access v wr (a + of_nat i))"

lemma validate_range_iff:
  assumes ok: "vm_ok v p"
  shows "uaccess_validate_range a n wr v = Some (if range_allowed v wr a n then 1 else 0)"
proof (cases "n = 0 \<or> a = 0 \<or> a > UACCESS_USER_MAX_VA")
  case True
  then show ?thesis by (auto simp: uaccess_validate_range_def range_allowed_def word_less_unat)
next
  case False
  define m where "m = unat n - 1"
  have n: "0 < unat n" using False by (simp add: unat_gt_0)
  then have "unat (n - 1) = m" by (subst unat_diff_le) (simp_all add: word_le_unat m_def)
  moreover have "a + n - 1 = a + (n - 1)" by simp
  ultimately have e: "unat (a + n - 1) = (unat a + m) mod 2 ^ 64" by (simp only: unat_word_ariths) simp
  have al: "unat a \<le> unat UACCESS_USER_MAX_VA" using False by (simp add: word_less_unat)
  have mx: "unat UACCESS_USER_MAX_VA < 2 ^ 47" by (simp add: UACCESS_USER_MAX_VA_def)
  have m64: "m < 2 ^ 64" using unat_u64 [of n] by (simp add: m_def)
  have bytes: "(\<forall>i<unat n. user_access v wr (a + of_nat i)) \<longleftrightarrow> (\<forall>i\<le>m. user_access v wr (a + of_nat i))"
    using n by (auto simp: m_def)
  show ?thesis
  proof (cases "unat a + m \<le> unat UACCESS_USER_MAX_VA")
    case True
    then have lt: "unat a + m < 2 ^ 64" using mx by simp
    then have ue: "unat (a + n - 1) = unat a + m" using e by simp
    have "unat (a + n - 1 AND NOT (MM_PAGE_SIZE - 1)) = unat (a AND NOT (MM_PAGE_SIZE - 1)) +
        4096 * ((unat a + m) div 4096 - unat a div 4096)"
      unfolding unat_page_align ue by (simp add: div_le_mono algebra_simps)
    note v = validate_loop_result [OF this, of wr v, unfolded pages_cover_bytes [OF ok lt]]
    have "uaccess_validate_range a n wr v = validate_loop (a AND NOT (MM_PAGE_SIZE - 1)) (a + n - 1 AND NOT (MM_PAGE_SIZE - 1)) wr v"
      using False True ue by (simp add: uaccess_validate_range_def Let_def word_less_unat)
    moreover have "range_allowed v wr a n \<longleftrightarrow> (\<forall>i\<le>m. user_access v wr (a + of_nat i))"
      using True False bytes unfolding range_allowed_def m_def by blast
    ultimately show ?thesis using v by simp
  next
    case bad: False
    have "a + n - 1 < a \<or> a + n - 1 > UACCESS_USER_MAX_VA"
    proof (cases "unat a + m < 2 ^ 64")
      case True
      then show ?thesis using e bad by (simp add: word_less_unat)
    next
      case False
      then have "(unat a + m) mod 2 ^ 64 = unat a + m - 2 ^ 64" using al mx m64 by (subst le_mod_geq) simp_all
      then have "unat (a + n - 1) < unat a" using e m64 False by simp
      then show ?thesis by (simp add: word_less_unat)
    qed
    then show ?thesis using False bad by (auto simp: uaccess_validate_range_def Let_def range_allowed_def m_def)
  qed
qed

text \<open>
  C21. The check of user ranges.  Checking page by page decides, and always ends with, exactly
  whether every byte of the range is in user space, does not wrap around and is mapped for user
  access (for writing when that is required); an empty range is always accepted.
\<close>

theorem uaccess_validate_range_exact:
  assumes "vm_ok v p"
  shows "uaccess_validate_range a n wr v = Some (if range_allowed v wr a n then 1 else 0)"
  using assms by (rule validate_range_iff)

text \<open>The example space with one page for the user at 0x40000000.\<close>

definition user_demo :: "vmm \<times> pmm" where
  "user_demo = snd (vmm_map_page 0x40000000 0x5000 6 (vmm_demo, pmm_demo))"

lemma user_demo_run:
  "vm_ok (fst user_demo) (snd user_demo)"
  "mapping (fst user_demo) w = (if same_page w 0x40000000 then Some (0x5000 OR (w AND VMM_PAGE_OFFSET_MASK), 6) else mapping vmm_demo w)"
proof -
  obtain k v1 p1 where r: "vmm_map_page 0x40000000 0x5000 6 (vmm_demo, pmm_demo) = (k, v1, p1)"
    by (cases "vmm_map_page 0x40000000 0x5000 6 (vmm_demo, pmm_demo)")
  have "fst (vmm_map_page 0x40000000 0x5000 6 (vmm_demo, pmm_demo)) = 1" by code_simp
  then have k: "k \<noteq> 0" using r by simp
  have d: "fst user_demo = v1" "snd user_demo = p1" using r by (simp_all add: user_demo_def)
  note m = map_page_success [OF vmm_demo_ok r k]
  show "vm_ok (fst user_demo) (snd user_demo)" using growsD(1) [OF m(1)] d by simp
  have "leaf_flags 6 = 6" by code_simp
  then show "mapping (fst user_demo) w = (if same_page w 0x40000000 then Some (0x5000 OR (w AND VMM_PAGE_OFFSET_MASK), 6) else mapping vmm_demo w)"
    unfolding d m(6) by (simp add: VMM_PHYS_MASK_def)
qed

lemma user_demo_page:
  assumes "same_page w 0x40000000"
  shows "vmm_translate w True (fst user_demo) = Some (0x5000 OR (w AND VMM_PAGE_OFFSET_MASK))" "user_access (fst user_demo) True w"
  using assms by (simp_all add: translate_query user_access_def user_demo_run(2) VMM_MAP_USER_def VMM_MAP_WRITABLE_def)

lemma user_demo_ok: "vm_ok (fst user_demo) (snd user_demo)" "range_allowed (fst user_demo) True 0x40000FFE 2"
  "vmm_translate 0x40000FFE True (fst user_demo) = Some 0x5FFE" "vmm_translate 0x40000FFF True (fst user_demo) = Some 0x5FFF"
proof -
  show "vm_ok (fst user_demo) (snd user_demo)" by (rule user_demo_run(1))
  have w: "same_page 0x40000FFE 0x40000000" "same_page 0x40000FFF 0x40000000" by code_simp+
  have "user_access (fst user_demo) True (0x40000FFE + of_nat i)" if "i < 2" for i
    using user_demo_page(2) [OF w(1)] user_demo_page(2) [OF w(2)] that by (auto simp: less_2_cases_iff)
  then show "range_allowed (fst user_demo) True 0x40000FFE 2" by (simp add: range_allowed_def UACCESS_USER_MAX_VA_def)
  show "vmm_translate 0x40000FFE True (fst user_demo) = Some 0x5FFE" "vmm_translate 0x40000FFF True (fst user_demo) = Some 0x5FFF"
    using user_demo_page(1) [OF w(1)] user_demo_page(1) [OF w(2)] by (simp_all add: VMM_PAGE_OFFSET_MASK_def)
qed

theorem uaccess_validate_range_exact_witness:
  "uaccess_validate_range 0x40000FFE 2 True (fst user_demo) = Some 1"
  using uaccess_validate_range_exact [OF user_demo_ok(1), of "0x40000FFE" 2 True] user_demo_ok(2) by simp

section \<open>Copies\<close>

lemma user_access_translate: "user_access v wr a \<Longrightarrow> vmm_translate a True v \<noteq> None"
  by (auto simp: user_access_def translate_query split: option.splits)

lemma copy_in_ok:
  "(\<And>i. i < n \<Longrightarrow> vmm_translate (a + of_nat i) True v \<noteq> None) \<Longrightarrow>
   copy_in n a v m = Some (map (\<lambda>i. m (the (vmm_translate (a + of_nat i) True v))) [0..<n])"
proof (induction n arbitrary: a)
  case (Suc n)
  have z: "vmm_translate a True v \<noteq> None" using Suc.prems [of 0] by simp
  have "vmm_translate (a + 1 + of_nat i) True v \<noteq> None" if "i < n" for i using Suc.prems [of "Suc i"] that by (simp add: algebra_simps)
  note ih = Suc.IH [of "a + 1", OF this]
  have "[0..<Suc n] = 0 # map Suc [0..<n]" by (simp add: map_Suc_upt upt_conv_Cons)
  then show ?case using z ih by (auto simp: load_byte_def algebra_simps)
qed simp

text \<open>The bytes written are those of the addresses of the range; without aliases each holds its byte.\<close>

lemma copy_out_ok:
  "(\<And>i. i < length xs \<Longrightarrow> vmm_translate (a + of_nat i) True v \<noteq> None) \<Longrightarrow>
   \<exists>m'. copy_out a xs v m = Some m' \<and>
     (\<forall>pa. (\<forall>i<length xs. vmm_translate (a + of_nat i) True v \<noteq> Some pa) \<longrightarrow> m' pa = m pa) \<and>
     (inj_on (\<lambda>i. vmm_translate (a + of_nat i) True v) {..<length xs} \<longrightarrow>
       (\<forall>i<length xs. m' (the (vmm_translate (a + of_nat i) True v)) = xs ! i))"
proof (induction xs arbitrary: a m)
  case (Cons x xs)
  let ?T = "\<lambda>i. vmm_translate (a + of_nat i) True v" and ?T1 = "\<lambda>i. vmm_translate (a + 1 + of_nat i) True v"
  have sh: "?T1 i = ?T (Suc i)" for i by (simp add: algebra_simps)
  obtain pa where pa: "?T 0 = Some pa" using Cons.prems [of 0] by auto
  have "?T1 i \<noteq> None" if "i < length xs" for i using Cons.prems [of "Suc i"] that unfolding sh by simp
  from Cons.IH [of "a + 1" "m(pa := x)", OF this] obtain m' where m': "copy_out (a + 1) xs v (m(pa := x)) = Some m'"
    "\<And>q. (\<forall>i<length xs. ?T (Suc i) \<noteq> Some q) \<Longrightarrow> m' q = (m(pa := x)) q"
    "inj_on (\<lambda>i. ?T (Suc i)) {..<length xs} \<Longrightarrow> \<forall>i<length xs. m' (the (?T (Suc i))) = xs ! i"
    unfolding sh by blast
  have "copy_out a (x # xs) v m = Some m'" using m'(1) pa by (simp add: store_byte_def)
  moreover have "m' q = m q" if "\<forall>i<length (x # xs). ?T i \<noteq> Some q" for q
  proof -
    have "\<forall>i<length xs. ?T (Suc i) \<noteq> Some q" "?T 0 \<noteq> Some q" using that by auto
    then show ?thesis using m'(2) [of q] pa by auto
  qed
  moreover have "\<forall>i<length (x # xs). m' (the (?T i)) = (x # xs) ! i" if inj: "inj_on ?T {..<length (x # xs)}"
  proof (intro allI impI)
    fix i
    assume i: "i < length (x # xs)"
    show "m' (the (?T i)) = (x # xs) ! i"
    proof (cases i)
      case 0
      have "?T (Suc j) \<noteq> Some pa" if "j < length xs" for j
        using inj_onD [OF inj, of "Suc j" 0] that pa by auto
      then show ?thesis using m'(2) [of pa] 0 pa by simp
    next
      case (Suc j)
      have "inj_on (\<lambda>i. ?T (Suc i)) {..<length xs}"
        by (rule inj_onI) (use inj_onD [OF inj, of "Suc _" "Suc _"] in auto)
      then show ?thesis using m'(3) Suc i by simp
    qed
  qed
  ultimately show ?case by blast
qed simp

lemma copy_to_user_spec:
  assumes ok: "vm_ok v p" and len: "unat n \<le> length src"
  shows "\<exists>m'. uaccess_copy_to_user a (Some src) n v m = Some (if range_allowed v True a n then 0 else - 1, m') \<and>
    (if range_allowed v True a n
     then (\<forall>pa. (\<forall>i<unat n. vmm_translate (a + of_nat i) True v \<noteq> Some pa) \<longrightarrow> m' pa = m pa) \<and>
       (inj_on (\<lambda>i. vmm_translate (a + of_nat i) True v) {..<unat n} \<longrightarrow>
         (\<forall>buf. length buf = unat n \<longrightarrow>
           uaccess_copy_from_user (Some buf) a n v m' = Some (0, Some (take (unat n) src))))
     else m' = m)"
proof (cases "range_allowed v True a n")
  case True
  have acc: "user_access v True (a + of_nat i)" if "i < unat n" for i using True that by (auto simp: range_allowed_def)
  then have tr: "vmm_translate (a + of_nat i) True v \<noteq> None" if "i < unat n" for i using that user_access_translate by blast
  have l: "length (take (unat n) src) = unat n" using len by simp
  obtain m' where m': "copy_out a (take (unat n) src) v m = Some m'"
    "\<forall>pa. (\<forall>i<unat n. vmm_translate (a + of_nat i) True v \<noteq> Some pa) \<longrightarrow> m' pa = m pa"
    "inj_on (\<lambda>i. vmm_translate (a + of_nat i) True v) {..<unat n} \<longrightarrow>
       (\<forall>i<unat n. m' (the (vmm_translate (a + of_nat i) True v)) = take (unat n) src ! i)"
    using copy_out_ok [of "take (unat n) src" a v m] tr unfolding l by blast
  have rd: "range_allowed v False a n" using True by (auto simp: range_allowed_def user_access_def split: option.splits)
  have "uaccess_copy_from_user (Some buf) a n v m' = Some (0, Some (take (unat n) src))"
    if "inj_on (\<lambda>i. vmm_translate (a + of_nat i) True v) {..<unat n}" "length buf = unat n" for buf
  proof -
    have "map (\<lambda>i. m' (the (vmm_translate (a + of_nat i) True v))) [0..<unat n] = take (unat n) src"
      by (rule nth_equalityI) (use m'(3) that(1) len in auto)
    then show ?thesis using copy_in_ok [of "unat n" a v m'] tr that(2) rd
      by (simp add: uaccess_copy_from_user_def uaccess_validate_read_def validate_range_iff [OF ok])
  qed
  moreover have "uaccess_copy_to_user a (Some src) n v m = Some (0, m')"
    using m'(1) True by (simp add: uaccess_copy_to_user_def uaccess_validate_write_def validate_range_iff [OF ok])
  ultimately show ?thesis using m'(2) True by auto
next
  case False
  then show ?thesis by (simp add: uaccess_copy_to_user_def uaccess_validate_write_def validate_range_iff [OF ok])
qed

text \<open>
  C6. Copying to user space is confined.  With a source of at least the requested size the call
  always returns, without a page fault.  It fails, changing nothing, exactly when some byte of the
  destination is not writable by the user; otherwise only bytes of the destination change, and
  when no two of its addresses share a physical byte, reading the range back gives what was
  written.
\<close>

theorem uaccess_copy_to_user_confined:
  assumes ok: "vm_ok v p" and len: "unat n \<le> length src"
  shows "\<exists>m'. uaccess_copy_to_user a (Some src) n v m = Some (if range_allowed v True a n then 0 else - 1, m') \<and>
    (if range_allowed v True a n
     then (\<forall>pa. (\<forall>i<unat n. vmm_translate (a + of_nat i) True v \<noteq> Some pa) \<longrightarrow> m' pa = m pa) \<and>
       (inj_on (\<lambda>i. vmm_translate (a + of_nat i) True v) {..<unat n} \<longrightarrow>
         (\<forall>buf. length buf = unat n \<longrightarrow>
           uaccess_copy_from_user (Some buf) a n v m' = Some (0, Some (take (unat n) src))))
     else m' = m)"
  using assms by (rule copy_to_user_spec)

theorem uaccess_copy_to_user_confined_witness:
  "\<exists>m'. uaccess_copy_to_user 0x40000FFE (Some [7, 8]) 2 (fst user_demo) (\<lambda>_. 0) = Some (0, m') \<and>
     m' 0x5000 = 0 \<and> uaccess_copy_from_user (Some [0, 0]) 0x40000FFE 2 (fst user_demo) m' = Some (0, Some [7, 8])"
proof -
  let ?v = "fst user_demo"
  let ?T = "\<lambda>i. vmm_translate (0x40000FFE + of_nat i) True ?v"
  have t: "?T 0 = Some 0x5FFE" "?T 1 = Some 0x5FFF" using user_demo_ok(3,4) by simp_all
  have inj: "inj_on ?T {..<2}" using t by (auto simp: inj_on_def less_2_cases_iff)
  have out: "\<forall>i<2. ?T i \<noteq> Some 0x5000" using t by (auto simp: less_2_cases_iff)
  have u: "unat (2 :: u64) = 2" and le: "unat (2 :: u64) \<le> length [7, 8 :: u8]" by simp_all
  obtain m' where m': "uaccess_copy_to_user 0x40000FFE (Some [7, 8]) 2 ?v (\<lambda>_. 0) = Some (0, m')"
    "\<forall>pa. (\<forall>i<2. ?T i \<noteq> Some pa) \<longrightarrow> m' pa = 0"
    "\<forall>buf. length buf = 2 \<longrightarrow> uaccess_copy_from_user (Some buf) 0x40000FFE 2 ?v m' = Some (0, Some (take 2 [7, 8]))"
    using uaccess_copy_to_user_confined [OF user_demo_ok(1) le, of "0x40000FFE" "\<lambda>_. 0"] inj
    unfolding u if_P [OF user_demo_ok(2)] by blast
  then show ?thesis using out by auto
qed

end
