(* ===== verification/Syscall.thy ===== *)
theory Syscall
  imports Sched_Props Seccomp Uaccess
begin

text \<open>
  The system-call layer, kernel/syscall/syscall.c: the table of handlers, the three handlers the
  kernel registers, and the dispatcher, which consults the filter before and the audit ring after
  a handler.  It joins the scheduler, the filter and user memory into one state.  A signed 64-bit
  result is its word.  A handler is a pointer: one of the three above or the address of another,
  whose behaviour is a parameter, as is what other tasks do while the caller has yielded.
  \<open>None\<close> is a call that does not come back (a fault in a copy).
\<close>

section \<open>State\<close>

definition SYS_SCHED_YIELD :: u16 where "SYS_SCHED_YIELD = 24"
definition SYS_GETTID :: u16 where "SYS_GETTID = 186"
definition SYS_GETTID_USER :: u16 where "SYS_GETTID_USER = 400"
definition SYSCALL_ENOSYS :: u64 where "SYSCALL_ENOSYS = - 38"
definition SYSCALL_EFAULT :: u64 where "SYSCALL_EFAULT = - 14"
definition SYSCALL_EPERM :: u64 where "SYSCALL_EPERM = - 1"

datatype syscall_handler_t = Sys_gettid | Sys_sched_yield | Sys_gettid_user | Other_handler u64

record ksys =
  ks_sched :: sched
  ks_seccomp :: seccomp
  ks_vmm :: vmm
  ks_bytes :: phys_bytes
  g_syscall_table :: "syscall_handler_t option list"
  g_syscall_registered_count :: u16

record syscall_fastpath_frame_t =
  fp_number :: u64
  fp_args :: "u64 list"
  fp_user_rip :: u64
  fp_user_rflags :: u64
  fp_user_rsp :: u64

record syscall_env =
  other_tasks :: "ksys \<Rightarrow> ksys"
  other_handler :: "u64 \<Rightarrow> u64 list \<Rightarrow> ksys \<Rightarrow> (u64 \<times> ksys) option"

section \<open>Handlers\<close>

text \<open>The bytes of a 64-bit integer in memory.\<close>

definition u64_bytes :: "u64 \<Rightarrow> u8 list" where
  "u64_bytes x = map (\<lambda>i. ucast (drop_bit (8 * i) x)) [0..<8]"

definition current_tid :: "ksys \<Rightarrow> u64" where
  "current_tid k = (case sched_current_task (ks_sched k) of None \<Rightarrow> 0 | Some current \<Rightarrow> tid (task_at current (ks_sched k)))"

definition sys_gettid :: "ksys \<Rightarrow> (u64 \<times> ksys) option" where
  "sys_gettid k = Some (current_tid k, k)"

definition sys_sched_yield :: "syscall_env \<Rightarrow> ksys \<Rightarrow> (u64 \<times> ksys) option" where
  "sys_sched_yield env k = Some (0, other_tasks env (k\<lparr>ks_sched := sched_yield (ks_sched k)\<rparr>))"

definition sys_gettid_user :: "u64 \<Rightarrow> ksys \<Rightarrow> (u64 \<times> ksys) option" where
  "sys_gettid_user arg0 k =
     (case uaccess_copy_to_user arg0 (Some (u64_bytes (current_tid k))) 8 (ks_vmm k) (ks_bytes k) of
        None \<Rightarrow> None
      | Some (status, m) \<Rightarrow> Some (if status \<noteq> 0 then SYSCALL_EFAULT else 0, k\<lparr>ks_bytes := m\<rparr>))"

fun call_handler :: "syscall_env \<Rightarrow> syscall_handler_t \<Rightarrow> u64 list \<Rightarrow> ksys \<Rightarrow> (u64 \<times> ksys) option" where
  "call_handler env Sys_gettid args k = sys_gettid k"
| "call_handler env Sys_sched_yield args k = sys_sched_yield env k"
| "call_handler env Sys_gettid_user args k = sys_gettid_user (args ! 0) k"
| "call_handler env (Other_handler a) args k = other_handler env a args k"

section \<open>Registration and dispatch\<close>

definition syscall_register :: "u16 \<Rightarrow> syscall_handler_t option \<Rightarrow> ksys \<Rightarrow> int \<times> ksys" where
  "syscall_register number handler k =
     (if ucast number \<ge> SYSCALL_MAX_ENTRIES \<or> handler = None then (- 1, k)
      else
        let k = (if g_syscall_table k ! unat number = None
                 then k\<lparr>g_syscall_registered_count := g_syscall_registered_count k + 1\<rparr> else k)
        in (0, k\<lparr>g_syscall_table := (g_syscall_table k)[unat number := handler]\<rparr>))"

definition syscall_init :: "ksys \<Rightarrow> ksys" where
  "syscall_init k =
     (let k = k\<lparr>g_syscall_table := replicate (unat SYSCALL_MAX_ENTRIES) None, g_syscall_registered_count := 0\<rparr>;
          k = k\<lparr>ks_seccomp := seccomp_init (ks_seccomp k)\<rparr>;
          k = snd (syscall_register SYS_GETTID (Some Sys_gettid) k);
          k = snd (syscall_register SYS_SCHED_YIELD (Some Sys_sched_yield) k)
      in snd (syscall_register SYS_GETTID_USER (Some Sys_gettid_user) k))"

definition syscall_dispatch :: "syscall_env \<Rightarrow> u64 \<Rightarrow> u64 list \<Rightarrow> ksys \<Rightarrow> (u64 \<times> ksys) option" where
  "syscall_dispatch env number args k =
     (if number \<ge> ucast SYSCALL_MAX_ENTRIES then Some (SYSCALL_ENOSYS, k)
      else
        let caller = current_tid k;
            action = seccomp_get_syscall_action number (ks_seccomp k)
        in if action = SECCOMP_ACTION_ERRNO then
             Some (SYSCALL_EPERM, k\<lparr>ks_seccomp := seccomp_audit_record caller number action SYSCALL_EPERM (ks_seccomp k)\<rparr>)
           else
             (case (case g_syscall_table k ! unat number of
                      None \<Rightarrow> Some (SYSCALL_ENOSYS, k)
                    | Some handler \<Rightarrow> call_handler env handler args k) of
                None \<Rightarrow> None
              | Some (result, k) \<Rightarrow>
                  Some (result,
                    if action = SECCOMP_ACTION_LOG
                    then k\<lparr>ks_seccomp := seccomp_audit_record caller number action result (ks_seccomp k)\<rparr>
                    else k)))"

definition syscall_dispatch_fastpath ::
  "syscall_env \<Rightarrow> syscall_fastpath_frame_t option \<Rightarrow> ksys \<Rightarrow> (u64 \<times> ksys) option" where
  "syscall_dispatch_fastpath env frame k =
     (case frame of None \<Rightarrow> Some (SYSCALL_ENOSYS, k) | Some f \<Rightarrow> syscall_dispatch env (fp_number f) (fp_args f) k)"

definition syscall_registered_count :: "ksys \<Rightarrow> u16" where
  "syscall_registered_count k = g_syscall_registered_count k"

section \<open>Properties\<close>



text \<open>A machine with one user page, one task table and the system calls registered.\<close>

definition seccomp_demo :: seccomp where
  "seccomp_demo = seccomp_init \<lparr>g_seccomp_default_action = 0, g_seccomp_overrides = [], g_seccomp_audit_ring = [],
     g_seccomp_audit_head = 0, g_seccomp_audit_size = 0, g_seccomp_audit_sequence = 0, g_seccomp_audit_total = 0\<rparr>"

definition ksys_demo :: ksys where
  "ksys_demo = \<lparr>ks_sched = sched_init sched_bss, ks_seccomp = seccomp_demo, ks_vmm = fst user_demo, ks_bytes = (\<lambda>_. 0),
     g_syscall_table = [], g_syscall_registered_count = 0\<rparr>"

definition env_demo :: syscall_env where
  "env_demo = \<lparr>other_tasks = (\<lambda>k. k), other_handler = (\<lambda>_ _ k. Some (0, k))\<rparr>"


text \<open>
  C22. Reading the thread identifier into user memory, end to end.  After initialisation, with the
  filter as it starts, the call \<^verbatim>\<open>SYS_GETTID_USER\<close> always returns: 0 when all eight destination bytes are
  writable by the user, and then no byte outside them has changed; otherwise \<^verbatim>\<open>EFAULT\<close> with memory
  untouched, in particular when some of them are not mapped.  Nothing but memory changes.  When the
  call succeeds and the eight bytes lie at eight different physical addresses, reading them back gives
  the caller's identifier.
\<close>

theorem syscall_gettid_user_spec:
  assumes ok: "vm_ok (ks_vmm k0) p" and k: "k = syscall_init k0"
  shows "\<exists>m'. syscall_dispatch env (ucast SYS_GETTID_USER) (a # args) k =
      Some (if range_allowed (ks_vmm k) True a 8 then 0 else SYSCALL_EFAULT, k\<lparr>ks_bytes := m'\<rparr>) \<and>
    (if range_allowed (ks_vmm k) True a 8
     then (\<forall>pa. (\<forall>i<8. vmm_translate (a + of_nat i) True (ks_vmm k) \<noteq> Some pa) \<longrightarrow> m' pa = ks_bytes k pa) \<and>
       (inj_on (\<lambda>i. vmm_translate (a + of_nat i) True (ks_vmm k)) {..<8} \<longrightarrow>
          uaccess_copy_from_user (Some (replicate 8 0)) a 8 (ks_vmm k) m' = Some (0, Some (u64_bytes (current_tid k))))
     else m' = ks_bytes k)"
proof -
  have v: "ks_vmm k = ks_vmm k0" unfolding k by (simp add: syscall_init_def syscall_register_def Let_def)
  then have okk: "vm_ok (ks_vmm k) p" using ok by simp
  have s: "ks_seccomp k = seccomp_init (ks_seccomp k0)" unfolding k by (simp add: syscall_init_def syscall_register_def Let_def)
  have act: "seccomp_get_syscall_action (ucast SYS_GETTID_USER) (ks_seccomp k) = SECCOMP_ACTION_ALLOW"
    using filter_ok_policy [OF filter_ok_run [of "[]"]] unfolding s by (simp add: policy_def)
  have tb: "g_syscall_table k ! 400 = Some Sys_gettid_user" unfolding k
    by (simp add: syscall_init_def syscall_register_def Let_def SYS_GETTID_USER_def SYSCALL_MAX_ENTRIES_def)
  have ne: "SECCOMP_ACTION_ALLOW \<noteq> SECCOMP_ACTION_ERRNO" "SECCOMP_ACTION_ALLOW \<noteq> SECCOMP_ACTION_LOG"
    by (simp_all add: SECCOMP_ACTION_ALLOW_def SECCOMP_ACTION_ERRNO_def SECCOMP_ACTION_LOG_def)
  have d: "syscall_dispatch env (ucast SYS_GETTID_USER) (a # args) k = sys_gettid_user a k"
    using act tb ne by (simp add: syscall_dispatch_def Let_def SYS_GETTID_USER_def SYSCALL_MAX_ENTRIES_def split: option.splits)
  let ?b = "u64_bytes (current_tid k)"
  have lb: "length ?b = 8" by (simp add: u64_bytes_def)
  then have le: "unat (8 :: u64) \<le> length ?b" by simp
  obtain m' where m': "uaccess_copy_to_user a (Some ?b) 8 (ks_vmm k) (ks_bytes k) = Some (if range_allowed (ks_vmm k) True a 8 then 0 else - 1, m')"
    "if range_allowed (ks_vmm k) True a 8
     then (\<forall>pa. (\<forall>i<8. vmm_translate (a + of_nat i) True (ks_vmm k) \<noteq> Some pa) \<longrightarrow> m' pa = ks_bytes k pa) \<and>
       (inj_on (\<lambda>i. vmm_translate (a + of_nat i) True (ks_vmm k)) {..<8} \<longrightarrow>
          (\<forall>buf. length buf = 8 \<longrightarrow> uaccess_copy_from_user (Some buf) a 8 (ks_vmm k) m' = Some (0, Some ?b)))
     else m' = ks_bytes k"
    using copy_to_user_spec [OF okk le, of a "ks_bytes k"] lb by auto
  have "length (replicate 8 (0 :: u8)) = 8" by simp
  then show ?thesis unfolding d sys_gettid_user_def m'(1)
    using m'(2) by (intro exI [of _ m']) (auto simp: SYSCALL_EFAULT_def)
qed

lemma less_8_cases: "i < (8 :: nat) \<Longrightarrow> i = 0 \<or> i = 1 \<or> i = 2 \<or> i = 3 \<or> i = 4 \<or> i = 5 \<or> i = 6 \<or> i = 7"
  by linarith

theorem syscall_gettid_user_spec_witness:
  "\<exists>m'. syscall_dispatch env_demo 400 [0x40000FF0] (syscall_init ksys_demo) = Some (0, (syscall_init ksys_demo)\<lparr>ks_bytes := m'\<rparr>) \<and>
     uaccess_copy_from_user (Some (replicate 8 0)) 0x40000FF0 8 (fst user_demo) m' = Some (0, Some (replicate 8 0)) \<and> m' 0x5000 = 0 \<and>
     syscall_dispatch env_demo 400 [0] (syscall_init ksys_demo) = Some (SYSCALL_EFAULT, syscall_init ksys_demo)"
proof -
  have v: "ks_vmm (syscall_init ksys_demo) = fst user_demo" by (simp add: syscall_init_def syscall_register_def Let_def ksys_demo_def)
  have t: "vmm_translate (0x40000FF0 + of_nat i) True (fst user_demo) = Some (0x5FF0 + of_nat i)"
    "user_access (fst user_demo) True (0x40000FF0 + of_nat i)" if "i < 8" for i
  proof -
    have "same_page (0x40000FF0 + of_nat i) 0x40000000" "0x5000 OR ((0x40000FF0 + of_nat i) AND VMM_PAGE_OFFSET_MASK) = 0x5FF0 + of_nat i"
      using less_8_cases [OF that] by (elim disjE; simp add: same_page_def take_bit_eq_mod drop_bit_eq_div VMM_PAGE_OFFSET_MASK_def)+
    then show "vmm_translate (0x40000FF0 + of_nat i) True (fst user_demo) = Some (0x5FF0 + of_nat i)"
      "user_access (fst user_demo) True (0x40000FF0 + of_nat i)" using user_demo_page by simp_all
  qed
  have "range_allowed (fst user_demo) True 0x40000FF0 8" using t(2) by (simp add: range_allowed_def UACCESS_USER_MAX_VA_def)
  then have ra: "range_allowed (ks_vmm (syscall_init ksys_demo)) True 0x40000FF0 8" using v by simp
  have u: "unat (0x5FF0 + of_nat i :: u64) = 0x5FF0 + i" if "i < 8" for i using less_8_cases [OF that] by (elim disjE) simp_all
  have inj: "inj_on (\<lambda>i. vmm_translate (0x40000FF0 + of_nat i) True (ks_vmm (syscall_init ksys_demo))) {..<8}"
    unfolding v
  proof (rule inj_onI)
    fix x y
    assume a: "x \<in> {..<8}" "y \<in> {..<8}" "vmm_translate (0x40000FF0 + of_nat x) True (fst user_demo) = vmm_translate (0x40000FF0 + of_nat y) True (fst user_demo)"
    have l: "x < 8" "y < 8" using a(1,2) unfolding lessThan_iff by blast+
    have "unat (0x5FF0 + of_nat x :: u64) = unat (0x5FF0 + of_nat y :: u64)"
      using a(3) unfolding t(1) [OF l(1)] t(1) [OF l(2)] option.inject by (rule arg_cong)
    then show "x = y" unfolding u [OF l(1)] u [OF l(2)] by (rule add_left_imp_eq)
  qed
  have out: "\<forall>i<8. vmm_translate (0x40000FF0 + of_nat i) True (ks_vmm (syscall_init ksys_demo)) \<noteq> Some 0x5000"
    unfolding v
  proof (intro allI impI)
    fix i :: nat
    assume i: "i < 8"
    have "(0x5FF0 + of_nat i :: u64) \<noteq> 0x5000" using u [OF i] by (auto simp: word_eq_unat)
    then show "vmm_translate (0x40000FF0 + of_nat i) True (fst user_demo) \<noteq> Some 0x5000" using t(1) [OF i] by simp
  qed
  have b: "ks_bytes (syscall_init ksys_demo) 0x5000 = 0" by (simp add: syscall_init_def syscall_register_def Let_def ksys_demo_def)
  have tid: "u64_bytes (current_tid (syscall_init ksys_demo)) = replicate 8 0" by code_simp
  have ok: "vm_ok (ks_vmm ksys_demo) (snd user_demo)" using user_demo_ok(1) by (simp add: ksys_demo_def)
  have n: "ucast SYS_GETTID_USER = (400 :: u64)" by (simp add: SYS_GETTID_USER_def)
  have nra: "\<not> range_allowed (ks_vmm (syscall_init ksys_demo)) True 0 8" by (simp add: range_allowed_def)
  have fault: "syscall_dispatch env_demo 400 [0] (syscall_init ksys_demo) = Some (SYSCALL_EFAULT, syscall_init ksys_demo)"
    using syscall_gettid_user_spec [OF ok refl, where env = env_demo and a = 0 and args = "[]", unfolded if_not_P [OF nra]]
    unfolding n by auto
  from syscall_gettid_user_spec [OF ok refl, where env = env_demo and a = "0x40000FF0" and args = "[]", unfolded if_P [OF ra]] inj out b fault
  show ?thesis unfolding n v tid by metis
qed

end
