(* ===== verification/Names.thy ===== *)
theory Names
  imports Prelude
begin

text \<open>
  Names of kernel objects.  kernel/ipc/ipc.c and kernel/ipc/shm.c keep tables of named objects with
  the same three helpers on names: a bounded length, a bounded comparison and a copy into an array
  of 32 characters.  This theory holds the loops, the fact that a stored name compares equal to
  exactly the name it was copied from, and the interface \<open>named_registry\<close> of a table that is
  searched and extended by name.
\<close>

section \<open>The loops\<close>

abbreviation NUL :: char where "NUL \<equiv> CHR 0x00"

text \<open>\<^verbatim>\<open>while (length < limit && text[length] != '\0') length++\<close>, with \<open>k\<close> steps left.\<close>

fun strnlen_loop :: "nat \<Rightarrow> nat \<Rightarrow> string \<Rightarrow> nat" where
  "strnlen_loop 0 len text = len"
| "strnlen_loop (Suc k) len text = (if cchar text len \<noteq> NUL then strnlen_loop k (Suc len) text else len)"

definition name_strnlen :: "string option \<Rightarrow> nat \<Rightarrow> nat" where
  "name_strnlen text limit = (case text of None \<Rightarrow> 0 | Some t \<Rightarrow> strnlen_loop limit 0 t)"

text \<open>The comparison, with \<open>k\<close> characters left.\<close>

fun name_equal_loop :: "nat \<Rightarrow> nat \<Rightarrow> string \<Rightarrow> string \<Rightarrow> bool" where
  "name_equal_loop 0 i left right = False"
| "name_equal_loop (Suc k) i left right =
     (if cchar left i \<noteq> cchar right i then False
      else if cchar left i = NUL then True
      else name_equal_loop k (Suc i) left right)"

text \<open>The copy: an array of NULs, then the source's characters while there is room for one more NUL.\<close>

fun name_copy_loop :: "nat \<Rightarrow> nat \<Rightarrow> string \<Rightarrow> string \<Rightarrow> string" where
  "name_copy_loop 0 i src dst = dst"
| "name_copy_loop (Suc k) i src dst =
     (if cchar src i \<noteq> NUL then name_copy_loop k (Suc i) src (dst[i := cchar src i]) else dst)"

definition name_copy :: "nat \<Rightarrow> string option \<Rightarrow> string" where
  "name_copy n src = (case src of None \<Rightarrow> replicate n NUL
     | Some s \<Rightarrow> name_copy_loop (n - 1) 0 s (replicate n NUL))"

section \<open>What they compute\<close>

lemma cchar_end: "cstring s \<Longrightarrow> cchar s i = NUL \<longleftrightarrow> length s \<le> i"
proof -
  assume "cstring s"
  then have "s ! i \<noteq> NUL" if "i < length s" using nth_mem [OF that] unfolding cstring_def by metis
  then show ?thesis by (auto simp: cchar_def)
qed

lemma strnlen_loop_eq: "cstring s \<Longrightarrow> len \<le> length s \<Longrightarrow> strnlen_loop k len s = min (len + k) (length s)"
proof (induction k arbitrary: len)
  case (Suc k)
  show ?case
  proof (cases "len < length s")
    case True
    then show ?thesis using Suc.IH [of "Suc len"] Suc.prems cchar_end [OF Suc.prems(1), of len] by simp
  next
    case False
    then show ?thesis using Suc.prems cchar_end [OF Suc.prems(1), of len] by simp
  qed
qed simp

lemma name_strnlen_eq [simp]: "cstring s \<Longrightarrow> name_strnlen (Some s) n = min n (length s)"
  by (simp add: name_strnlen_def strnlen_loop_eq)

text \<open>The comparison decides equality of C strings that end within the bound.\<close>

lemma name_equal_loop_iff:
  "name_equal_loop k i a b \<longleftrightarrow> (\<exists>n. n < k \<and> cchar a (i + n) = NUL \<and> (\<forall>j\<le>n. cchar a (i + j) = cchar b (i + j)))"
proof (induction k arbitrary: i)
  case (Suc k)
  show ?case (is "_ = (\<exists>n. ?P n)")
  proof (cases "cchar a i = cchar b i \<and> cchar a i \<noteq> NUL")
    case True
    have "(\<exists>n. ?P n) \<longleftrightarrow> (\<exists>n. ?P (Suc n))" using True by (metis (no_types, lifting) add.right_neutral not0_implies_Suc)
    also have "\<dots> \<longleftrightarrow> (\<exists>n. n < k \<and> cchar a (Suc i + n) = NUL \<and> (\<forall>j\<le>n. cchar a (Suc i + j) = cchar b (Suc i + j)))"
    proof -
      have "(\<forall>j\<le>Suc n. cchar a (i + j) = cchar b (i + j)) \<longleftrightarrow> (\<forall>j\<le>n. cchar a (Suc i + j) = cchar b (Suc i + j))" for n
        using True by (metis (no_types, lifting) Suc_le_mono add.right_neutral add_Suc_shift not0_implies_Suc)
      then show ?thesis by simp
    qed
    also have "\<dots> \<longleftrightarrow> name_equal_loop k (Suc i) a b" using Suc.IH [of "Suc i"] by simp
    finally show ?thesis using True by auto
  next
    case False
    then show ?thesis by (cases "cchar a i = cchar b i") (auto intro!: exI [of _ 0])
  qed
qed simp

definition stored_name :: "nat \<Rightarrow> string \<Rightarrow> string" where
  "stored_name n s = s @ replicate (n - length s) NUL"

lemma name_copy_loop_eq:
  assumes "cstring s" "i \<le> length s" "length s < n" "n \<le> i + Suc k"
  shows "name_copy_loop k i s (take i s @ replicate (n - i) NUL) = stored_name n s"
  using assms
proof (induction k arbitrary: i)
  case 0
  then have "i = length s" by simp
  then show ?case by (simp add: stored_name_def)
next
  case (Suc k)
  show ?case
  proof (cases "i < length s")
    case True
    have "n - i = Suc (n - Suc i)" using True Suc.prems(3) by simp
    then have "(take i s @ replicate (n - i) NUL)[i := s ! i] = take (Suc i) s @ replicate (n - Suc i) NUL"
      using True by (simp add: list_update_append take_Suc_conv_app_nth)
    then show ?thesis using Suc.IH [of "Suc i"] Suc.prems True cchar_end [OF Suc.prems(1), of i] by (simp add: cchar_def)
  next
    case False
    then have "i = length s" using Suc.prems(2) by simp
    then show ?thesis using cchar_end [OF Suc.prems(1), of i] by (simp add: stored_name_def)
  qed
qed

lemma name_copy_eq: "cstring s \<Longrightarrow> length s < n \<Longrightarrow> name_copy n (Some s) = stored_name n s"
  using name_copy_loop_eq [of s 0 n "n - 1"] by (simp add: name_copy_def)

lemma cchar_stored: "cchar (stored_name n s) i = cchar s i"
  by (auto simp: cchar_def stored_name_def nth_append)

lemma cstring_eqI:
  assumes "cstring s" "cstring t" "\<And>j. j \<le> length s \<Longrightarrow> cchar s j = cchar t j"
  shows "s = t"
proof (rule nth_equalityI)
  have "cchar t (length s) = NUL" using assms(3) [of "length s"] cchar_end [OF assms(1), of "length s"] by simp
  then have le: "length t \<le> length s" using cchar_end [OF assms(2)] by simp
  have "\<not> length t < length s"
  proof
    assume lt: "length t < length s"
    then have "cchar s (length t) = NUL" using assms(3) [of "length t"] cchar_end [OF assms(2), of "length t"] by simp
    then show False using cchar_end [OF assms(1), of "length t"] lt by simp
  qed
  then show len: "length s = length t" using le by simp
  show "s ! i = t ! i" if "i < length s" for i using assms(3) [of i] that len by (simp add: cchar_def)
qed

lemma stored_name_equal:
  assumes "cstring s" "cstring t" "length s < n"
  shows "name_equal_loop n 0 (stored_name n s) t \<longleftrightarrow> s = t"
proof
  assume "name_equal_loop n 0 (stored_name n s) t"
  then obtain m where m: "cchar s m = NUL" "\<And>j. j \<le> m \<Longrightarrow> cchar s j = cchar t j"
    unfolding name_equal_loop_iff cchar_stored by auto
  have "length s \<le> m" using m(1) unfolding cchar_end [OF assms(1)] .
  then show "s = t" using cstring_eqI [OF assms(1,2)] m(2) by simp
next
  assume "s = t"
  then show "name_equal_loop n 0 (stored_name n s) t"
    unfolding name_equal_loop_iff cchar_stored using assms(3) cchar_end [OF assms(1), of "length s"]
    by (intro exI [of _ "length s"]) simp
qed

section \<open>Tables of named objects\<close>

text \<open>
  Both tables are arrays of records with a use flag and a stored name.  \<open>table_names\<close> gives the
  name of each used entry; in a table that is \<open>names_ok\<close> the stored names are well formed and no
  two used entries have the same one.
\<close>

definition cname :: "string \<Rightarrow> string" where
  "cname s = takeWhile (\<lambda>c. c \<noteq> NUL) s"

definition table_names :: "('a \<Rightarrow> bool) \<Rightarrow> ('a \<Rightarrow> string) \<Rightarrow> 'a list \<Rightarrow> nat \<Rightarrow> string option" where
  "table_names used name xs i = (if i < length xs \<and> used (xs ! i) then Some (cname (name (xs ! i))) else None)"

definition names_ok :: "('a \<Rightarrow> bool) \<Rightarrow> ('a \<Rightarrow> string) \<Rightarrow> 'a list \<Rightarrow> bool" where
  "names_ok used name xs \<longleftrightarrow>
     (\<forall>x\<in>set xs. used x \<longrightarrow> length (cname (name x)) < 32 \<and> name x = stored_name 32 (cname (name x))) \<and>
     (\<forall>i j nm. table_names used name xs i = Some nm \<longrightarrow> table_names used name xs j = Some nm \<longrightarrow> i = j)"

abbreviation scan_names :: "('a \<Rightarrow> bool) \<Rightarrow> ('a \<Rightarrow> string) \<Rightarrow> string \<Rightarrow> 'a list \<Rightarrow> nat option" where
  "scan_names used name nm xs \<equiv> first_index (\<lambda>x. used x \<and> name_equal_loop 32 0 (name x) nm) xs"

lemma cstring_cname [simp]: "cstring (cname s)"
  unfolding cstring_def cname_def by (metis (mono_tags, lifting) set_takeWhileD)

lemma cname_stored [simp]: "cstring s \<Longrightarrow> cname (stored_name n s) = s"
proof -
  assume "cstring s"
  then have "\<And>c. c \<in> set s \<Longrightarrow> c \<noteq> NUL" unfolding cstring_def by metis
  then have "cname (stored_name n s) = s @ takeWhile (\<lambda>c. c \<noteq> NUL) (replicate (n - length s) NUL)"
    unfolding cname_def stored_name_def by (simp add: takeWhile_append2)
  then show ?thesis by simp
qed

lemma table_names_Some: "table_names used name xs i = Some nm \<longleftrightarrow> i < length xs \<and> used (xs ! i) \<and> cname (name (xs ! i)) = nm"
  by (auto simp: table_names_def)

lemma names_ok_equal:
  assumes "names_ok used name xs" "x \<in> set xs" "used x" "cstring nm"
  shows "name_equal_loop 32 0 (name x) nm \<longleftrightarrow> cname (name x) = nm"
proof -
  have "length (cname (name x)) < 32" "name x = stored_name 32 (cname (name x))"
    using assms(1-3) unfolding names_ok_def by blast+
  then show ?thesis using stored_name_equal [OF cstring_cname assms(4)] by metis
qed

lemma scan_names_hit:
  assumes "names_ok used name xs" "cstring nm" "table_names used name xs i = Some nm"
  shows "scan_names used name nm xs = Some i"
proof (rule first_index_SomeI)
  have i: "i < length xs" "used (xs ! i)" "cname (name (xs ! i)) = nm" using assms(3) by (simp_all add: table_names_Some)
  then show "i < length xs" "used (xs ! i) \<and> name_equal_loop 32 0 (name (xs ! i)) nm"
    using names_ok_equal [OF assms(1) _ _ assms(2)] by simp_all
  fix j
  assume j: "j < i"
  show "\<not> (used (xs ! j) \<and> name_equal_loop 32 0 (name (xs ! j)) nm)"
  proof
    assume u: "used (xs ! j) \<and> name_equal_loop 32 0 (name (xs ! j)) nm"
    have "j < length xs" using i(1) j by simp
    then have "table_names used name xs j = Some nm"
      using u names_ok_equal [OF assms(1) nth_mem _ assms(2), of j] unfolding table_names_Some by blast
    then have "j = i" using assms(1,3) unfolding names_ok_def by blast
    then show False using j by simp
  qed
qed

lemma scan_names_miss:
  assumes "names_ok used name xs" "cstring nm" "\<forall>i. table_names used name xs i \<noteq> Some nm"
  shows "scan_names used name nm xs = None"
proof -
  have "cname (name x) \<noteq> nm" if "x \<in> set xs" "used x" for x
    using assms(3) that by (metis in_set_conv_nth table_names_Some)
  then show ?thesis using names_ok_equal [OF assms(1) _ _ assms(2)] by auto
qed

lemma scan_names_cases:
  assumes "names_ok used name xs" "cstring nm"
  obtains i where "table_names used name xs i = Some nm" "scan_names used name nm xs = Some i"
  | "\<forall>i. table_names used name xs i \<noteq> Some nm" "scan_names used name nm xs = None"
proof (cases "\<exists>i. table_names used name xs i = Some nm")
  case True
  then show ?thesis using that(1) scan_names_hit [OF assms] by blast
next
  case False
  then have miss: "\<forall>i. table_names used name xs i \<noteq> Some nm" by blast
  show ?thesis by (rule that(2) [OF miss scan_names_miss [OF assms miss]])
qed

text \<open>Entering a new name in an unused entry.\<close>

lemma names_enter:
  assumes ok: "names_ok used name xs" and nm: "cstring nm" "length nm < 32" "\<forall>i. table_names used name xs i \<noteq> Some nm"
    and i: "i < length xs" and y: "used y" "name y = stored_name 32 nm"
  shows "table_names used name (xs[i := y]) = (table_names used name xs)(i := Some nm)" "names_ok used name (xs[i := y])"
proof -
  show t: "table_names used name (xs[i := y]) = (table_names used name xs)(i := Some nm)"
    using i y nm(1) by (auto simp: fun_eq_iff table_names_def nth_list_update)
  have "length (cname (name x)) < 32 \<and> name x = stored_name 32 (cname (name x))" if "x \<in> set (xs[i := y])" "used x" for x
  proof -
    have "x = y \<or> x \<in> set xs" using set_update_subset_insert that(1) by fastforce
    then show ?thesis using ok that(2) y nm by (auto simp: names_ok_def)
  qed
  moreover have "j = k" if "((table_names used name xs)(i := Some nm)) j = Some n" "((table_names used name xs)(i := Some nm)) k = Some n" for j k n
    using that ok nm(3) unfolding names_ok_def by (auto split: if_splits)
  ultimately show "names_ok used name (xs[i := y])" unfolding names_ok_def t by blast
qed

text \<open>An update that keeps the use flag and the name.\<close>

lemma names_keep:
  assumes "used y = used (xs ! i)" "name y = name (xs ! i)"
  shows "table_names used name (xs[i := y]) = table_names used name xs"
    "names_ok used name xs \<Longrightarrow> names_ok used name (xs[i := y])"
proof -
  show t: "table_names used name (xs[i := y]) = table_names used name xs"
  proof
    fix j
    show "table_names used name (xs[i := y]) j = table_names used name xs j"
      using assms by (cases "j = i \<and> i < length xs") (auto simp: table_names_def)
  qed
  assume ok: "names_ok used name xs"
  have "length (cname (name x)) < 32 \<and> name x = stored_name 32 (cname (name x))" if "x \<in> set (xs[i := y])" "used x" for x
  proof (cases "i < length xs")
    case True
    have "x = y \<or> x \<in> set xs" using set_update_subset_insert that(1) by fastforce
    moreover have "xs ! i \<in> set xs" using True by simp
    ultimately show ?thesis using ok that(2) assms by (auto simp: names_ok_def)
  next
    case False
    then have "x \<in> set xs" using that(1) by (simp add: list_update_beyond)
    then show ?thesis using ok that(2) unfolding names_ok_def by blast
  qed
  then show "names_ok used name (xs[i := y])" using ok unfolding names_ok_def t by blast
qed

lemma names_empty:
  assumes "\<forall>x\<in>set xs. \<not> used x"
  shows "table_names used name xs = (\<lambda>_. None)" "names_ok used name xs"
  using assms by (auto simp: table_names_def names_ok_def fun_eq_iff)

section \<open>The registry interface\<close>

text \<open>
  A table searched and extended by name.  \<open>names s i\<close> is the name of slot \<open>i\<close>, if it is in use;
  \<open>add\<close> returns the slot of the name, or a negative status.
\<close>

locale named_registry =
  fixes ok :: "'s \<Rightarrow> bool" and names :: "'s \<Rightarrow> nat \<Rightarrow> string option"
    and find :: "string \<Rightarrow> 's \<Rightarrow> int" and add :: "string \<Rightarrow> 's \<Rightarrow> int \<times> 's"
  assumes unique: "ok s \<Longrightarrow> names s i = Some nm \<Longrightarrow> names s j = Some nm \<Longrightarrow> i = j"
    and find_hit: "ok s \<Longrightarrow> cstring nm \<Longrightarrow> names s i = Some nm \<Longrightarrow> find nm s = int i"
    and find_miss: "ok s \<Longrightarrow> cstring nm \<Longrightarrow> \<forall>i. names s i \<noteq> Some nm \<Longrightarrow> find nm s = - 1"
    and add_known: "ok s \<Longrightarrow> cstring nm \<Longrightarrow> names s i = Some nm \<Longrightarrow> add nm s = (r, t) \<Longrightarrow> 0 \<le> r \<Longrightarrow> r = int i \<and> t = s"
    and add_new: "ok s \<Longrightarrow> cstring nm \<Longrightarrow> \<forall>i. names s i \<noteq> Some nm \<Longrightarrow> add nm s = (r, t) \<Longrightarrow> 0 \<le> r \<Longrightarrow>
      names s (nat r) = None \<and> names t = (names s)(nat r := Some nm) \<and> ok t"
    and add_fails: "ok s \<Longrightarrow> cstring nm \<Longrightarrow> add nm s = (r, t) \<Longrightarrow> r < 0 \<Longrightarrow> names t = names s \<and> ok t"
begin

lemma add_keeps:
  assumes "ok s" "cstring nm" "add nm s = (r, t)"
  shows "ok t \<and> (\<forall>i x. names s i = Some x \<longrightarrow> names t i = Some x) \<and> (0 \<le> r \<longrightarrow> names t (nat r) = Some nm)"
proof (cases "0 \<le> r")
  case True
  show ?thesis
  proof (cases "\<exists>i. names s i = Some nm")
    case True
    then show ?thesis using add_known [OF assms(1,2) _ assms(3) \<open>0 \<le> r\<close>] assms(1) by auto
  next
    case False
    then have "names s (nat r) = None" "names t = (names s)(nat r := Some nm)" "ok t"
      using add_new [OF assms(1,2) _ assms(3) True] by blast+
    then show ?thesis by auto
  qed
next
  case False
  then show ?thesis using add_fails [OF assms] by simp
qed

text \<open>Once a name has an identifier, no later creation changes what the name finds.\<close>

lemma find_stable:
  assumes "ok s" "names s i = Some nm" "cstring nm" "\<forall>x\<in>set xs. cstring x"
  shows "ok (fold (\<lambda>x s. snd (add x s)) xs s) \<and> find nm (fold (\<lambda>x s. snd (add x s)) xs s) = int i"
  using assms
proof (induction xs arbitrary: s)
  case Nil
  then show ?case using find_hit by simp
next
  case (Cons x xs)
  have "ok (snd (add x s))" "names (snd (add x s)) i = Some nm"
    using add_keeps [OF Cons.prems(1), of x "fst (add x s)" "snd (add x s)"] Cons.prems by auto
  then show ?case using Cons.IH [of "snd (add x s)"] Cons.prems by simp
qed

lemma find_after_add:
  assumes "ok s" "cstring nm" "add nm s = (r, t)" "0 \<le> r" "\<forall>x\<in>set xs. cstring x"
  shows "find nm (fold (\<lambda>x s. snd (add x s)) xs t) = r"
  using find_stable [of t "nat r" nm xs] add_keeps [OF assms(1-3)] assms(2,4,5) by simp

end

end
