(* ===== verification/Ipc.thy ===== *)
theory Ipc
  imports Sched Capability Fifo Names
begin

text \<open>
  Message channels, kernel/ipc/ipc.c: 16 named channels, each with a queue of 32 messages of up to
  64 bytes, an optional capability per message, and a rendezvous slot.  The locked sections are
  single definitions.  A channel identifier is a C \<^verbatim>\<open>int\<close>, cast to 16 bits where the code casts it.
  The scheduler is only read, for the calling task.  A payload pointer is a list of bytes or NULL;
  an output parameter is a flag for its pointer, and the values written are part of the result.
\<close>

section \<open>Data\<close>

definition IPC_MAX_CHANNELS :: u32 where "IPC_MAX_CHANNELS = 16"
definition IPC_CHANNEL_NAME_MAX :: u32 where "IPC_CHANNEL_NAME_MAX = 32"
definition IPC_CHANNEL_QUEUE_CAPACITY :: u32 where "IPC_CHANNEL_QUEUE_CAPACITY = 32"
definition IPC_MESSAGE_DATA_MAX :: u32 where "IPC_MESSAGE_DATA_MAX = 64"

record ipc_message_t =
  msg_sender_tid :: u64
  msg_size :: u16
  msg_has_capability :: u8
  msg_capability_id :: u16
  msg_capability_rights :: u16
  msg_data :: "u8 list"

record ipc_channel_t =
  ch_in_use :: u8
  ch_name :: string
  ch_head :: u16
  ch_tail :: u16
  ch_count :: u16
  ch_queue :: "ipc_message_t list"
  ch_rendezvous_pending :: u8
  ch_rendezvous_generation :: u64
  ch_rendezvous_message :: ipc_message_t

record ipc =
  g_ipc_channels :: "ipc_channel_t list"
  g_ipc_channel_count :: u16

section \<open>Names, identifiers and senders\<close>

definition ipc_strnlen :: "string option \<Rightarrow> u16 \<Rightarrow> u16" where
  "ipc_strnlen text limit = of_nat (name_strnlen text (unat limit))"

definition ipc_name_equal :: "string \<Rightarrow> string option \<Rightarrow> bool" where
  "ipc_name_equal left right =
     (case right of None \<Rightarrow> False | Some r \<Rightarrow> name_equal_loop (unat IPC_CHANNEL_NAME_MAX) 0 left r)"

definition ipc_name_copy :: "string option \<Rightarrow> string" where
  "ipc_name_copy src = name_copy (unat IPC_CHANNEL_NAME_MAX) src"

definition ipc_find_channel_locked :: "string option \<Rightarrow> ipc \<Rightarrow> int" where
  "ipc_find_channel_locked nm g =
     (case first_index (\<lambda>ch. ch_in_use ch \<noteq> 0 \<and> ipc_name_equal (ch_name ch) nm) (g_ipc_channels g) of
        None \<Rightarrow> - 1 | Some index \<Rightarrow> int index)"

definition channel_index :: "int \<Rightarrow> nat" where
  "channel_index channel_id = unat (word_of_int channel_id :: u16)"

definition ipc_is_valid_channel_id :: "int \<Rightarrow> ipc \<Rightarrow> bool" where
  "ipc_is_valid_channel_id channel_id g \<longleftrightarrow>
     \<not> channel_id < 0 \<and> \<not> channel_index channel_id \<ge> unat IPC_MAX_CHANNELS \<and>
     ch_in_use (g_ipc_channels g ! channel_index channel_id) \<noteq> 0"

definition ipc_current_tid :: "sched \<Rightarrow> u64" where
  "ipc_current_tid s = (case sched_current_task s of None \<Rightarrow> 0 | Some current \<Rightarrow> tid (task_at current s))"

definition ipc_wait_hint :: "sched \<Rightarrow> sched" where
  "ipc_wait_hint s = (case sched_current_task s of None \<Rightarrow> s
     | Some current \<Rightarrow> if tid (task_at current s) \<noteq> 0 then sched_yield s else s)"

definition ipc_resolve_sender_tid :: "sched \<Rightarrow> u64 \<Rightarrow> u64 option" where
  "ipc_resolve_sender_tid s sender_tid =
     (if sender_tid = 0 then Some (ipc_current_tid s)
      else if ipc_current_tid s \<noteq> 0 \<and> sender_tid \<noteq> ipc_current_tid s then None
      else Some sender_tid)"

abbreviation upd_channel :: "nat \<Rightarrow> (ipc_channel_t \<Rightarrow> ipc_channel_t) \<Rightarrow> ipc \<Rightarrow> ipc" where
  "upd_channel i f g \<equiv> g\<lparr>g_ipc_channels := (g_ipc_channels g)[i := f (g_ipc_channels g ! i)]\<rparr>"

section \<open>Queued messages\<close>

text \<open>The message record of a slot, rewritten: the data bytes past the size keep their old values.\<close>

definition fill_message :: "u64 \<Rightarrow> u16 \<Rightarrow> u8 \<Rightarrow> u16 \<Rightarrow> u16 \<Rightarrow> u8 list \<Rightarrow> ipc_message_t \<Rightarrow> ipc_message_t" where
  "fill_message sender sz has_capability capability_id capability_rights payload m =
     m\<lparr>msg_sender_tid := sender, msg_size := sz,
       msg_has_capability := (if has_capability \<noteq> 0 then 1 else 0),
       msg_capability_id := (if has_capability \<noteq> 0 then capability_id else 0),
       msg_capability_rights := (if has_capability \<noteq> 0 then capability_rights else 0),
       msg_data := take (unat sz) payload @ drop (unat sz) (msg_data m)\<rparr>"

definition channel_enqueue :: "u64 \<Rightarrow> u16 \<Rightarrow> u8 \<Rightarrow> u16 \<Rightarrow> u16 \<Rightarrow> u8 list \<Rightarrow> ipc_channel_t \<Rightarrow> ipc_channel_t" where
  "channel_enqueue sender sz has_capability capability_id capability_rights payload ch =
     ch\<lparr>ch_queue := (ch_queue ch)[unat (ch_tail ch) :=
          fill_message sender sz has_capability capability_id capability_rights payload (ch_queue ch ! unat (ch_tail ch))],
        ch_tail := ring_next (ch_tail ch) IPC_CHANNEL_QUEUE_CAPACITY,
        ch_count := ch_count ch + 1\<rparr>"

definition ipc_channel_send_internal ::
  "int \<Rightarrow> u8 list option \<Rightarrow> u16 \<Rightarrow> u64 \<Rightarrow> u8 \<Rightarrow> u16 \<Rightarrow> u16 \<Rightarrow> sched \<Rightarrow> capability \<Rightarrow> ipc \<Rightarrow> int \<times> ipc" where
  "ipc_channel_send_internal channel_id payload sz sender_tid has_capability capability_id capability_rights s caps g =
     (case payload of None \<Rightarrow> (- 1, g) | Some bytes \<Rightarrow>
        if sz = 0 \<or> ucast sz > IPC_MESSAGE_DATA_MAX then (- 1, g)
        else (case ipc_resolve_sender_tid s sender_tid of None \<Rightarrow> (- 1, g) | Some resolved \<Rightarrow>
          if has_capability \<noteq> 0 \<and> capability_validate_transfer capability_id resolved capability_rights caps \<noteq> 0 then (- 4, g)
          else if \<not> ipc_is_valid_channel_id channel_id g then (- 2, g)
          else
            let channel = g_ipc_channels g ! channel_index channel_id in
            if ucast (ch_count channel) \<ge> IPC_CHANNEL_QUEUE_CAPACITY then (- 3, g)
            else (0, upd_channel (channel_index channel_id)
                       (channel_enqueue resolved sz has_capability capability_id capability_rights bytes) g)))"

record received =
  rcv_size :: u16
  rcv_sender_tid :: u64
  rcv_has_capability :: u8
  rcv_capability_id :: u16
  rcv_capability_rights :: u16
  rcv_bytes :: "u8 list"

definition read_message :: "ipc_message_t \<Rightarrow> received" where
  "read_message m = \<lparr>rcv_size = msg_size m, rcv_sender_tid = msg_sender_tid m, rcv_has_capability = msg_has_capability m,
     rcv_capability_id = msg_capability_id m, rcv_capability_rights = msg_capability_rights m,
     rcv_bytes = take (unat (msg_size m)) (msg_data m)\<rparr>"

definition channel_dequeue :: "ipc_channel_t \<Rightarrow> ipc_channel_t" where
  "channel_dequeue ch = ch\<lparr>ch_head := ring_next (ch_head ch) IPC_CHANNEL_QUEUE_CAPACITY, ch_count := ch_count ch - 1\<rparr>"

text \<open>\<open>has_out\<close> says that none of the six output pointers is NULL.\<close>

definition ipc_channel_recv_internal :: "int \<Rightarrow> bool \<Rightarrow> u16 \<Rightarrow> ipc \<Rightarrow> int \<times> received option \<times> ipc" where
  "ipc_channel_recv_internal channel_id has_out payload_capacity g =
     (if \<not> has_out then (- 1, None, g)
      else if \<not> ipc_is_valid_channel_id channel_id g then (- 2, None, g)
      else
        let channel = g_ipc_channels g ! channel_index channel_id in
        if ch_count channel = 0 then (- 3, None, g)
        else
          let message = ch_queue channel ! unat (ch_head channel) in
          if payload_capacity < msg_size message then (- 4, None, g)
          else (0, Some (read_message message), upd_channel (channel_index channel_id) channel_dequeue g))"

section \<open>Public operations\<close>

definition reset_rendezvous :: "ipc_message_t \<Rightarrow> ipc_message_t" where
  "reset_rendezvous m = m\<lparr>msg_sender_tid := 0, msg_size := 0, msg_has_capability := 0, msg_capability_id := 0,
     msg_capability_rights := 0\<rparr>"

definition ipc_init :: "ipc \<Rightarrow> ipc" where
  "ipc_init g = g\<lparr>g_ipc_channels := map (\<lambda>ch. ch\<lparr>ch_in_use := 0, ch_head := 0, ch_tail := 0, ch_count := 0,
       ch_rendezvous_pending := 0, ch_rendezvous_generation := 0,
       ch_rendezvous_message := reset_rendezvous (ch_rendezvous_message ch), ch_name := ipc_name_copy (Some [])\<rparr>)
       (g_ipc_channels g),
     g_ipc_channel_count := 0\<rparr>"

definition open_channel :: "string option \<Rightarrow> ipc_channel_t \<Rightarrow> ipc_channel_t" where
  "open_channel nm ch = ch\<lparr>ch_in_use := 1, ch_head := 0, ch_tail := 0, ch_count := 0,
     ch_rendezvous_pending := 0, ch_rendezvous_generation := 0,
     ch_rendezvous_message := reset_rendezvous (ch_rendezvous_message ch), ch_name := ipc_name_copy nm\<rparr>"

definition ipc_channel_create :: "string option \<Rightarrow> ipc \<Rightarrow> int \<times> ipc" where
  "ipc_channel_create nm g =
     (let name_len = ipc_strnlen nm (ucast IPC_CHANNEL_NAME_MAX) in
      if name_len = 0 \<or> ucast name_len \<ge> IPC_CHANNEL_NAME_MAX then (- 1, g)
      else if ipc_find_channel_locked nm g \<ge> 0 then (ipc_find_channel_locked nm g, g)
      else case first_index (\<lambda>ch. ch_in_use ch = 0) (g_ipc_channels g) of
          None \<Rightarrow> (- 2, g)
        | Some free_slot \<Rightarrow>
            (int free_slot, (upd_channel free_slot (open_channel nm) g)\<lparr>g_ipc_channel_count := g_ipc_channel_count g + 1\<rparr>))"

definition ipc_channel_find :: "string option \<Rightarrow> ipc \<Rightarrow> int" where
  "ipc_channel_find nm g = (case nm of None \<Rightarrow> - 1 | Some _ \<Rightarrow> ipc_find_channel_locked nm g)"

definition ipc_channel_send :: "int \<Rightarrow> u8 list option \<Rightarrow> u16 \<Rightarrow> u64 \<Rightarrow> sched \<Rightarrow> capability \<Rightarrow> ipc \<Rightarrow> int \<times> ipc" where
  "ipc_channel_send channel_id payload sz sender_tid s caps g =
     ipc_channel_send_internal channel_id payload sz sender_tid 0 0 0 s caps g"

definition ipc_channel_send_capability ::
  "int \<Rightarrow> u8 list option \<Rightarrow> u16 \<Rightarrow> u64 \<Rightarrow> u16 \<Rightarrow> u16 \<Rightarrow> sched \<Rightarrow> capability \<Rightarrow> ipc \<Rightarrow> int \<times> ipc" where
  "ipc_channel_send_capability channel_id payload sz sender_tid capability_id capability_rights s caps g =
     (if capability_id = 0 \<or> capability_rights = 0 then (- 1, g)
      else ipc_channel_send_internal channel_id payload sz sender_tid 1 capability_id capability_rights s caps g)"

text \<open>A plain receive keeps the capability fields in locals of its own: its caller sees size, sender and bytes.\<close>

definition plain :: "received \<Rightarrow> u16 \<times> u64 \<times> u8 list" where
  "plain r = (rcv_size r, rcv_sender_tid r, rcv_bytes r)"

definition ipc_channel_recv :: "int \<Rightarrow> bool \<Rightarrow> u16 \<Rightarrow> ipc \<Rightarrow> int \<times> (u16 \<times> u64 \<times> u8 list) option \<times> ipc" where
  "ipc_channel_recv channel_id has_out payload_capacity g =
     (case ipc_channel_recv_internal channel_id has_out payload_capacity g of (status, r, g) \<Rightarrow> (status, map_option plain r, g))"

text \<open>
  The result has the status, the message's fields when one was taken, and the two capability
  outputs; \<open>has_cap_out\<close> is for their pointers.
\<close>

definition ipc_channel_recv_capability ::
  "int \<Rightarrow> bool \<Rightarrow> bool \<Rightarrow> u16 \<Rightarrow> sched \<Rightarrow> capability \<times> ipc \<Rightarrow>
   int \<times> received option \<times> u16 \<times> u16 \<times> capability \<times> ipc" where
  "ipc_channel_recv_capability channel_id has_out has_cap_out payload_capacity s st =
     (let (caps, g) = st in
      if \<not> has_cap_out then (- 1, None, 0, 0, caps, g)
      else
        case ipc_channel_recv_internal channel_id has_out payload_capacity g of
          (status, None, g) \<Rightarrow> (status, None, 0, 0, caps, g)
        | (status, Some r, g) \<Rightarrow>
            if rcv_has_capability r = 0 then (0, Some r, 0, 0, caps, g)
            else (case capability_copy_for_owner (rcv_capability_id r) (rcv_sender_tid r) (rcv_capability_rights r)
                         (ipc_current_tid s) True caps of
                    (copy_status, out, caps) \<Rightarrow>
                      if copy_status \<noteq> 0 then (- 5, Some r, 0, 0, caps, g)
                      else (0, Some r, case out of None \<Rightarrow> 0 | Some c \<Rightarrow> c, rcv_capability_rights r, caps, g)))"

definition ipc_channel_count :: "ipc \<Rightarrow> u16" where
  "ipc_channel_count g = g_ipc_channel_count g"

section \<open>The rendezvous\<close>

text \<open>
  Both loops of the sender and the receiver's loop release the lock between rounds.  Each round is a
  definition; \<open>Retry\<close> is a round that ends in \<^verbatim>\<open>ipc_wait_hint\<close>.
\<close>

datatype 'a round = Status int | Retry | Go 'a

definition rendezvous_enter :: "u8 list option \<Rightarrow> u16 \<Rightarrow> u64 \<Rightarrow> sched \<Rightarrow> u64 option" where
  "rendezvous_enter payload sz sender_tid s =
     (if payload = None \<or> sz = 0 \<or> ucast sz > IPC_MESSAGE_DATA_MAX then None else ipc_resolve_sender_tid s sender_tid)"

definition rendezvous_post :: "int \<Rightarrow> u8 list \<Rightarrow> u16 \<Rightarrow> u64 \<Rightarrow> ipc \<Rightarrow> u64 round \<times> ipc" where
  "rendezvous_post channel_id payload sz resolved g =
     (if \<not> ipc_is_valid_channel_id channel_id g then (Status (- 2), g)
      else
        let channel = g_ipc_channels g ! channel_index channel_id in
        if ch_rendezvous_pending channel = 0 then
          (Go (ch_rendezvous_generation channel),
           upd_channel (channel_index channel_id)
             (\<lambda>ch. ch\<lparr>ch_rendezvous_message := fill_message resolved sz 0 0 0 payload (ch_rendezvous_message ch),
                      ch_rendezvous_pending := 1\<rparr>) g)
        else (Retry, g))"

definition rendezvous_await :: "int \<Rightarrow> u64 \<Rightarrow> ipc \<Rightarrow> unit round" where
  "rendezvous_await channel_id base_generation g =
     (if \<not> ipc_is_valid_channel_id channel_id g then Status (- 2)
      else
        let channel = g_ipc_channels g ! channel_index channel_id in
        if ch_rendezvous_pending channel = 0 \<and> ch_rendezvous_generation channel \<noteq> base_generation then Go ()
        else Retry)"

definition rendezvous_take :: "int \<Rightarrow> bool \<Rightarrow> u16 \<Rightarrow> ipc \<Rightarrow> (u16 \<times> u64 \<times> u8 list) round \<times> ipc" where
  "rendezvous_take channel_id has_out payload_capacity g =
     (if \<not> has_out then (Status (- 1), g)
      else if \<not> ipc_is_valid_channel_id channel_id g then (Status (- 2), g)
      else
        let channel = g_ipc_channels g ! channel_index channel_id in
        if ch_rendezvous_pending channel \<noteq> 0 then
          (let message = ch_rendezvous_message channel in
           if payload_capacity < msg_size message then (Status (- 4), g)
           else (Go (plain (read_message message)),
                 upd_channel (channel_index channel_id)
                   (\<lambda>ch. ch\<lparr>ch_rendezvous_pending := 0,
                            ch_rendezvous_generation := ch_rendezvous_generation ch + 1\<rparr>) g))
        else (Retry, g))"

end
