(* ===== verification/Ipc_Spec.thy ===== *)
theory Ipc_Spec
  imports Ipc
begin

text \<open>
  What the message channels promise.  \<open>ipc_spec\<close> is the abstract service: names and unbounded
  lists of messages, with the bounds of the code as guards.  The invariant \<open>ipc_ok\<close> of the tables
  and the lemma that creating, sending and receiving implement the service, every status included.
\<close>

section \<open>The service\<close>

record ipc_spec =
  sp_names :: "nat \<Rightarrow> string option"
  sp_queues :: "nat \<Rightarrow> received list"

definition spec_channel :: "int \<Rightarrow> ipc_spec \<Rightarrow> nat option" where
  "spec_channel c a = (let i = nat (c mod 65536) in if 0 \<le> c \<and> i < 16 \<and> sp_names a i \<noteq> None then Some i else None)"

definition spec_create :: "string \<Rightarrow> ipc_spec \<Rightarrow> int \<times> ipc_spec" where
  "spec_create nm a =
     (if nm = [] \<or> 32 \<le> length nm then (- 1, a)
      else case first_index (\<lambda>i. sp_names a i = Some nm) [0..<16] of
          Some i \<Rightarrow> (int i, a)
        | None \<Rightarrow> (case first_index (\<lambda>i. sp_names a i = None) [0..<16] of
              None \<Rightarrow> (- 2, a)
            | Some i \<Rightarrow> (int i, a\<lparr>sp_names := (sp_names a)(i := Some nm), sp_queues := (sp_queues a)(i := [])\<rparr>)))"

text \<open>The sender a message is given: the calling task; only code that runs in no task may name another.\<close>

definition spec_sender :: "u64 \<Rightarrow> u64 \<Rightarrow> u64 option" where
  "spec_sender current claimed =
     (if claimed = 0 \<or> claimed = current then Some current else if current = 0 then Some claimed else None)"

definition spec_send :: "int \<Rightarrow> u8 list \<Rightarrow> u16 \<Rightarrow> u64 \<Rightarrow> (u16 \<times> u16) option \<Rightarrow> u64 \<Rightarrow> capability \<Rightarrow> ipc_spec \<Rightarrow> int \<times> ipc_spec" where
  "spec_send c bytes sz claimed grant current caps a =
     (if sz = 0 \<or> 64 < sz then (- 1, a)
      else case spec_sender current claimed of None \<Rightarrow> (- 1, a) | Some sender \<Rightarrow>
        if (case grant of None \<Rightarrow> False | Some (cap, rights) \<Rightarrow> capability_validate_transfer cap sender rights caps \<noteq> 0) then (- 4, a)
        else case spec_channel c a of None \<Rightarrow> (- 2, a) | Some i \<Rightarrow>
          if 32 \<le> length (sp_queues a i) then (- 3, a)
          else (0, a\<lparr>sp_queues := (sp_queues a)(i := sp_queues a i @
             [\<lparr>rcv_size = sz, rcv_sender_tid = sender, rcv_has_capability = (if grant = None then 0 else 1),
               rcv_capability_id = (case grant of None \<Rightarrow> 0 | Some (cap, _) \<Rightarrow> cap),
               rcv_capability_rights = (case grant of None \<Rightarrow> 0 | Some (_, rights) \<Rightarrow> rights),
               rcv_bytes = take (unat sz) bytes\<rparr>])\<rparr>))"

definition spec_recv :: "int \<Rightarrow> u16 \<Rightarrow> ipc_spec \<Rightarrow> int \<times> received option \<times> ipc_spec" where
  "spec_recv c capacity a =
     (case spec_channel c a of None \<Rightarrow> (- 2, None, a) | Some i \<Rightarrow>
        case sp_queues a i of [] \<Rightarrow> (- 3, None, a)
        | r # rs \<Rightarrow> if capacity < rcv_size r then (- 4, None, a) else (0, Some r, a\<lparr>sp_queues := (sp_queues a)(i := rs)\<rparr>))"

section \<open>The invariant and the abstraction\<close>

definition chan_queue :: "ipc_channel_t \<Rightarrow> received list" where
  "chan_queue ch = map read_message (ring_list (ch_queue ch) (unat (ch_head ch)) (unat (ch_count ch)))"

text \<open>The array lengths of a channel, and the state of its ring and of its rendezvous slot.\<close>

definition channel_typed :: "ipc_channel_t \<Rightarrow> bool" where
  "channel_typed ch \<longleftrightarrow> length (ch_queue ch) = 32 \<and> (\<forall>m\<in>set (ch_queue ch). length (msg_data m) = 64) \<and>
     length (msg_data (ch_rendezvous_message ch)) = 64"

definition channel_ok :: "ipc_channel_t \<Rightarrow> bool" where
  "channel_ok ch \<longleftrightarrow> channel_typed ch \<and>
     ring_ok (ch_queue ch) (unat (ch_head ch)) (unat (ch_tail ch)) (unat (ch_count ch)) \<and>
     (\<forall>r\<in>set (chan_queue ch). length (rcv_bytes r) = unat (rcv_size r) \<and> rcv_size r \<le> 64) \<and>
     msg_size (ch_rendezvous_message ch) \<le> 64"

abbreviation channel_used :: "ipc_channel_t \<Rightarrow> bool" where
  "channel_used ch \<equiv> ch_in_use ch \<noteq> 0"

definition ipc_ok :: "ipc \<Rightarrow> bool" where
  "ipc_ok g \<longleftrightarrow> length (g_ipc_channels g) = 16 \<and> (\<forall>ch\<in>set (g_ipc_channels g). channel_ok ch) \<and>
     names_ok channel_used ch_name (g_ipc_channels g) \<and>
     unat (g_ipc_channel_count g) = card {i. i < length (g_ipc_channels g) \<and> channel_used (g_ipc_channels g ! i)}"

definition ipc_abs :: "ipc \<Rightarrow> ipc_spec" where
  "ipc_abs g = \<lparr>sp_names = table_names channel_used ch_name (g_ipc_channels g),
     sp_queues = (\<lambda>i. if i < length (g_ipc_channels g) then chan_queue (g_ipc_channels g ! i) else [])\<rparr>"

lemma ipc_consts [simp]: "unat IPC_MAX_CHANNELS = 16" "unat IPC_CHANNEL_NAME_MAX = 32" "unat IPC_CHANNEL_QUEUE_CAPACITY = 32"
  by (simp_all add: IPC_MAX_CHANNELS_def IPC_CHANNEL_NAME_MAX_def IPC_CHANNEL_QUEUE_CAPACITY_def)

lemma ipc_okD:
  assumes "ipc_ok g"
  shows "length (g_ipc_channels g) = 16" "i < 16 \<Longrightarrow> channel_ok (g_ipc_channels g ! i)"
    "names_ok channel_used ch_name (g_ipc_channels g)"
  using assms by (simp_all add: ipc_ok_def)

section \<open>Channels\<close>

lemma unat_le_64: "unat (sz :: u16) \<le> 64 \<longleftrightarrow> sz \<le> 64"
  by (simp add: word_le_unat)

lemma read_fill:
  assumes "length (msg_data m) = 64" "sz \<le> 64" "unat sz \<le> length bytes"
  shows "read_message (fill_message sd sz hc ci cr bytes m) =
     \<lparr>rcv_size = sz, rcv_sender_tid = sd, rcv_has_capability = (if hc \<noteq> 0 then 1 else 0),
      rcv_capability_id = (if hc \<noteq> 0 then ci else 0), rcv_capability_rights = (if hc \<noteq> 0 then cr else 0),
      rcv_bytes = take (unat sz) bytes\<rparr>" (is ?r)
    "length (msg_data (fill_message sd sz hc ci cr bytes m)) = 64" (is ?l)
proof -
  have "unat sz \<le> 64" using assms(2) by (simp add: unat_le_64)
  then show ?r ?l using assms(1,3) by (simp_all add: read_message_def fill_message_def)
qed

lemma chan_queue_length: "length (chan_queue ch) = unat (ch_count ch)"
  by (simp add: chan_queue_def)

lemma enqueue_ok:
  assumes ok: "channel_ok ch" and n: "unat (ch_count ch) < 32" and sz: "sz \<le> 64" "unat sz \<le> length bytes"
  shows "chan_queue (channel_enqueue sd sz hc ci cr bytes ch) = chan_queue ch @
       [\<lparr>rcv_size = sz, rcv_sender_tid = sd, rcv_has_capability = (if hc \<noteq> 0 then 1 else 0),
         rcv_capability_id = (if hc \<noteq> 0 then ci else 0), rcv_capability_rights = (if hc \<noteq> 0 then cr else 0),
         rcv_bytes = take (unat sz) bytes\<rparr>]" (is "?q")
    "channel_ok (channel_enqueue sd sz hc ci cr bytes ch)" (is "?ok")
proof -
  let ?m = "fill_message sd sz hc ci cr bytes (ch_queue ch ! unat (ch_tail ch))"
  have len: "length (ch_queue ch) = unat IPC_CHANNEL_QUEUE_CAPACITY" and t: "channel_typed ch"
    and r: "ring_ok (ch_queue ch) (unat (ch_head ch)) (unat (ch_tail ch)) (unat (ch_count ch))"
    using ok by (simp_all add: channel_ok_def channel_typed_def)
  note e = ring_enq_words(1,2) [OF r len, where x = ?m]
  have "ch_queue ch ! unat (ch_tail ch) \<in> set (ch_queue ch)" using r by (simp add: ring_ok_def)
  then have d: "length (msg_data (ch_queue ch ! unat (ch_tail ch))) = 64" using t by (simp add: channel_typed_def)
  note rf = read_fill [OF d sz]
  show q: ?q using e(2) n rf(1) by (simp add: chan_queue_def channel_enqueue_def)
  have "length (msg_data m) = 64" if "m \<in> set ((ch_queue ch)[unat (ch_tail ch) := ?m])" for m
  proof -
    have "m = ?m \<or> m \<in> set (ch_queue ch)" using set_update_subset_insert that by fastforce
    then show ?thesis using rf(2) t by (auto simp: channel_typed_def)
  qed
  then have "channel_typed (channel_enqueue sd sz hc ci cr bytes ch)" using t by (simp add: channel_typed_def channel_enqueue_def)
  moreover have "length (take (unat sz) bytes) = unat sz" using sz(2) by simp
  ultimately show ?ok unfolding channel_ok_def q using ok e(1) n sz(1) by (simp add: channel_ok_def channel_enqueue_def)
qed

lemma channel_frame [simp]:
  "ch_in_use (channel_enqueue sd sz hc ci cr bytes ch) = ch_in_use ch" "ch_name (channel_enqueue sd sz hc ci cr bytes ch) = ch_name ch"
  "ch_in_use (channel_dequeue ch) = ch_in_use ch" "ch_name (channel_dequeue ch) = ch_name ch"
  by (simp_all add: channel_enqueue_def channel_dequeue_def)

lemma dequeue_ok:
  assumes ok: "channel_ok ch" and n: "ch_count ch \<noteq> 0"
  shows "chan_queue ch = read_message (ch_queue ch ! unat (ch_head ch)) # chan_queue (channel_dequeue ch)" (is "?q")
    "channel_ok (channel_dequeue ch)" (is "?ok")
proof -
  have len: "length (ch_queue ch) = unat IPC_CHANNEL_QUEUE_CAPACITY"
    and r: "ring_ok (ch_queue ch) (unat (ch_head ch)) (unat (ch_tail ch)) (unat (ch_count ch))"
    using ok by (simp_all add: channel_ok_def channel_typed_def)
  note e = ring_deq_words [OF r len _ n]
  show q: ?q using e(2) by (simp add: chan_queue_def channel_dequeue_def)
  show ?ok using ok e(1) q by (simp add: channel_ok_def channel_typed_def channel_dequeue_def)
qed

lemma open_ok:
  assumes "channel_typed ch"
  shows "channel_ok (open_channel nm ch)" "chan_queue (open_channel nm ch) = []"
  using assms by (simp_all add: channel_ok_def channel_typed_def open_channel_def reset_rendezvous_def chan_queue_def ring_ok_def)

section \<open>Tables\<close>

lemma channel_index_mod: "channel_index c = nat (c mod 65536)"
  by (simp add: channel_index_def unsigned_of_int take_bit_eq_mod)

lemma valid_id_spec:
  assumes "ipc_ok g"
  shows "spec_channel c (ipc_abs g) = (if ipc_is_valid_channel_id c g then Some (channel_index c) else None)"
  using ipc_okD(1) [OF assms]
  by (auto simp: spec_channel_def ipc_is_valid_channel_id_def channel_index_mod ipc_abs_def table_names_def Let_def)

lemma valid_id_bound: "ipc_is_valid_channel_id c g \<Longrightarrow> channel_index c < 16"
  by (simp add: ipc_is_valid_channel_id_def)

text \<open>Rewriting a channel without touching its name or use flag.\<close>

lemma upd_channel_ok:
  assumes ok: "ipc_ok g" and i: "i < 16" and y: "channel_ok (f (g_ipc_channels g ! i))"
    and same: "ch_in_use (f (g_ipc_channels g ! i)) = ch_in_use (g_ipc_channels g ! i)"
      "ch_name (f (g_ipc_channels g ! i)) = ch_name (g_ipc_channels g ! i)"
  shows "ipc_ok (upd_channel i f g)"
    "ipc_abs (upd_channel i f g) = (ipc_abs g)\<lparr>sp_queues := (sp_queues (ipc_abs g))(i := chan_queue (f (g_ipc_channels g ! i)))\<rparr>"
proof -
  note g = ipc_okD [OF ok]
  have k: "table_names channel_used ch_name ((g_ipc_channels g)[i := f (g_ipc_channels g ! i)]) = table_names channel_used ch_name (g_ipc_channels g)"
    "names_ok channel_used ch_name ((g_ipc_channels g)[i := f (g_ipc_channels g ! i)])"
    using names_keep [of channel_used "f (g_ipc_channels g ! i)" "g_ipc_channels g" i ch_name] same g(3) by simp_all
  have "card {j. j < length (g_ipc_channels g) \<and> channel_used ((g_ipc_channels g)[i := f (g_ipc_channels g ! i)] ! j)} =
      card {j. j < length (g_ipc_channels g) \<and> channel_used (g_ipc_channels g ! j)}"
    using card_update_list_same [of i "g_ipc_channels g" channel_used "f (g_ipc_channels g ! i)"] i g(1) same by simp
  moreover have "channel_ok ch" if "ch \<in> set ((g_ipc_channels g)[i := f (g_ipc_channels g ! i)])" for ch
    using set_update_subset_insert [of "g_ipc_channels g" i "f (g_ipc_channels g ! i)"] that y ok by (auto simp: ipc_ok_def)
  ultimately show "ipc_ok (upd_channel i f g)" using ok k(2) by (simp add: ipc_ok_def)
  show "ipc_abs (upd_channel i f g) = (ipc_abs g)\<lparr>sp_queues := (sp_queues (ipc_abs g))(i := chan_queue (f (g_ipc_channels g ! i)))\<rparr>"
    using k(1) i g(1) by (auto simp: ipc_abs_def fun_eq_iff nth_list_update)
qed

section \<open>The operations implement the service\<close>

lemma resolve_spec: "ipc_resolve_sender_tid s claimed = spec_sender (ipc_current_tid s) claimed"
  by (simp add: ipc_resolve_sender_tid_def spec_sender_def)

lemma send_refines:
  assumes ok: "ipc_ok g" and sz: "unat sz \<le> length bytes"
    and r: "ipc_channel_send_internal c (Some bytes) sz claimed hc ci cr s caps g = (v, g')"
  shows "ipc_ok g' \<and> spec_send c bytes sz claimed (if hc \<noteq> 0 then Some (ci, cr) else None) (ipc_current_tid s) caps (ipc_abs g) = (v, ipc_abs g')"
proof (cases "sz = 0 \<or> 64 < sz \<or> ipc_resolve_sender_tid s claimed = None")
  case True
  have "ucast sz > IPC_MESSAGE_DATA_MAX \<longleftrightarrow> 64 < sz" by (simp add: IPC_MESSAGE_DATA_MAX_def word_less_unat unat_ucast_up)
  then show ?thesis using r ok True
    by (auto simp: ipc_channel_send_internal_def spec_send_def resolve_spec split: option.splits if_splits)
next
  case False
  then obtain sd where sd: "ipc_resolve_sender_tid s claimed = Some sd" and b: "sz \<noteq> 0" "\<not> 64 < sz" by auto
  have nb: "\<not> (sz = 0 \<or> ucast sz > IPC_MESSAGE_DATA_MAX)" using b by (simp add: IPC_MESSAGE_DATA_MAX_def word_less_unat unat_ucast_up)
  have r1: "(if hc \<noteq> 0 \<and> capability_validate_transfer ci sd cr caps \<noteq> 0 then (- 4, g)
      else if \<not> ipc_is_valid_channel_id c g then (- 2, g)
      else if ucast (ch_count (g_ipc_channels g ! channel_index c)) \<ge> IPC_CHANNEL_QUEUE_CAPACITY then (- 3, g)
      else (0, upd_channel (channel_index c) (channel_enqueue sd sz hc ci cr bytes) g)) = (v, g')"
    by (rule r [unfolded ipc_channel_send_internal_def option.case if_not_P [OF nb] sd Let_def])
  show ?thesis
  proof (cases "ipc_is_valid_channel_id c g \<and> \<not> (hc \<noteq> 0 \<and> capability_validate_transfer ci sd cr caps \<noteq> 0)")
    case False
    then show ?thesis using r1 b sd ok valid_id_spec [OF ok, of c] by (auto simp: spec_send_def resolve_spec split: if_splits)
  next
    case True
    let ?ch = "g_ipc_channels g ! channel_index c"
    have i: "channel_index c < 16" using True valid_id_bound by blast
    have q: "sp_queues (ipc_abs g) (channel_index c) = chan_queue ?ch" using i ipc_okD(1) [OF ok] by (simp add: ipc_abs_def)
    have full: "ucast (ch_count ?ch) \<ge> IPC_CHANNEL_QUEUE_CAPACITY \<longleftrightarrow> 32 \<le> length (chan_queue ?ch)"
      by (simp add: chan_queue_length word_le_unat unat_ucast_up)
    show ?thesis
    proof (cases "32 \<le> length (chan_queue ?ch)")
      case f: True
      then show ?thesis using r1 True b sd ok valid_id_spec [OF ok, of c] q full by (auto simp: spec_send_def resolve_spec)
    next
      case False
      then have n: "unat (ch_count ?ch) < 32" by (simp add: chan_queue_length)
      note e = enqueue_ok [OF ipc_okD(2) [OF ok i] n _ sz, of sd hc ci cr]
      have g': "v = 0" "g' = upd_channel (channel_index c) (channel_enqueue sd sz hc ci cr bytes) g"
        using r1 True False full by auto
      note u = upd_channel_ok [OF ok i, of "channel_enqueue sd sz hc ci cr bytes"]
      have "sz \<le> 64" using b(2) by simp
      note e = e [OF this] and u = u [OF e(2)]
      show ?thesis unfolding g' using u e(1) b sd True False valid_id_spec [OF ok, of c] q
        by (auto simp: spec_send_def resolve_spec)
    qed
  qed
qed

lemma recv_refines:
  assumes ok: "ipc_ok g" and r: "ipc_channel_recv_internal c True capacity g = (v, res, g')"
  shows "ipc_ok g' \<and> spec_recv c capacity (ipc_abs g) = (v, res, ipc_abs g')"
proof (cases "ipc_is_valid_channel_id c g")
  case True
  let ?ch = "g_ipc_channels g ! channel_index c"
  have i: "channel_index c < 16" using True valid_id_bound by blast
  have q: "sp_queues (ipc_abs g) (channel_index c) = chan_queue ?ch" using i ipc_okD(1) [OF ok] by (simp add: ipc_abs_def)
  show ?thesis
  proof (cases "ch_count ?ch = 0")
    case empty: True
    then have "chan_queue ?ch = []" by (simp add: chan_queue_def)
    then show ?thesis using r True empty ok valid_id_spec [OF ok, of c] q by (simp add: ipc_channel_recv_internal_def spec_recv_def)
  next
    case False
    note d = dequeue_ok [OF ipc_okD(2) [OF ok i] False]
    note u = upd_channel_ok [OF ok i, of channel_dequeue]
    have s: "rcv_size (read_message m) = msg_size m" for m by (simp add: read_message_def)
    show ?thesis using r True False ok valid_id_spec [OF ok, of c] q d u s
      by (auto simp: ipc_channel_recv_internal_def spec_recv_def Let_def split: if_splits)
  qed
next
  case False
  then show ?thesis using r ok valid_id_spec [OF ok, of c] by (simp add: ipc_channel_recv_internal_def spec_recv_def)
qed

lemma find_locked_scan:
  "ipc_find_channel_locked (Some nm) g = (case scan_names channel_used ch_name nm (g_ipc_channels g) of None \<Rightarrow> - 1 | Some i \<Rightarrow> int i)"
  by (simp add: ipc_find_channel_locked_def ipc_name_equal_def)

lemma spec_find:
  assumes ok: "ipc_ok g" and nm: "cstring nm"
  shows "first_index (\<lambda>i. sp_names (ipc_abs g) i = Some nm) [0..<16] = scan_names channel_used ch_name nm (g_ipc_channels g)"
  using ipc_okD(3) [OF ok] nm
proof (rule scan_names_cases)
  fix i
  assume t: "table_names channel_used ch_name (g_ipc_channels g) i = Some nm"
    and sc: "scan_names channel_used ch_name nm (g_ipc_channels g) = Some i"
  have i: "i < 16" using t ipc_okD(1) [OF ok] by (simp add: table_names_Some)
  have "first_index (\<lambda>i. sp_names (ipc_abs g) i = Some nm) [0..<16] = Some i"
  proof (rule first_index_SomeI)
    show "\<not> sp_names (ipc_abs g) ([0..<16] ! j) = Some nm" if "j < i" for j
      using t that i ipc_okD(3) [OF ok] unfolding names_ok_def by (auto simp: ipc_abs_def)
  qed (use t i in \<open>simp_all add: ipc_abs_def\<close>)
  then show ?thesis using sc by simp
next
  assume miss: "\<forall>i. table_names channel_used ch_name (g_ipc_channels g) i \<noteq> Some nm"
    "scan_names channel_used ch_name nm (g_ipc_channels g) = None"
  have "first_index (\<lambda>i. sp_names (ipc_abs g) i = Some nm) [0..<16] = None" using miss(1) by (simp add: ipc_abs_def)
  then show ?thesis by (rule trans [OF _ miss(2) [symmetric]])
qed

lemma spec_free:
  assumes ok: "ipc_ok g"
  shows "first_index (\<lambda>i. sp_names (ipc_abs g) i = None) [0..<16] = first_index (\<lambda>ch. ch_in_use ch = 0) (g_ipc_channels g)"
proof -
  note len = ipc_okD(1) [OF ok]
  have "first_index (\<lambda>i. sp_names (ipc_abs g) i = None) [0..<16] =
      first_index (\<lambda>i. ch_in_use (g_ipc_channels g ! i) = 0) [0..<length (g_ipc_channels g)]"
    unfolding len by (rule first_index_cong) (simp add: ipc_abs_def table_names_def len)
  also have "\<dots> = first_index (\<lambda>ch. ch_in_use ch = 0) (g_ipc_channels g)" by (rule first_index_upt)
  finally show ?thesis .
qed

lemma open_channel_ok:
  assumes ok: "ipc_ok g" and nm: "cstring nm" "length nm < 32" "\<forall>i. table_names channel_used ch_name (g_ipc_channels g) i \<noteq> Some nm"
    and i: "i < 16" "ch_in_use (g_ipc_channels g ! i) = 0"
  defines "g' \<equiv> (upd_channel i (open_channel (Some nm)) g)\<lparr>g_ipc_channel_count := g_ipc_channel_count g + 1\<rparr>"
  shows "ipc_ok g'"
    "ipc_abs g' = (ipc_abs g)\<lparr>sp_names := (sp_names (ipc_abs g))(i := Some nm), sp_queues := (sp_queues (ipc_abs g))(i := [])\<rparr>"
proof -
  let ?y = "open_channel (Some nm) (g_ipc_channels g ! i)" and ?xs = "g_ipc_channels g"
  note len = ipc_okD(1) [OF ok]
  have y: "channel_used ?y" "ch_name ?y = stored_name 32 nm"
    using nm(1,2) by (simp_all add: open_channel_def ipc_name_copy_def name_copy_eq)
  have iy: "i < length ?xs" using i(1) len by simp
  note e = names_enter [OF ipc_okD(3) [OF ok] nm iy y]
  have o: "channel_ok ?y" "chan_queue ?y = []"
    using open_ok ipc_okD(2) [OF ok i(1)] by (simp_all add: channel_ok_def)
  have c: "card {j. j < length ?xs \<and> channel_used (?xs[i := ?y] ! j)} = Suc (card {j. j < length ?xs \<and> channel_used (?xs ! j)})"
    by (rule card_update_list_gain [OF iy]) (use i(2) y(1) in simp_all)
  have "card {j. j < length ?xs \<and> channel_used (?xs ! j)} \<le> card {..<length ?xs}" by (rule card_mono) auto
  then have "unat (g_ipc_channel_count g) \<le> 16" using ok len by (simp add: ipc_ok_def)
  then have n: "unat (g_ipc_channel_count g + 1) = unat (g_ipc_channel_count g) + 1" by (subst unat_Suc_small) simp_all
  have "channel_ok ch" if "ch \<in> set (?xs[i := ?y])" for ch
    using set_update_subset_insert [of ?xs i ?y] that o(1) ok by (auto simp: ipc_ok_def)
  then show "ipc_ok g'" using ok e(2) c n by (simp add: ipc_ok_def g'_def)
  show "ipc_abs g' = (ipc_abs g)\<lparr>sp_names := (sp_names (ipc_abs g))(i := Some nm), sp_queues := (sp_queues (ipc_abs g))(i := [])\<rparr>"
    using e(1) o(2) iy by (auto simp: ipc_abs_def g'_def fun_eq_iff nth_list_update)
qed

lemma create_refines:
  assumes ok: "ipc_ok g" and nm: "cstring nm" and r: "ipc_channel_create (Some nm) g = (v, g')"
  shows "ipc_ok g' \<and> spec_create nm (ipc_abs g) = (v, ipc_abs g')"
proof (cases "nm = [] \<or> 32 \<le> length nm")
  case True
  then show ?thesis using r nm ok
    by (auto simp: ipc_channel_create_def spec_create_def ipc_strnlen_def unat_ucast_small unat_ucast_up word_le_unat unat_of_nat Let_def min_def split: if_splits)
next
  case False
  then have l: "length nm < 32" "length nm \<noteq> 0" by auto
  have u: "unat (ipc_strnlen (Some nm) (ucast IPC_CHANNEL_NAME_MAX)) = length nm"
    using l nm by (simp add: ipc_strnlen_def unat_ucast_small unat_of_nat)
  then have g: "\<not> (ipc_strnlen (Some nm) (ucast IPC_CHANNEL_NAME_MAX) = 0 \<or>
      ucast (ipc_strnlen (Some nm) (ucast IPC_CHANNEL_NAME_MAX)) \<ge> IPC_CHANNEL_NAME_MAX)"
    using l by (auto simp: word_le_unat unat_ucast_up word_eq_unat)
  note r1 = r [unfolded ipc_channel_create_def Let_def if_not_P [OF g] find_locked_scan]
  from ipc_okD(3) [OF ok] nm show ?thesis
  proof (rule scan_names_cases)
    fix i
    assume "scan_names channel_used ch_name nm (g_ipc_channels g) = Some i"
    then show ?thesis using r1 False ok spec_find [OF ok nm] by (simp add: spec_create_def del: first_index_None)
  next
    assume miss: "\<forall>i. table_names channel_used ch_name (g_ipc_channels g) i \<noteq> Some nm"
      "scan_names channel_used ch_name nm (g_ipc_channels g) = None"
    show ?thesis
    proof (cases "first_index (\<lambda>ch. ch_in_use ch = 0) (g_ipc_channels g)")
      case None
      then show ?thesis using r1 miss(2) False ok spec_find [OF ok nm] spec_free [OF ok] by (simp add: spec_create_def del: first_index_None)
    next
      case (Some i)
      have i: "i < 16" "ch_in_use (g_ipc_channels g ! i) = 0" using first_index_SomeD [OF Some] ipc_okD(1) [OF ok] by auto
      note o = open_channel_ok [OF ok nm l(1) miss(1) i]
      show ?thesis using r1 miss(2) Some False o spec_find [OF ok nm] spec_free [OF ok] by (auto simp: spec_create_def simp del: first_index_None)
    qed
  qed
qed

lemma ipc_init_ok:
  assumes "length (g_ipc_channels g) = 16" "\<forall>ch\<in>set (g_ipc_channels g). channel_typed ch"
  shows "ipc_ok (ipc_init g)" "ipc_abs (ipc_init g) = \<lparr>sp_names = (\<lambda>_. None), sp_queues = (\<lambda>_. [])\<rparr>"
proof -
  have u: "\<forall>ch\<in>set (g_ipc_channels (ipc_init g)). \<not> channel_used ch" by (auto simp: ipc_init_def)
  note e = names_empty [where used = channel_used and name = ch_name, OF u]
  have "channel_ok ch \<and> chan_queue ch = []" if "ch \<in> set (g_ipc_channels (ipc_init g))" for ch
    using that assms(2)
    by (auto simp: ipc_init_def channel_ok_def channel_typed_def reset_rendezvous_def chan_queue_def ring_ok_def)
  then have c: "\<forall>ch\<in>set (g_ipc_channels (ipc_init g)). channel_ok ch" "\<And>i. i < 16 \<Longrightarrow> chan_queue (g_ipc_channels (ipc_init g) ! i) = []"
    using assms(1) by (auto simp: ipc_init_def)
  have "{i. i < length (g_ipc_channels (ipc_init g)) \<and> channel_used (g_ipc_channels (ipc_init g) ! i)} = {}"
    using u nth_mem by blast
  then show "ipc_ok (ipc_init g)" using e(2) c(1) assms(1) by (simp add: ipc_ok_def) (simp add: ipc_init_def)
  show "ipc_abs (ipc_init g) = \<lparr>sp_names = (\<lambda>_. None), sp_queues = (\<lambda>_. [])\<rparr>"
    unfolding ipc_abs_def e(1) using c(2) assms(1) by (auto simp: fun_eq_iff) (simp add: ipc_init_def)
qed

end
