(* ===== verification/Ipc_Props.thy ===== *)
theory Ipc_Props
  imports Ipc_Spec Sched_Props
begin

text \<open>
  Properties of the message channels: the name registry, runs of operations against the abstract
  service, the authenticity of senders, the transfer of capabilities and the rendezvous.
\<close>

section \<open>The registry of channels\<close>

abbreviation channel_names :: "ipc \<Rightarrow> nat \<Rightarrow> string option" where
  "channel_names g \<equiv> table_names channel_used ch_name (g_ipc_channels g)"

lemma create_known:
  assumes ok: "ipc_ok g" and nm: "cstring nm" and i: "channel_names g i = Some nm"
    and r: "ipc_channel_create (Some nm) g = (r, t)" "0 \<le> r"
  shows "r = int i \<and> t = g"
  using r scan_names_hit [OF ipc_okD(3) [OF ok] nm i]
  by (auto simp: ipc_channel_create_def find_locked_scan Let_def split: if_splits simp del: first_index_None)

lemma create_new:
  assumes ok: "ipc_ok g" and nm: "cstring nm" and miss: "\<forall>i. channel_names g i \<noteq> Some nm"
    and r: "ipc_channel_create (Some nm) g = (r, t)" "0 \<le> r"
  shows "channel_names g (nat r) = None \<and> channel_names t = (channel_names g)(nat r := Some nm) \<and> ipc_ok t"
proof -
  have n: "channel_names g = sp_names (ipc_abs g)" "channel_names t = sp_names (ipc_abs t)" by (simp_all add: ipc_abs_def)
  from create_refines [OF ok nm r(1)] have t: "ipc_ok t" "spec_create nm (ipc_abs g) = (r, ipc_abs t)" by simp_all
  have none: "first_index (\<lambda>i. sp_names (ipc_abs g) i = Some nm) [0..<16] = None" using miss unfolding n by simp
  obtain i where i: "first_index (\<lambda>i. sp_names (ipc_abs g) i = None) [0..<16] = Some i"
    using t(2) none r(2) by (auto simp: spec_create_def split: if_splits option.splits simp del: first_index_None)
  then have "r = int i" "ipc_abs t = (ipc_abs g)\<lparr>sp_names := (sp_names (ipc_abs g))(i := Some nm), sp_queues := (sp_queues (ipc_abs g))(i := [])\<rparr>"
    using t(2) none r(2) by (auto simp: spec_create_def split: if_splits simp del: first_index_None)
  moreover have "sp_names (ipc_abs g) i = None" using first_index_SomeD [OF i] by auto
  ultimately show ?thesis unfolding n using t(1) by simp
qed

lemma create_fails:
  assumes "ipc_ok g" "cstring nm" "ipc_channel_create (Some nm) g = (r, t)" "r < 0"
  shows "t = g"
  using assms by (auto simp: ipc_channel_create_def Let_def split: if_splits option.splits)

interpretation ipc_reg: named_registry ipc_ok channel_names "\<lambda>nm. ipc_channel_find (Some nm)" "\<lambda>nm. ipc_channel_create (Some nm)"
proof
  show "i = j" if "ipc_ok s" "channel_names s i = Some nm" "channel_names s j = Some nm" for s i j nm
    using that unfolding ipc_ok_def names_ok_def by blast
  show "ipc_channel_find (Some nm) s = int i" if "ipc_ok s" "cstring nm" "channel_names s i = Some nm" for s i nm
    using scan_names_hit [OF ipc_okD(3) [OF that(1)] that(2,3)] by (simp add: ipc_channel_find_def find_locked_scan)
  show "ipc_channel_find (Some nm) s = - 1" if "ipc_ok s" "cstring nm" "\<forall>i. channel_names s i \<noteq> Some nm" for s nm
    using scan_names_miss [OF ipc_okD(3) [OF that(1)] that(2,3)] by (simp add: ipc_channel_find_def find_locked_scan del: first_index_None)
  show "channel_names t = channel_names s \<and> ipc_ok t"
    if "ipc_ok s" "cstring nm" "ipc_channel_create (Some nm) s = (r, t)" "r < 0" for s nm r t
    using create_fails [OF that] that(1) by simp
qed (use create_known create_new in blast)+

section \<open>Runs\<close>

text \<open>
  The operations on the queues, each with the scheduler and capability table it runs under.  A
  receive is shown with all the fields of the message it takes.
\<close>

datatype ipc_op =
    Ipc_Create string
  | Ipc_Send int "u8 list" u16 u64 sched capability
  | Ipc_Send_Cap int "u8 list" u16 u64 u16 u16 sched capability
  | Ipc_Recv int u16

fun ipc_exec :: "ipc_op \<Rightarrow> ipc \<Rightarrow> int \<times> received option \<times> ipc" where
  "ipc_exec (Ipc_Create nm) g = (case ipc_channel_create (Some nm) g of (v, g) \<Rightarrow> (v, None, g))"
| "ipc_exec (Ipc_Send c bytes sz claimed s caps) g =
     (case ipc_channel_send c (Some bytes) sz claimed s caps g of (v, g) \<Rightarrow> (v, None, g))"
| "ipc_exec (Ipc_Send_Cap c bytes sz claimed ci cr s caps) g =
     (case ipc_channel_send_capability c (Some bytes) sz claimed ci cr s caps g of (v, g) \<Rightarrow> (v, None, g))"
| "ipc_exec (Ipc_Recv c capacity) g = ipc_channel_recv_internal c True capacity g"

fun spec_exec :: "ipc_op \<Rightarrow> ipc_spec \<Rightarrow> int \<times> received option \<times> ipc_spec" where
  "spec_exec (Ipc_Create nm) a = (case spec_create nm a of (v, a) \<Rightarrow> (v, None, a))"
| "spec_exec (Ipc_Send c bytes sz claimed s caps) a =
     (case spec_send c bytes sz claimed None (ipc_current_tid s) caps a of (v, a) \<Rightarrow> (v, None, a))"
| "spec_exec (Ipc_Send_Cap c bytes sz claimed ci cr s caps) a =
     (if ci = 0 \<or> cr = 0 then (- 1, None, a)
      else case spec_send c bytes sz claimed (Some (ci, cr)) (ipc_current_tid s) caps a of (v, a) \<Rightarrow> (v, None, a))"
| "spec_exec (Ipc_Recv c capacity) a = spec_recv c capacity a"

fun outputs :: "('op \<Rightarrow> 's \<Rightarrow> int \<times> 'r \<times> 's) \<Rightarrow> 'op list \<Rightarrow> 's \<Rightarrow> (int \<times> 'r) list" where
  "outputs f [] s = []"
| "outputs f (op # ops) s = (case f op s of (v, r, t) \<Rightarrow> (v, r) # outputs f ops t)"

text \<open>What the C caller must supply: a terminated name, a buffer of the size it states.\<close>

fun well_called :: "ipc_op \<Rightarrow> bool" where
  "well_called (Ipc_Create nm) = cstring nm"
| "well_called (Ipc_Send c bytes sz claimed s caps) = (unat sz \<le> length bytes)"
| "well_called (Ipc_Send_Cap c bytes sz claimed ci cr s caps) = (unat sz \<le> length bytes)"
| "well_called (Ipc_Recv c capacity) = True"

lemma exec_refines:
  assumes ok: "ipc_ok g" and wc: "well_called op" and e: "ipc_exec op g = (v, r, g')"
  shows "ipc_ok g' \<and> spec_exec op (ipc_abs g) = (v, r, ipc_abs g')"
proof (cases op)
  case (Ipc_Create nm)
  then show ?thesis using create_refines [OF ok, of nm v g'] wc e by (auto split: prod.splits)
next
  case (Ipc_Send c bytes sz claimed s caps)
  then show ?thesis using send_refines [OF ok, of sz bytes c claimed 0 0 0 s caps v g'] wc e
    by (auto simp: ipc_channel_send_def split: prod.splits)
next
  case (Ipc_Send_Cap c bytes sz claimed ci cr s caps)
  then show ?thesis using send_refines [OF ok, of sz bytes c claimed 1 ci cr s caps v g'] wc e ok
    by (auto simp: ipc_channel_send_capability_def split: prod.splits if_splits)
next
  case (Ipc_Recv c capacity)
  then show ?thesis using recv_refines [OF ok, of c capacity v r g'] e by simp
qed

lemma outputs_refine:
  assumes "ipc_ok g" "\<forall>op\<in>set ops. well_called op"
  shows "outputs ipc_exec ops g = outputs spec_exec ops (ipc_abs g)"
  using assms
proof (induction ops arbitrary: g)
  case (Cons op ops)
  obtain v r g' where e: "ipc_exec op g = (v, r, g')" by (cases "ipc_exec op g")
  from exec_refines [OF Cons.prems(1) _ e] Cons.prems(2) have "ipc_ok g'" "spec_exec op (ipc_abs g) = (v, r, ipc_abs g')" by simp_all
  then show ?case using Cons.IH [of g'] Cons.prems(2) e by simp
qed simp

section \<open>Who sent what\<close>

text \<open>
  The message a sending operation stands for: its bytes, its sender, and, with a capability, that
  the transfer was valid for that sender when it was sent.
\<close>

fun sent :: "ipc_op \<Rightarrow> received \<Rightarrow> bool" where
  "sent (Ipc_Send c bytes sz claimed s caps) r \<longleftrightarrow>
     rcv_bytes r = take (unat sz) bytes \<and> rcv_size r = sz \<and> 0 < sz \<and> sz \<le> 64 \<and> rcv_has_capability r = 0 \<and>
     (ipc_current_tid s \<noteq> 0 \<longrightarrow> rcv_sender_tid r = ipc_current_tid s)"
| "sent (Ipc_Send_Cap c bytes sz claimed ci cr s caps) r \<longleftrightarrow>
     rcv_bytes r = take (unat sz) bytes \<and> rcv_size r = sz \<and> 0 < sz \<and> sz \<le> 64 \<and>
     rcv_has_capability r = 1 \<and> rcv_capability_id r = ci \<and> rcv_capability_rights r = cr \<and>
     (ipc_current_tid s \<noteq> 0 \<longrightarrow> rcv_sender_tid r = ipc_current_tid s) \<and>
     capability_validate_transfer ci (rcv_sender_tid r) cr caps = 0"
| "sent _ _ \<longleftrightarrow> False"

lemma spec_sender_current: "spec_sender current claimed = Some t \<Longrightarrow> current \<noteq> 0 \<Longrightarrow> t = current"
  by (auto simp: spec_sender_def split: if_splits)

lemma spec_send_cases:
  assumes "spec_send c bytes sz claimed grant current caps a = (v, b)"
  obtains "b = a" | i sender r where "spec_sender current claimed = Some sender" "0 < sz" "sz \<le> 64"
      "sp_queues b = (sp_queues a)(i := sp_queues a i @ [r])" "rcv_bytes r = take (unat sz) bytes" "rcv_size r = sz" "rcv_sender_tid r = sender"
      "case grant of None \<Rightarrow> rcv_has_capability r = 0
         | Some (cap, rights) \<Rightarrow> rcv_has_capability r = 1 \<and> rcv_capability_id r = cap \<and> rcv_capability_rights r = rights \<and>
             capability_validate_transfer cap sender rights caps = 0"
proof (cases "b = a")
  case False
  let ?bad = "\<lambda>sender. case grant of None \<Rightarrow> False | Some (cap, rights) \<Rightarrow> capability_validate_transfer cap sender rights caps \<noteq> 0"
  have sz: "\<not> (sz = 0 \<or> 64 < sz)" using assms False by (auto simp: spec_send_def)
  then have r1: "(case spec_sender current claimed of None \<Rightarrow> (- 1, a) | Some sender \<Rightarrow>
      if ?bad sender then (- 4, a) else case spec_channel c a of None \<Rightarrow> (- 2, a) | Some i \<Rightarrow>
        if 32 \<le> length (sp_queues a i) then (- 3, a)
        else (0, a\<lparr>sp_queues := (sp_queues a)(i := sp_queues a i @
             [\<lparr>rcv_size = sz, rcv_sender_tid = sender, rcv_has_capability = (if grant = None then 0 else 1),
               rcv_capability_id = (case grant of None \<Rightarrow> 0 | Some (cap, _) \<Rightarrow> cap),
               rcv_capability_rights = (case grant of None \<Rightarrow> 0 | Some (_, rights) \<Rightarrow> rights),
               rcv_bytes = take (unat sz) bytes\<rparr>])\<rparr>)) = (v, b)" (is "(case _ of None \<Rightarrow> _ | Some x \<Rightarrow> ?F x) = _")
    using assms unfolding spec_send_def by (simp only: if_False)
  then obtain sender where sd: "spec_sender current claimed = Some sender" "?F sender = (v, b)"
    using False by (cases "spec_sender current claimed") simp_all
  have nb: "\<not> ?bad sender" using sd(2) False by (metis Pair_inject)
  obtain i where i: "spec_channel c a = Some i"
    using sd(2) [unfolded if_not_P [OF nb]] False by (cases "spec_channel c a") simp_all
  have "\<not> 32 \<le> length (sp_queues a i)" using sd(2) [unfolded if_not_P [OF nb] i option.case] False by auto
  note b = sd(2) [unfolded if_not_P [OF nb] i option.case if_not_P [OF this], unfolded prod.inject, THEN conjunct2, symmetric]
  show ?thesis
  proof (rule that(2) [OF sd(1)])
    show "sp_queues b = (sp_queues a)(i := sp_queues a i @
        [\<lparr>rcv_size = sz, rcv_sender_tid = sender, rcv_has_capability = (if grant = None then 0 else 1),
          rcv_capability_id = (case grant of None \<Rightarrow> 0 | Some (cap, _) \<Rightarrow> cap),
          rcv_capability_rights = (case grant of None \<Rightarrow> 0 | Some (_, rights) \<Rightarrow> rights),
          rcv_bytes = take (unat sz) bytes\<rparr>])" unfolding b by simp
  qed (use sz nb in \<open>auto simp: word_neq_0_conv split: option.splits prod.splits\<close>)
qed (rule that(1))

lemma spec_recv_cases:
  assumes "spec_recv c capacity a = (v, res, b)"
  obtains "res = None" "b = a" | i r rs where "res = Some r" "sp_queues a i = r # rs" "sp_queues b = (sp_queues a)(i := rs)"
proof (cases "spec_channel c a")
  case None
  then show ?thesis using assms that(1) by (simp add: spec_recv_def)
next
  case (Some i)
  show ?thesis
  proof (cases "sp_queues a i")
    case Nil
    then show ?thesis using assms that(1) Some by (simp add: spec_recv_def)
  next
    case (Cons r rs)
    show ?thesis
    proof (cases "capacity < rcv_size r")
      case True
      then show ?thesis using assms that(1) Some Cons by (simp add: spec_recv_def)
    next
      case False
      then have b: "res = Some r" "b = a\<lparr>sp_queues := (sp_queues a)(i := rs)\<rparr>" using assms Some Cons by (simp_all add: spec_recv_def)
      show ?thesis by (rule that(2) [OF b(1) Cons]) (simp add: b(2))
    qed
  qed
qed

lemma spec_send_sent:
  assumes e: "spec_send c bytes sz claimed grant current caps a = (v, b)" and q: "\<And>i r. r \<in> set (sp_queues a i) \<Longrightarrow> \<exists>op\<in>A. sent op r"
    and new: "\<And>sender r. spec_sender current claimed = Some sender \<Longrightarrow> 0 < sz \<Longrightarrow> sz \<le> 64 \<Longrightarrow> rcv_bytes r = take (unat sz) bytes \<Longrightarrow>
      rcv_size r = sz \<Longrightarrow> rcv_sender_tid r = sender \<Longrightarrow>
      (case grant of None \<Rightarrow> rcv_has_capability r = 0
         | Some (cap, rights) \<Rightarrow> rcv_has_capability r = 1 \<and> rcv_capability_id r = cap \<and> rcv_capability_rights r = rights \<and>
             capability_validate_transfer cap sender rights caps = 0) \<Longrightarrow> sent op r"
    and r: "r \<in> set (sp_queues b i)"
  shows "\<exists>op\<in>insert op A. sent op r"
  using e
proof (rule spec_send_cases)
  assume "b = a"
  then show ?thesis using q r by blast
next
  fix j sender r'
  assume c: "spec_sender current claimed = Some sender" "0 < sz" "sz \<le> 64" "rcv_bytes r' = take (unat sz) bytes"
      "rcv_size r' = sz" "rcv_sender_tid r' = sender" "case grant of None \<Rightarrow> rcv_has_capability r' = 0
         | Some (cap, rights) \<Rightarrow> rcv_has_capability r' = 1 \<and> rcv_capability_id r' = cap \<and> rcv_capability_rights r' = rights \<and>
             capability_validate_transfer cap sender rights caps = 0"
    and b: "sp_queues b = (sp_queues a)(j := sp_queues a j @ [r'])"
  have "r \<in> set (sp_queues a i) \<or> r = r'" using r unfolding b by (cases "i = j") auto
  then show ?thesis using q new [OF c] by blast
qed

lemma spec_exec_sent:
  assumes e: "spec_exec op a = (v, res, b)" and q: "\<And>i r. r \<in> set (sp_queues a i) \<Longrightarrow> \<exists>op\<in>A. sent op r"
  shows "r \<in> set (sp_queues b i) \<Longrightarrow> \<exists>op\<in>insert op A. sent op r" "res = Some r \<Longrightarrow> \<exists>op\<in>A. sent op r"
proof -
  have "(r \<in> set (sp_queues b i) \<longrightarrow> (\<exists>op\<in>insert op A. sent op r)) \<and> (res = Some r \<longrightarrow> (\<exists>op\<in>A. sent op r))"
  proof (cases op)
    case (Ipc_Create nm)
    then show ?thesis using e q by (auto simp: spec_create_def split: if_splits option.splits)
  next
    case (Ipc_Send c bytes sz claimed s caps)
    then obtain w where w: "spec_send c bytes sz claimed None (ipc_current_tid s) caps a = (w, b)" "res = None"
      using e by (auto split: prod.splits)
    have "\<exists>op\<in>insert op A. sent op r" if "r \<in> set (sp_queues b i)"
      by (rule spec_send_sent [OF w(1) q _ that]) (use spec_sender_current in \<open>simp_all add: Ipc_Send\<close>)
    then show ?thesis using w(2) by simp
  next
    case (Ipc_Send_Cap c bytes sz claimed ci cr s caps)
    show ?thesis
    proof (cases "ci = 0 \<or> cr = 0")
      case True
      then show ?thesis using e q Ipc_Send_Cap by simp
    next
      case False
      then obtain w where w: "spec_send c bytes sz claimed (Some (ci, cr)) (ipc_current_tid s) caps a = (w, b)" "res = None"
        using e Ipc_Send_Cap by (auto split: prod.splits)
      have "\<exists>op\<in>insert op A. sent op r" if "r \<in> set (sp_queues b i)"
        by (rule spec_send_sent [OF w(1) q _ that]) (use spec_sender_current in \<open>simp_all add: Ipc_Send_Cap\<close>)
      then show ?thesis using w(2) by simp
    qed
  next
    case (Ipc_Recv c capacity)
    then have "spec_recv c capacity a = (v, res, b)" using e by simp
    then show ?thesis
    proof (rule spec_recv_cases)
      fix j x rs
      assume x: "res = Some x" "sp_queues a j = x # rs" "sp_queues b = (sp_queues a)(j := rs)"
      have "r \<in> set (sp_queues a i)" if "r \<in> set (sp_queues b i)" using that x(2,3) by (cases "i = j") auto
      moreover have "x \<in> set (sp_queues a j)" using x(2) by simp
      ultimately show ?thesis using q x(1) by blast
    qed (use q in blast)
  qed
  then show "r \<in> set (sp_queues b i) \<Longrightarrow> \<exists>op\<in>insert op A. sent op r" "res = Some r \<Longrightarrow> \<exists>op\<in>A. sent op r" by blast+
qed

lemma outputs_length [simp]: "length (outputs f ops s) = length ops"
  by (induction ops arbitrary: s) (auto split: prod.splits)

lemma outputs_sent:
  assumes "\<And>i r. r \<in> set (sp_queues a i) \<Longrightarrow> \<exists>op\<in>A. sent op r" "k < length ops" "outputs spec_exec ops a ! k = (v, Some r)"
  shows "\<exists>op\<in>A \<union> set (take k ops). sent op r"
  using assms
proof (induction ops arbitrary: a A k)
  case (Cons op ops)
  obtain w res b where e: "spec_exec op a = (w, res, b)" by (cases "spec_exec op a")
  note st = spec_exec_sent [OF e Cons.prems(1)]
  show ?case
  proof (cases k)
    case 0
    then show ?thesis using Cons.prems(3) e st(2) by simp
  next
    case (Suc k')
    then have "\<exists>op\<in>insert op A \<union> set (take k' ops). sent op r"
      using Cons.IH [where k = k', OF st(1)] Cons.prems(2,3) e by simp
    then show ?thesis unfolding Suc by auto
  qed
qed simp

section \<open>Properties\<close>

abbreviation ipc_typed :: "ipc \<Rightarrow> bool" where
  "ipc_typed g \<equiv> length (g_ipc_channels g) = 16 \<and> (\<forall>ch\<in>set (g_ipc_channels g). channel_typed ch)"

text \<open>
  C4. Message channels implement the abstract message service.  After initialisation, any sequence
  of creations, sends (with and without a capability) and receives, by any tasks, returns exactly
  the statuses and the messages of the service whose channels are plain lists of messages: messages
  come out of a channel in the order they went in, byte for byte, a full channel refuses with -3, an
  empty one with -3, a short buffer with -4 leaves the message in place, and channels do not
  interfere.
\<close>

theorem ipc_refines_service:
  assumes "ipc_typed g" "\<forall>op\<in>set ops. well_called op"
  shows "outputs ipc_exec ops (ipc_init g) = outputs spec_exec ops \<lparr>sp_names = (\<lambda>_. None), sp_queues = (\<lambda>_. [])\<rparr>"
  using outputs_refine [OF ipc_init_ok(1) assms(2)] ipc_init_ok(2) assms(1) by metis

definition message_demo :: ipc_message_t where
  "message_demo = \<lparr>msg_sender_tid = 0, msg_size = 0, msg_has_capability = 0, msg_capability_id = 0, msg_capability_rights = 0,
     msg_data = replicate 64 0\<rparr>"

definition ipc_demo :: ipc where
  "ipc_demo = \<lparr>g_ipc_channels = replicate 16 \<lparr>ch_in_use = 0, ch_name = replicate 32 NUL, ch_head = 0, ch_tail = 0, ch_count = 0,
       ch_queue = replicate 32 message_demo, ch_rendezvous_pending = 0, ch_rendezvous_generation = 0,
       ch_rendezvous_message = message_demo\<rparr>,
     g_ipc_channel_count = 0\<rparr>"

definition task_demo :: "u64 \<Rightarrow> sched" where
  "task_demo t = sched_bss\<lparr>g_current_task := Some (TaskSlot 0), g_tasks := [zero_task\<lparr>tid := t\<rparr>]\<rparr>"

definition ipc_demo_ops :: "ipc_op list" where
  "ipc_demo_ops = [Ipc_Create ''log'', Ipc_Send 0 [1, 2, 3] 3 0 (task_demo 7) cap_demo, Ipc_Send 0 [4] 1 9 (task_demo 7) cap_demo,
     Ipc_Send 0 [5] 1 0 (task_demo 8) cap_demo, Ipc_Recv 0 2, Ipc_Recv 0 64, Ipc_Recv 0 64, Ipc_Recv 0 64]"

lemma ipc_demo_called: "ipc_typed ipc_demo" "\<forall>op\<in>set ipc_demo_ops. well_called op"
  by (simp_all add: ipc_demo_def message_demo_def channel_typed_def ipc_demo_ops_def cstring_def)

theorem ipc_refines_service_witness:
  "map fst (outputs ipc_exec ipc_demo_ops (ipc_init ipc_demo)) = [0, 0, - 1, 0, - 4, 0, 0, - 3] \<and>
   outputs ipc_exec ipc_demo_ops (ipc_init ipc_demo) = outputs spec_exec ipc_demo_ops \<lparr>sp_names = (\<lambda>_. None), sp_queues = (\<lambda>_. [])\<rparr>"
  using ipc_refines_service [OF ipc_demo_called] by (simp add: conj_ac) code_simp

text \<open>
  C9. Senders cannot be forged.  In any run after initialisation, the message a receive returns is
  one an earlier operation of the run sent: same bytes, same size, and the sender it names is the
  task that made the call, whatever sender that call claimed (only code running in no task can name
  another).  If it carries a capability, the transfer of that capability with those rights was valid
  for that sender when it was sent.
\<close>

theorem ipc_sender_authentic:
  assumes "ipc_typed g" "\<forall>op\<in>set ops. well_called op"
    and "k < length ops" "outputs ipc_exec ops (ipc_init g) ! k = (v, Some r)"
  shows "\<exists>j<k. sent (ops ! j) r"
proof -
  have e: "outputs ipc_exec ops (ipc_init g) = outputs spec_exec ops \<lparr>sp_names = (\<lambda>_. None), sp_queues = (\<lambda>_. [])\<rparr>"
    using outputs_refine [OF ipc_init_ok(1) assms(2)] ipc_init_ok(2) assms(1) by metis
  have "\<exists>op\<in>{} \<union> set (take k ops). sent op r"
    by (rule outputs_sent [OF _ assms(3) assms(4) [unfolded e]]) simp
  then obtain op where "op \<in> set (take k ops)" "sent op r" by blast
  moreover from this obtain j where "j < k" "ops ! j = op" using assms(3) by (auto simp: in_set_conv_nth)
  ultimately show ?thesis by blast
qed

theorem ipc_sender_authentic_witness:
  "\<exists>r. outputs ipc_exec ipc_demo_ops (ipc_init ipc_demo) ! 6 = (0, Some r) \<and> (\<exists>j<6. sent (ipc_demo_ops ! j) r)"
proof -
  have k: "6 < length ipc_demo_ops" by (simp add: ipc_demo_ops_def)
  have "outputs ipc_exec ipc_demo_ops (ipc_init ipc_demo) ! 6 = (0, Some \<lparr>rcv_size = 1, rcv_sender_tid = 8, rcv_has_capability = 0,
      rcv_capability_id = 0, rcv_capability_rights = 0, rcv_bytes = [5]\<rparr>)" by code_simp
  then show ?thesis using ipc_sender_authentic [OF ipc_demo_called k] by blast
qed

lemma create_found:
  assumes "ipc_channel_create (Some nm) g = (r, t)" "0 \<le> r" "ipc_channel_find (Some nm) u = r"
  shows "ipc_channel_create (Some nm) u = (r, u)"
  using assms by (auto simp: ipc_channel_create_def ipc_channel_find_def Let_def split: if_splits)

text \<open>
  C23. Names are stable.  Once a creation returned an identifier for a name, then after any further
  creations looking the name up gives that identifier, and creating it again returns it and changes
  nothing.
\<close>

theorem ipc_name_stable:
  assumes "ipc_ok g" "cstring nm" "ipc_channel_create (Some nm) g = (r, t)" "0 \<le> r" "\<forall>x\<in>set xs. cstring x"
    and u: "u = fold (\<lambda>x s. snd (ipc_channel_create (Some x) s)) xs t"
  shows "ipc_channel_find (Some nm) u = r \<and> ipc_channel_create (Some nm) u = (r, u)"
  using ipc_reg.find_after_add [OF assms(1-5)] create_found [OF assms(3,4)] u by simp

theorem ipc_name_stable_witness:
  "let u = fold (\<lambda>x s. snd (ipc_channel_create (Some x) s)) [''net'', ''disk'']
     (snd (ipc_channel_create (Some ''log'') (ipc_init ipc_demo)))
   in ipc_channel_find (Some ''log'') u = 0 \<and> ipc_channel_create (Some ''log'') u = (0, u)"
proof -
  have ok: "ipc_ok (ipc_init ipc_demo)" using ipc_demo_called(1) by (intro ipc_init_ok) simp_all
  have "fst (ipc_channel_create (Some ''log'') (ipc_init ipc_demo)) = 0" by code_simp
  then have c: "ipc_channel_create (Some ''log'') (ipc_init ipc_demo) = (0, snd (ipc_channel_create (Some ''log'') (ipc_init ipc_demo)))"
    by (metis prod.collapse)
  show ?thesis unfolding Let_def by (rule ipc_name_stable [OF ok _ c _ _ refl]) (simp_all add: cstring_def)
qed

section \<open>Capabilities in messages\<close>

lemma justified_insert_copy: "justified (insert (Cap_Copy c own msk target) A) sl = justified A sl"
  by (simp add: justified_def)

lemma recv_capability_cases:
  assumes "ipc_channel_recv_capability c has_out True capacity s (caps, g) = (v, res, cid, cr, caps', g')"
  obtains "cid = 0" "caps' = caps"
  | r :: received and out where "v = 0" "res = Some r" "rcv_has_capability r \<noteq> 0" "cr = rcv_capability_rights r" "cid = (case out of None \<Rightarrow> 0 | Some d \<Rightarrow> d)"
      "capability_copy_for_owner (rcv_capability_id r) (rcv_sender_tid r) (rcv_capability_rights r) (ipc_current_tid s) True caps = (0, out, caps')"
  | w and r :: received and out where "cid = 0" "w \<noteq> 0"
      "capability_copy_for_owner (rcv_capability_id r) (rcv_sender_tid r) (rcv_capability_rights r) (ipc_current_tid s) True caps = (w, out, caps')"
proof -
  obtain st m g1 where m: "ipc_channel_recv_internal c has_out capacity g = (st, m, g1)"
    by (cases "ipc_channel_recv_internal c has_out capacity g")
  show ?thesis
  proof (cases m)
    case None
    then show ?thesis using assms m that(1) by (simp add: ipc_channel_recv_capability_def)
  next
    case (Some r)
    obtain w out caps1 where w: "capability_copy_for_owner (rcv_capability_id r) (rcv_sender_tid r) (rcv_capability_rights r)
        (ipc_current_tid s) True caps = (w, out, caps1)" by (metis prod_cases3)
    note a = assms [unfolded ipc_channel_recv_capability_def Let_def, simplified, unfolded m Some, simplified, unfolded w, simplified]
    show ?thesis
    proof (cases "rcv_has_capability r = 0")
      case True
      then show ?thesis using a that(1) by simp
    next
      case hc: False
      show ?thesis
      proof (cases "w = 0")
        case True
        then show ?thesis using a hc w that(2) [of r out] by simp
      next
        case False
        then show ?thesis using a hc w that(3) [of w r out] by simp
      qed
    qed
  qed
qed

text \<open>
  C7. A capability received in a message is no more than the sender held.  Receiving with
  \<^verbatim>\<open>ipc_channel_recv_capability\<close> keeps the capability table well formed and every capability in it
  backed by the same creations as before.  When it hands out an identifier, the call succeeded, and
  the identifier describes a new capability of the receiving task, on the object of the capability
  named in the message, which the sender named in the message owns and may transfer, with exactly
  the rights named in the message, a part of that capability's own.  In all other cases the table is
  left as it was.
\<close>

theorem ipc_capability_delivery:
  assumes wf: "cap_wf caps" and A: "\<And>i. cap_used caps i \<Longrightarrow> justified A (g_capability_slots caps ! i)"
    and e: "ipc_channel_recv_capability c has_out True capacity s (caps, g) = (v, res, cid, cr, caps', g')"
  shows "cap_wf caps' \<and> (\<forall>i. cap_used caps' i \<longrightarrow> justified A (g_capability_slots caps' ! i)) \<and>
    (if cid = 0 then caps' = caps
     else v = 0 \<and> (\<exists>(r :: received) src. res = Some r \<and> rcv_has_capability r \<noteq> 0 \<and> cr = rcv_capability_rights r \<and>
       capability_validate_transfer (rcv_capability_id r) (rcv_sender_tid r) cr caps = 0 \<and>
       capability_describe (rcv_capability_id r) True caps = (0, Some src) \<and>
       fst (capability_describe cid True caps) = - 2 \<and>
       capability_describe cid True caps' = (0, Some \<lparr>info_id = cid, info_owner_tid = ipc_current_tid s,
         info_object_id = info_object_id src, info_rights = cr\<rparr>)))"
  using e
proof (rule recv_capability_cases)
  assume "cid = 0" "caps' = caps"
  then show ?thesis using wf A by simp
next
  fix r :: received and out
  let ?copy = "Cap_Copy (rcv_capability_id r) (rcv_sender_tid r) (rcv_capability_rights r) (ipc_current_tid s)"
  assume v: "v = 0" "res = Some r" "rcv_has_capability r \<noteq> 0" "cr = rcv_capability_rights r" "cid = (case out of None \<Rightarrow> 0 | Some d \<Rightarrow> d)"
    and w: "capability_copy_for_owner (rcv_capability_id r) (rcv_sender_tid r) (rcv_capability_rights r) (ipc_current_tid s) True caps = (0, out, caps')"
  have st: "cap_step ?copy caps = caps'" using w by simp
  have j: "cap_wf caps'" "\<forall>i. cap_used caps' i \<longrightarrow> justified A (g_capability_slots caps' ! i)"
    using cap_step_ok [OF wf A, where p = ?copy, unfolded st justified_insert_copy] by simp_all
  note sp = copy_for_owner_spec [OF wf w]
  show ?thesis
  proof (cases "cid = 0")
    case True
    have "out = None \<or> out = Some 0" using True v(5) by (cases out) auto
    then have "out = None" using sp by (auto simp: capability_describe_def capability_is_valid_id_def split: if_splits)
    then show ?thesis using j True sp by (auto split: if_splits)
  next
    case False
    then have "out = Some cid" using v(5) by (cases out) simp_all
    then show ?thesis using sp j v False by (auto split: if_splits)
  qed
next
  fix w and r :: received and out
  assume "cid = 0" "w \<noteq> 0"
    and c: "capability_copy_for_owner (rcv_capability_id r) (rcv_sender_tid r) (rcv_capability_rights r) (ipc_current_tid s) True caps = (w, out, caps')"
  then have "caps' = caps" using copy_for_owner_spec [OF wf c] by (auto split: if_splits)
  then show ?thesis using wf A \<open>cid = 0\<close> by simp
qed

definition caps_demo :: capability where
  "caps_demo = fold cap_step cap_demo_ops (capability_init cap_demo)"

definition ipc_cap_demo :: ipc where
  "ipc_cap_demo = snd (ipc_channel_send_capability 0 (Some [1]) 1 0 1 3 (task_demo 7) caps_demo
     (snd (ipc_channel_create (Some ''log'') (ipc_init ipc_demo))))"

lemma caps_demo_ok:
  "cap_wf caps_demo" "\<And>i. cap_used caps_demo i \<Longrightarrow> justified (set cap_demo_ops) (g_capability_slots caps_demo ! i)"
proof -
  have l: "length (g_capability_slots cap_demo) = 128" by (simp add: cap_demo_def)
  show "cap_wf caps_demo" "\<And>i. cap_used caps_demo i \<Longrightarrow> justified (set cap_demo_ops) (g_capability_slots caps_demo ! i)"
    using cap_run_ok [OF cap_wf_init [OF l] init_unused [OF l], where A = "{}" and ops = cap_demo_ops]
    unfolding caps_demo_def by simp_all
qed

theorem ipc_capability_delivery_witness:
  "\<exists>r caps' g'. ipc_channel_recv_capability 0 True True 64 (task_demo 10) (caps_demo, ipc_cap_demo) = (0, Some r, 3, 3, caps', g') \<and>
     cap_wf caps' \<and> capability_describe 3 True caps' = (0, Some \<lparr>info_id = 3, info_owner_tid = 10, info_object_id = 99, info_rights = 3\<rparr>)"
proof -
  let ?x = "ipc_channel_recv_capability 0 True True 64 (task_demo 10) (caps_demo, ipc_cap_demo)"
  obtain v res cid cr caps' g' where x: "?x = (v, res, cid, cr, caps', g')" by (metis prod_cases6)
  have "fst ?x = 0 \<and> fst (snd (snd ?x)) = 3 \<and> fst (snd (snd (snd ?x))) = 3" "ipc_current_tid (task_demo 10) = 10"
    "map_option rcv_capability_id (fst (snd ?x)) = Some 1" "capability_describe 1 True caps_demo = (0, Some \<lparr>info_id = 1, info_owner_tid = 7, info_object_id = 99, info_rights = 11\<rparr>)"
    by code_simp+
  then show ?thesis using ipc_capability_delivery [OF caps_demo_ok x] unfolding x by auto
qed

end
