(* ===== verification/Ipc_Rendezvous.thy ===== *)
theory Ipc_Rendezvous
  imports Ipc_Props
begin

text \<open>
  The rendezvous of kernel/ipc/ipc.c under interleaving.  Any number of tasks call
  \<^verbatim>\<open>ipc_channel_rendezvous_send\<close> and \<^verbatim>\<open>ipc_channel_rendezvous_recv\<close> on one channel, a round of a loop at a
  time, among all other operations on the channels.  Two fields are not in the code and influence
  nothing: who posted the message in the slot, and which receiver took whose message.
\<close>

section \<open>Steps\<close>

datatype role = Sender "u8 list" u16 u64 | Receiver u16

datatype rv_pc = Start | Waiting u64 | Sent | Holds "u16 \<times> u64 \<times> u8 list"

record rv =
  rv_ipc :: ipc
  rv_at :: "nat \<Rightarrow> rv_pc"
  rv_owner :: "nat option"
  rv_log :: "(nat \<times> nat) list"

text \<open>Rounds that end in a retry change nothing.\<close>

inductive rv_step :: "int \<Rightarrow> (nat \<Rightarrow> role) \<Rightarrow> rv \<Rightarrow> rv \<Rightarrow> bool" for c :: int and prog :: "nat \<Rightarrow> role" where
  post: "prog i = Sender bytes sz t \<Longrightarrow> rv_at s i = Start \<Longrightarrow> rendezvous_post c bytes sz t (rv_ipc s) = (Go base, g) \<Longrightarrow>
    rv_step c prog s (s\<lparr>rv_ipc := g, rv_at := (rv_at s)(i := Waiting base), rv_owner := Some i\<rparr>)"
| return: "rv_at s i = Waiting base \<Longrightarrow> rendezvous_await c base (rv_ipc s) = Go () \<Longrightarrow>
    rv_step c prog s (s\<lparr>rv_at := (rv_at s)(i := Sent)\<rparr>)"
| receive: "prog j = Receiver capacity \<Longrightarrow> rv_at s j = Start \<Longrightarrow> rendezvous_take c True capacity (rv_ipc s) = (Go m, g) \<Longrightarrow>
    rv_step c prog s (s\<lparr>rv_ipc := g, rv_at := (rv_at s)(j := Holds m), rv_owner := None, rv_log := (the (rv_owner s), j) # rv_log s\<rparr>)"
| queue: "well_called op \<Longrightarrow> rv_step c prog s (s\<lparr>rv_ipc := snd (snd (ipc_exec op (rv_ipc s)))\<rparr>)"
| post_elsewhere: "channel_index d \<noteq> channel_index c \<Longrightarrow> unat sz \<le> length bytes \<Longrightarrow> sz \<le> 64 \<Longrightarrow>
    rv_step c prog s (s\<lparr>rv_ipc := snd (rendezvous_post d bytes sz t (rv_ipc s))\<rparr>)"
| receive_elsewhere: "channel_index d \<noteq> channel_index c \<Longrightarrow>
    rv_step c prog s (s\<lparr>rv_ipc := snd (rendezvous_take d True capacity (rv_ipc s))\<rparr>)"

definition rv_start :: "ipc \<Rightarrow> rv" where
  "rv_start g = \<lparr>rv_ipc = g, rv_at = (\<lambda>_. Start), rv_owner = None, rv_log = []\<rparr>"

text \<open>The senders pass the checks at the head of \<^verbatim>\<open>ipc_channel_rendezvous_send\<close>.\<close>

definition entered :: "role \<Rightarrow> bool" where
  "entered r \<longleftrightarrow> (case r of Sender bytes sz t \<Rightarrow> sz \<le> 64 \<and> unat sz \<le> length bytes | Receiver _ \<Rightarrow> True)"

section \<open>What the steps do to the slot\<close>

abbreviation slot :: "int \<Rightarrow> ipc \<Rightarrow> ipc_channel_t" where
  "slot c g \<equiv> g_ipc_channels g ! channel_index c"

definition same_slot :: "int \<Rightarrow> ipc \<Rightarrow> ipc \<Rightarrow> bool" where
  "same_slot c g g' \<longleftrightarrow> ch_in_use (slot c g') = ch_in_use (slot c g) \<and>
     ch_rendezvous_pending (slot c g') = ch_rendezvous_pending (slot c g) \<and>
     ch_rendezvous_generation (slot c g') = ch_rendezvous_generation (slot c g) \<and>
     ch_rendezvous_message (slot c g') = ch_rendezvous_message (slot c g)"

lemma same_slot_valid: "same_slot c g g' \<Longrightarrow> ipc_is_valid_channel_id c g' = ipc_is_valid_channel_id c g"
  by (simp add: same_slot_def ipc_is_valid_channel_id_def)

lemma same_slot_refl: "same_slot c g g"
  by (simp add: same_slot_def)

lemma same_slot_upd:
  assumes "i = channel_index c \<Longrightarrow> ch_in_use (f (slot c g)) = ch_in_use (slot c g) \<and>
     ch_rendezvous_pending (f (slot c g)) = ch_rendezvous_pending (slot c g) \<and>
     ch_rendezvous_generation (f (slot c g)) = ch_rendezvous_generation (slot c g) \<and>
     ch_rendezvous_message (f (slot c g)) = ch_rendezvous_message (slot c g)"
  shows "same_slot c g (upd_channel i f g)"
proof (cases "i = channel_index c \<and> i < length (g_ipc_channels g)")
  case True
  then show ?thesis using assms by (simp add: same_slot_def)
next
  case False
  then have "g_ipc_channels (upd_channel i f g) ! channel_index c = slot c g"
    by (cases "i = channel_index c") (simp_all add: list_update_beyond)
  then show ?thesis by (simp add: same_slot_def)
qed

lemma queue_keeps_slot:
  assumes ok: "ipc_ok g" and v: "ipc_is_valid_channel_id c g"
  shows "same_slot c g (snd (snd (ipc_exec op g)))"
proof (cases op)
  case (Ipc_Create nm)
  have "same_slot c g (snd (ipc_channel_create (Some nm) g))"
  proof (cases "snd (ipc_channel_create (Some nm) g) = g")
    case False
    then obtain i where i: "first_index (\<lambda>ch. ch_in_use ch = 0) (g_ipc_channels g) = Some i"
        "g_ipc_channels (snd (ipc_channel_create (Some nm) g)) = g_ipc_channels (upd_channel i (open_channel (Some nm)) g)"
      by (auto simp: ipc_channel_create_def Let_def split: if_splits option.splits)
    have "i \<noteq> channel_index c" using first_index_SomeD [OF i(1)] v by (auto simp: ipc_is_valid_channel_id_def)
    then have "same_slot c g (upd_channel i (open_channel (Some nm)) g)" by (intro same_slot_upd) simp
    then show ?thesis using i(2) by (simp add: same_slot_def)
  qed (simp add: same_slot_refl)
  then show ?thesis using Ipc_Create by (simp add: split_beta)
next
  case (Ipc_Send d bytes sz claimed s caps)
  have "same_slot c g (snd (ipc_channel_send_internal d p sz cl hc ci cr s caps g))" for p cl hc ci cr
    by (auto simp: ipc_channel_send_internal_def Let_def channel_enqueue_def split: option.splits intro!: same_slot_refl same_slot_upd)
  then show ?thesis using Ipc_Send by (simp add: ipc_channel_send_def split_beta)
next
  case (Ipc_Send_Cap d bytes sz claimed ci cr s caps)
  have "same_slot c g (snd (ipc_channel_send_internal d p sz cl hc ci cr s caps g))" for p cl hc
    by (auto simp: ipc_channel_send_internal_def Let_def channel_enqueue_def split: option.splits intro!: same_slot_refl same_slot_upd)
  then show ?thesis using Ipc_Send_Cap by (simp add: ipc_channel_send_capability_def split_beta same_slot_refl)
next
  case (Ipc_Recv d capacity)
  then show ?thesis
    by (auto simp: ipc_channel_recv_internal_def Let_def channel_dequeue_def intro!: same_slot_refl same_slot_upd)
qed

lemma queue_keeps_ok: "ipc_ok g \<Longrightarrow> well_called op \<Longrightarrow> ipc_ok (snd (snd (ipc_exec op g)))"
  using exec_refines [of g op] by (metis prod.collapse)

abbreviation posted :: "u8 list \<Rightarrow> u16 \<Rightarrow> u64 \<Rightarrow> ipc_channel_t \<Rightarrow> ipc_channel_t" where
  "posted bytes sz t \<equiv> \<lambda>ch. ch\<lparr>ch_rendezvous_message := fill_message t sz 0 0 0 bytes (ch_rendezvous_message ch), ch_rendezvous_pending := 1\<rparr>"

lemma posted_ok:
  assumes "channel_ok ch" "sz \<le> 64" "unat sz \<le> length bytes"
  shows "channel_ok (posted bytes sz t ch)" "chan_queue (posted bytes sz t ch) = chan_queue ch"
    "plain (read_message (ch_rendezvous_message (posted bytes sz t ch))) = (sz, t, take (unat sz) bytes)"
proof -
  have "length (msg_data (ch_rendezvous_message ch)) = 64" using assms(1) by (simp add: channel_ok_def channel_typed_def)
  note rf = read_fill [OF this assms(2,3), of t 0 0 0]
  have "msg_size (fill_message t sz 0 0 0 bytes m) = sz" for m by (simp add: fill_message_def)
  then show "channel_ok (posted bytes sz t ch)" "chan_queue (posted bytes sz t ch) = chan_queue ch"
    "plain (read_message (ch_rendezvous_message (posted bytes sz t ch))) = (sz, t, take (unat sz) bytes)"
    using assms(1,2) rf by (simp_all add: channel_ok_def channel_typed_def chan_queue_def plain_def)
qed

lemma post_effect:
  assumes ok: "ipc_ok g" and sz: "sz \<le> 64" "unat sz \<le> length bytes" and r: "rendezvous_post c bytes sz t g = (Go base, g')"
  shows "ipc_is_valid_channel_id c g" "ch_rendezvous_pending (slot c g) = 0" "base = ch_rendezvous_generation (slot c g)"
    "ipc_ok g'" "ipc_is_valid_channel_id c g'" "ch_rendezvous_pending (slot c g') \<noteq> 0"
    "ch_rendezvous_generation (slot c g') = base" "plain (read_message (ch_rendezvous_message (slot c g'))) = (sz, t, take (unat sz) bytes)"
proof -
  have v: "ipc_is_valid_channel_id c g" and p: "ch_rendezvous_pending (slot c g) = 0" and b: "base = ch_rendezvous_generation (slot c g)"
    and g': "g' = upd_channel (channel_index c) (posted bytes sz t) g"
    using r by (auto simp: rendezvous_post_def Let_def split: if_splits)
  have i: "channel_index c < 16" using v valid_id_bound by blast
  note o = posted_ok [OF ipc_okD(2) [OF ok i] sz, of t]
  have s: "slot c g' = posted bytes sz t (slot c g)" unfolding g' using i ipc_okD(1) [OF ok] by simp
  show "ipc_is_valid_channel_id c g" "ch_rendezvous_pending (slot c g) = 0" "base = ch_rendezvous_generation (slot c g)" by fact+
  show "ipc_ok g'" unfolding g' using upd_channel_ok(1) [OF ok i, of "posted bytes sz t"] o(1) by simp
  show "ipc_is_valid_channel_id c g'" using v s unfolding ipc_is_valid_channel_id_def by simp
  show "ch_rendezvous_pending (slot c g') \<noteq> 0" "ch_rendezvous_generation (slot c g') = base"
    "plain (read_message (ch_rendezvous_message (slot c g'))) = (sz, t, take (unat sz) bytes)"
    unfolding s using o(3) b by simp_all
qed

lemma take_effect:
  assumes ok: "ipc_ok g" and r: "rendezvous_take c True capacity g = (Go m, g')"
  shows "ch_rendezvous_pending (slot c g) \<noteq> 0" "m = plain (read_message (ch_rendezvous_message (slot c g)))"
    "ipc_ok g'" "ipc_is_valid_channel_id c g'" "ch_rendezvous_pending (slot c g') = 0"
proof -
  let ?f = "\<lambda>ch. ch\<lparr>ch_rendezvous_pending := 0, ch_rendezvous_generation := ch_rendezvous_generation ch + 1\<rparr>"
  have v: "ipc_is_valid_channel_id c g" and p: "ch_rendezvous_pending (slot c g) \<noteq> 0" and m: "m = plain (read_message (ch_rendezvous_message (slot c g)))"
    and g': "g' = upd_channel (channel_index c) ?f g"
    using r by (auto simp: rendezvous_take_def Let_def split: if_splits)
  have i: "channel_index c < 16" using v valid_id_bound by blast
  have o: "channel_ok (?f (slot c g))" using ipc_okD(2) [OF ok i] by (simp add: channel_ok_def channel_typed_def chan_queue_def)
  have s: "slot c g' = ?f (slot c g)" unfolding g' using i ipc_okD(1) [OF ok] by simp
  show "ch_rendezvous_pending (slot c g) \<noteq> 0" "m = plain (read_message (ch_rendezvous_message (slot c g)))" by fact+
  show "ipc_ok g'" unfolding g' using upd_channel_ok(1) [OF ok i, of ?f] o by simp
  show "ipc_is_valid_channel_id c g'" using v s unfolding ipc_is_valid_channel_id_def by simp
  show "ch_rendezvous_pending (slot c g') = 0" unfolding s by simp
qed

lemma elsewhere_keeps:
  assumes ok: "ipc_ok g" and d: "channel_index d \<noteq> channel_index c"
  shows "unat sz \<le> length bytes \<Longrightarrow> sz \<le> 64 \<Longrightarrow> ipc_ok (snd (rendezvous_post d bytes sz t g)) \<and> same_slot c g (snd (rendezvous_post d bytes sz t g))"
    "ipc_ok (snd (rendezvous_take d True capacity g)) \<and> same_slot c g (snd (rendezvous_take d True capacity g))"
proof -
  have f: "same_slot c g (upd_channel (channel_index d) f g)" for f using d by (intro same_slot_upd) simp
  show "ipc_ok (snd (rendezvous_post d bytes sz t g)) \<and> same_slot c g (snd (rendezvous_post d bytes sz t g))"
    if "unat sz \<le> length bytes" "sz \<le> 64"
  proof (cases "fst (rendezvous_post d bytes sz t g)")
    case (Go base)
    then have r: "rendezvous_post d bytes sz t g = (Go base, snd (rendezvous_post d bytes sz t g))" by (metis prod.collapse)
    show ?thesis using post_effect(4) [OF ok that(2,1) r] f r
      by (auto simp: rendezvous_post_def Let_def split: if_splits)
  qed (auto simp: rendezvous_post_def Let_def ok same_slot_refl split: if_splits)
  show "ipc_ok (snd (rendezvous_take d True capacity g)) \<and> same_slot c g (snd (rendezvous_take d True capacity g))"
  proof (cases "fst (rendezvous_take d True capacity g)")
    case (Go m)
    then have r: "rendezvous_take d True capacity g = (Go m, snd (rendezvous_take d True capacity g))" by (metis prod.collapse)
    show ?thesis using take_effect(3) [OF ok r] f r
      by (auto simp: rendezvous_take_def Let_def split: if_splits)
  qed (auto simp: rendezvous_take_def Let_def ok same_slot_refl split: if_splits)
qed

section \<open>The invariant\<close>

text \<open>The message task \<open>i\<close> sends, as its receiver sees it.\<close>

fun wire :: "role \<Rightarrow> (u16 \<times> u64 \<times> u8 list) option" where
  "wire (Sender bytes sz t) = Some (sz, t, take (unat sz) bytes)"
| "wire (Receiver _) = None"

definition slot_inv :: "int \<Rightarrow> (nat \<Rightarrow> role) \<Rightarrow> rv \<Rightarrow> bool" where
  "slot_inv c prog s \<longleftrightarrow> ipc_ok (rv_ipc s) \<and> ipc_is_valid_channel_id c (rv_ipc s) \<and>
     (rv_owner s = None \<longleftrightarrow> ch_rendezvous_pending (slot c (rv_ipc s)) = 0) \<and>
     (\<forall>i. rv_owner s = Some i \<longrightarrow> rv_at s i = Waiting (ch_rendezvous_generation (slot c (rv_ipc s))) \<and>
        wire (prog i) = Some (plain (read_message (ch_rendezvous_message (slot c (rv_ipc s))))) \<and> i \<notin> fst ` set (rv_log s))"

definition log_inv :: "(nat \<Rightarrow> role) \<Rightarrow> rv \<Rightarrow> bool" where
  "log_inv prog s \<longleftrightarrow> distinct (map fst (rv_log s)) \<and> distinct (map snd (rv_log s)) \<and>
     (\<forall>i b. rv_at s i = Waiting b \<longrightarrow> rv_owner s = Some i \<or> i \<in> fst ` set (rv_log s)) \<and>
     (\<forall>i. rv_at s i = Sent \<longrightarrow> i \<in> fst ` set (rv_log s)) \<and>
     (\<forall>j m. rv_at s j = Holds m \<longrightarrow> j \<in> snd ` set (rv_log s)) \<and>
     (\<forall>i j. (i, j) \<in> set (rv_log s) \<longrightarrow> rv_at s i \<noteq> Start \<and> (\<exists>m. wire (prog i) = Some m \<and> rv_at s j = Holds m))"

lemma log_invD: "log_inv prog s \<Longrightarrow> rv_at s j = Holds m \<Longrightarrow> j \<in> snd ` set (rv_log s)"
  unfolding log_inv_def by blast

lemma inv_same_slot:
  assumes "slot_inv c prog s" "log_inv prog s" "ipc_ok g" "same_slot c (rv_ipc s) g"
  shows "slot_inv c prog (s\<lparr>rv_ipc := g\<rparr>)" "log_inv prog (s\<lparr>rv_ipc := g\<rparr>)"
  using assms same_slot_valid [OF assms(4)] by (simp_all add: slot_inv_def log_inv_def same_slot_def)

lemma inv_post:
  assumes inv: "slot_inv c prog s" "log_inv prog s" and en: "entered (prog i)"
    and p: "prog i = Sender bytes sz t" "rv_at s i = Start" "rendezvous_post c bytes sz t (rv_ipc s) = (Go base, g)"
  defines "s' \<equiv> s\<lparr>rv_ipc := g, rv_at := (rv_at s)(i := Waiting base), rv_owner := Some i\<rparr>"
  shows "slot_inv c prog s'" "log_inv prog s'"
proof -
  have ok: "ipc_ok (rv_ipc s)" using inv(1) by (simp add: slot_inv_def)
  have sz: "sz \<le> 64" "unat sz \<le> length bytes" using en p(1) by (simp_all add: entered_def)
  note e = post_effect [OF ok sz p(3)]
  have free: "rv_owner s = None" using inv(1) e(2) by (simp add: slot_inv_def)
  have new: "i \<notin> fst ` set (rv_log s)" "i \<notin> snd ` set (rv_log s)" using inv(2) p(2) by (fastforce simp: log_inv_def)+
  show "slot_inv c prog s'" using e p(1) new(1) by (simp add: slot_inv_def s'_def)
  have a: "rv_at s' k = (if k = i then Waiting base else rv_at s k)" for k by (simp add: s'_def)
  have l: "rv_owner s' = Some i" "rv_log s' = rv_log s" by (simp_all add: s'_def)
  have "rv_at s' x \<noteq> Start \<and> (\<exists>m. wire (prog x) = Some m \<and> rv_at s' y = Holds m)" if xy: "(x, y) \<in> set (rv_log s)" for x y
  proof -
    have "x \<noteq> i" "y \<noteq> i" using xy new by force+
    then show ?thesis using inv(2) xy unfolding log_inv_def a by simp
  qed
  moreover have "x = i \<or> x \<in> fst ` set (rv_log s)" if "rv_at s' x = Waiting b" for x b
    using inv(2) that free unfolding log_inv_def a by (auto split: if_splits)
  moreover have "x \<in> fst ` set (rv_log s)" if "rv_at s' x = Sent" for x
    using inv(2) that unfolding log_inv_def a by (auto split: if_splits)
  moreover have "x \<in> snd ` set (rv_log s)" if "rv_at s' x = Holds n" for x n
    using inv(2) log_invD [of prog s x n] that a by (auto split: if_splits)
  moreover have "distinct (map fst (rv_log s))" "distinct (map snd (rv_log s))" using inv(2) by (simp_all add: log_inv_def)
  ultimately show "log_inv prog s'" unfolding log_inv_def l by blast
qed

lemma inv_return:
  assumes inv: "slot_inv c prog s" "log_inv prog s" and r: "rv_at s i = Waiting base" "rendezvous_await c base (rv_ipc s) = Go ()"
  defines "s' \<equiv> s\<lparr>rv_at := (rv_at s)(i := Sent)\<rparr>"
  shows "slot_inv c prog s'" "log_inv prog s'"
proof -
  have "ch_rendezvous_pending (slot c (rv_ipc s)) = 0"
    using r(2) by (auto simp: rendezvous_await_def Let_def split: if_splits)
  then have free: "rv_owner s = None" using inv(1) by (simp add: slot_inv_def)
  then show "slot_inv c prog s'" using inv(1) by (simp add: slot_inv_def s'_def)
  have d: "i \<in> fst ` set (rv_log s)" using inv(2) r(1) free by (fastforce simp: log_inv_def)
  have a: "rv_at s' k = (if k = i then Sent else rv_at s k)" for k by (simp add: s'_def)
  have l: "rv_owner s' = rv_owner s" "rv_log s' = rv_log s" by (simp_all add: s'_def)
  have "rv_at s' x \<noteq> Start \<and> (\<exists>m. wire (prog x) = Some m \<and> rv_at s' y = Holds m)" if xy: "(x, y) \<in> set (rv_log s)" for x y
  proof -
    obtain m where "rv_at s x \<noteq> Start" "wire (prog x) = Some m" "rv_at s y = Holds m" using inv(2) xy unfolding log_inv_def by blast
    then show ?thesis using r(1) by (auto simp: a)
  qed
  moreover have "x \<in> fst ` set (rv_log s)" if "rv_at s' x = Sent" for x
    using inv(2) that d unfolding log_inv_def a by (auto split: if_splits)
  moreover have "rv_owner s = Some x \<or> x \<in> fst ` set (rv_log s)" if "rv_at s' x = Waiting b" for x b
    using inv(2) that unfolding log_inv_def a by (auto split: if_splits)
  moreover have "x \<in> snd ` set (rv_log s)" if "rv_at s' x = Holds n" for x n
    using inv(2) log_invD [of prog s x n] that a by (auto split: if_splits)
  moreover have "distinct (map fst (rv_log s))" "distinct (map snd (rv_log s))" using inv(2) by (simp_all add: log_inv_def)
  ultimately show "log_inv prog s'" unfolding log_inv_def l by blast
qed

lemma inv_receive:
  assumes inv: "slot_inv c prog s" "log_inv prog s"
    and r: "prog j = Receiver capacity" "rv_at s j = Start" "rendezvous_take c True capacity (rv_ipc s) = (Go m, g)"
  defines "s' \<equiv> s\<lparr>rv_ipc := g, rv_at := (rv_at s)(j := Holds m), rv_owner := None, rv_log := (the (rv_owner s), j) # rv_log s\<rparr>"
  shows "slot_inv c prog s'" "log_inv prog s'"
proof -
  have ok: "ipc_ok (rv_ipc s)" using inv(1) by (simp add: slot_inv_def)
  note e = take_effect [OF ok r(3)]
  obtain i where i: "rv_owner s = Some i" using inv(1) e(1) by (auto simp: slot_inv_def)
  have w: "wire (prog i) = Some m" "rv_at s i \<noteq> Start" "i \<notin> fst ` set (rv_log s)" using inv(1) i e(2) by (auto simp: slot_inv_def)
  have ij: "i \<noteq> j" using w(2) r(2) by auto
  have new: "j \<notin> fst ` set (rv_log s)" "j \<notin> snd ` set (rv_log s)" using inv(2) r(2) by (fastforce simp: log_inv_def)+
  show "slot_inv c prog s'" using e by (simp add: slot_inv_def s'_def)
  have a: "rv_at s' k = (if k = j then Holds m else rv_at s k)" for k by (simp add: s'_def)
  have l: "rv_owner s' = None" "rv_log s' = (i, j) # rv_log s" by (simp_all add: s'_def i)
  have "rv_at s' x \<noteq> Start \<and> (\<exists>m. wire (prog x) = Some m \<and> rv_at s' y = Holds m)" if "(x, y) \<in> set (rv_log s')" for x y
  proof (cases "(x, y) = (i, j)")
    case False
    then have xy: "(x, y) \<in> set (rv_log s)" using that l(2) by auto
    then have "x \<noteq> j" "y \<noteq> j" using new by force+
    then show ?thesis using inv(2) xy unfolding log_inv_def a by simp
  qed (use w ij in \<open>cases m, simp add: a\<close>)
  moreover have "distinct (map fst (rv_log s'))" "distinct (map snd (rv_log s'))" using inv(2) l(2) w(3) new(2) by (simp_all add: log_inv_def)
  moreover have "x \<in> fst ` set (rv_log s')" if "rv_at s' x = Waiting b" for x b
    using inv(2) that i l(2) unfolding log_inv_def a by (auto split: if_splits)
  moreover have "x \<in> fst ` set (rv_log s')" if "rv_at s' x = Sent" for x
    using inv(2) that l(2) unfolding log_inv_def a by (auto split: if_splits)
  moreover have "x \<in> snd ` set (rv_log s')" if "rv_at s' x = Holds n" for x n
    using inv(2) log_invD [of prog s x n] that a l(2) by (auto split: if_splits)
  ultimately show "log_inv prog s'" unfolding log_inv_def by blast
qed

lemma inv_step:
  assumes st: "rv_step c prog s s'" and inv: "slot_inv c prog s" "log_inv prog s" and en: "\<And>i. entered (prog i)"
  shows "slot_inv c prog s' \<and> log_inv prog s'"
proof -
  have ok: "ipc_ok (rv_ipc s)" "ipc_is_valid_channel_id c (rv_ipc s)" using inv(1) by (simp_all add: slot_inv_def)
  show ?thesis using st
  proof cases
    case (post i bytes sz t base g)
    then show ?thesis using inv_post [OF inv en] by simp
  next
    case (return i base)
    then show ?thesis using inv_return [OF inv] by simp
  next
    case (receive j capacity m g)
    then show ?thesis using inv_receive [OF inv] by simp
  next
    case (queue op)
    then show ?thesis using inv_same_slot [OF inv queue_keeps_ok [OF ok(1)] queue_keeps_slot [OF ok]] by simp
  next
    case (post_elsewhere d sz bytes t)
    then show ?thesis using inv_same_slot [OF inv] elsewhere_keeps(1) [OF ok(1)] by simp
  next
    case (receive_elsewhere d capacity)
    then show ?thesis using inv_same_slot [OF inv] elsewhere_keeps(2) [OF ok(1)] by simp
  qed
qed

lemma inv_run:
  assumes "(rv_step c prog)\<^sup>*\<^sup>* s s'" "slot_inv c prog s" "log_inv prog s" "\<And>i. entered (prog i)"
  shows "slot_inv c prog s' \<and> log_inv prog s'"
  using assms by (induction rule: rtranclp_induct) (use inv_step in blast)+

lemma inv_start:
  assumes "ipc_ok g" "ipc_is_valid_channel_id c g" "ch_rendezvous_pending (slot c g) = 0"
  shows "slot_inv c prog (rv_start g)" "log_inv prog (rv_start g)"
  using assms by (simp_all add: slot_inv_def log_inv_def rv_start_def)

section \<open>Properties\<close>

text \<open>
  C10. A rendezvous is a meeting.  However the rounds of senders and receivers on a channel interleave
  with each other and with every other channel operation, there is a matching of senders with
  receivers, no task matched twice, such that a sender whose call has returned success is matched,
  and a receiver holds a message exactly when it is matched, the message being byte for byte its
  sender's.  So a successful send was received by exactly one receiver and no message is received
  twice or made up.
\<close>

theorem ipc_rendezvous_meets:
  assumes "ipc_ok g" "ipc_is_valid_channel_id c g" "ch_rendezvous_pending (slot c g) = 0" "\<And>i. entered (prog i)"
    and "(rv_step c prog)\<^sup>*\<^sup>* (rv_start g) s"
  shows "distinct (map fst (rv_log s)) \<and> distinct (map snd (rv_log s)) \<and>
    (\<forall>i. rv_at s i = Sent \<longrightarrow> i \<in> fst ` set (rv_log s)) \<and>
    (\<forall>j m. rv_at s j = Holds m \<longrightarrow> j \<in> snd ` set (rv_log s)) \<and>
    (\<forall>i j. (i, j) \<in> set (rv_log s) \<longrightarrow> (\<exists>bytes sz t. prog i = Sender bytes sz t \<and> rv_at s j = Holds (sz, t, take (unat sz) bytes)))"
proof -
  have l: "log_inv prog s" using inv_run [OF assms(5) inv_start [OF assms(1-3)] assms(4)] by simp
  have "\<exists>bytes sz t. prog i = Sender bytes sz t \<and> rv_at s j = Holds (sz, t, take (unat sz) bytes)" if ij: "(i, j) \<in> set (rv_log s)" for i j
  proof -
    obtain m where "wire (prog i) = Some m" "rv_at s j = Holds m" using l ij unfolding log_inv_def by blast
    then show ?thesis by (cases "prog i") auto
  qed
  then show ?thesis using l unfolding log_inv_def by blast
qed

definition rv_prog :: "nat \<Rightarrow> role" where
  "rv_prog i = (if i = 0 then Sender [9, 8] 2 7 else Receiver 64)"

definition rv_ipc_demo :: ipc where
  "rv_ipc_demo = snd (ipc_channel_create (Some ''log'') (ipc_init ipc_demo))"

lemma cstring_log: "cstring ''log''"
  by (simp add: cstring_def)

lemma rv_demo_ok:
  "ipc_ok rv_ipc_demo" "ipc_is_valid_channel_id 0 rv_ipc_demo" "ch_rendezvous_pending (slot 0 rv_ipc_demo) = 0" "entered (rv_prog i)"
proof -
  have "ipc_ok (ipc_init ipc_demo)" using ipc_demo_called(1) by (intro ipc_init_ok) simp_all
  then show "ipc_ok rv_ipc_demo"
    using create_refines [of "ipc_init ipc_demo" "''log''"] unfolding rv_ipc_demo_def by (metis cstring_log prod.collapse)
  show "ipc_is_valid_channel_id 0 rv_ipc_demo" "ch_rendezvous_pending (slot 0 rv_ipc_demo) = 0" by code_simp+
  show "entered (rv_prog i)" by (simp add: rv_prog_def entered_def word_le_unat)
qed

theorem ipc_rendezvous_meets_witness:
  "\<exists>s. (rv_step 0 rv_prog)\<^sup>*\<^sup>* (rv_start rv_ipc_demo) s \<and> rv_at s 0 = Sent \<and> distinct (map fst (rv_log s)) \<and>
     (\<exists>j. (0, j) \<in> set (rv_log s) \<and> rv_at s j = Holds (2, 7, [9, 8]))"
proof -
  let ?g1 = "snd (rendezvous_post 0 [9, 8] 2 7 rv_ipc_demo)"
  let ?g2 = "snd (rendezvous_take 0 True 64 ?g1)"
  have p: "rendezvous_post 0 [9, 8] 2 7 rv_ipc_demo = (Go 0, ?g1)"
  proof -
    have "fst (rendezvous_post 0 [9, 8] 2 7 rv_ipc_demo) = Go 0" by code_simp
    then show ?thesis by (metis prod.collapse)
  qed
  have t: "rendezvous_take 0 True 64 ?g1 = (Go (2, 7, [9, 8]), ?g2)"
  proof -
    have "fst (rendezvous_take 0 True 64 ?g1) = Go (2, 7, [9, 8])" by code_simp
    then show ?thesis by (metis prod.collapse)
  qed
  have w: "rendezvous_await 0 0 ?g2 = Go ()" by code_simp
  let ?s1 = "rv_start rv_ipc_demo\<lparr>rv_ipc := ?g1, rv_at := (rv_at (rv_start rv_ipc_demo))(0 := Waiting 0), rv_owner := Some 0\<rparr>"
  let ?s2 = "?s1\<lparr>rv_ipc := ?g2, rv_at := (rv_at ?s1)(1 := Holds (2, 7, [9, 8])), rv_owner := None, rv_log := (the (rv_owner ?s1), 1) # rv_log ?s1\<rparr>"
  let ?s3 = "?s2\<lparr>rv_at := (rv_at ?s2)(0 := Sent)\<rparr>"
  have "rv_step 0 rv_prog (rv_start rv_ipc_demo) ?s1" by (rule rv_step.post) (use p in \<open>simp_all add: rv_prog_def rv_start_def\<close>)
  moreover have "rv_step 0 rv_prog ?s1 ?s2" by (rule rv_step.receive) (use t in \<open>simp_all add: rv_prog_def rv_start_def\<close>)
  moreover have "rv_step 0 rv_prog ?s2 ?s3" by (rule rv_step.return) (use w in simp_all)
  ultimately have run: "(rv_step 0 rv_prog)\<^sup>*\<^sup>* (rv_start rv_ipc_demo) ?s3" by (meson converse_rtranclp_into_rtranclp rtranclp.rtrancl_refl)
  have "rv_at ?s3 0 = Sent" by simp
  moreover note ipc_rendezvous_meets [OF rv_demo_ok run]
  ultimately obtain j where "(0, j) \<in> set (rv_log ?s3)" "distinct (map fst (rv_log ?s3))" by force
  moreover have "rv_at ?s3 j = Holds (2, 7, [9, 8])" using calculation(1) by (simp add: rv_start_def)
  ultimately show ?thesis using run \<open>rv_at ?s3 0 = Sent\<close> by blast
qed

end
