(* ===== verification/Shm.thy ===== *)
theory Shm
  imports Sched Names Vmm_Heap
begin

text \<open>
  Shared memory, kernel/ipc/shm.c: 32 named segments of kernel pages, each with the list of the
  tasks attached to it.  A segment identifier is a C \<^verbatim>\<open>int\<close>, cast to 16 bits where the code casts it.
  Creation allocates pages from the kernel heap, so it works on the segments together with the page
  tables and the page allocator; \<open>None\<close> is a heap allocation that does not return.
\<close>

section \<open>Data\<close>

definition SHM_MAX_SEGMENTS :: u32 where "SHM_MAX_SEGMENTS = 32"
definition SHM_SEGMENT_NAME_MAX :: u32 where "SHM_SEGMENT_NAME_MAX = 32"
definition SHM_MAX_ATTACHMENTS :: u32 where "SHM_MAX_ATTACHMENTS = 32"

record shm_segment_t =
  seg_in_use :: u8
  seg_name :: string
  seg_base :: u64
  seg_size :: u64
  seg_owner_tid :: u64
  seg_attachments :: u16
  seg_attached_tids :: "u64 list"

record shm =
  g_shm_segments :: "shm_segment_t list"
  g_shm_segment_count :: u16

section \<open>Helpers\<close>

definition shm_current_tid :: "sched \<Rightarrow> u64" where
  "shm_current_tid s = (case sched_current_task s of None \<Rightarrow> 0 | Some current \<Rightarrow> tid (task_at current s))"

definition shm_resolve_tid :: "sched \<Rightarrow> u64 \<Rightarrow> u64 option" where
  "shm_resolve_tid s requested_tid =
     (if requested_tid = 0 then Some (shm_current_tid s)
      else if shm_current_tid s \<noteq> 0 \<and> requested_tid \<noteq> shm_current_tid s then None
      else Some requested_tid)"

definition shm_strnlen :: "string option \<Rightarrow> u16 \<Rightarrow> u16" where
  "shm_strnlen text limit = of_nat (name_strnlen text (unat limit))"

definition shm_name_copy :: "string option \<Rightarrow> string" where
  "shm_name_copy src = name_copy (unat SHM_SEGMENT_NAME_MAX) src"

definition shm_name_equal :: "string \<Rightarrow> string option \<Rightarrow> bool" where
  "shm_name_equal left right =
     (case right of None \<Rightarrow> False | Some r \<Rightarrow> name_equal_loop (unat SHM_SEGMENT_NAME_MAX) 0 left r)"

definition shm_find_locked :: "string option \<Rightarrow> shm \<Rightarrow> int" where
  "shm_find_locked nm g =
     (case first_index (\<lambda>sg. seg_in_use sg \<noteq> 0 \<and> shm_name_equal (seg_name sg) nm) (g_shm_segments g) of
        None \<Rightarrow> - 1 | Some index \<Rightarrow> int index)"

definition shm_find_attachment_locked :: "shm_segment_t \<Rightarrow> u64 \<Rightarrow> int" where
  "shm_find_attachment_locked segment t =
     (case first_index (\<lambda>x. x = t) (take (unat (seg_attachments segment)) (seg_attached_tids segment)) of
        None \<Rightarrow> - 1 | Some index \<Rightarrow> int index)"

section \<open>Operations\<close>

definition shm_init :: "shm \<Rightarrow> shm" where
  "shm_init g = g\<lparr>g_shm_segments := map (\<lambda>sg. sg\<lparr>seg_in_use := 0, seg_base := 0, seg_size := 0, seg_owner_tid := 0,
       seg_attachments := 0, seg_attached_tids := replicate (unat SHM_MAX_ATTACHMENTS) 0, seg_name := shm_name_copy (Some [])\<rparr>)
       (g_shm_segments g),
     g_shm_segment_count := 0\<rparr>"

definition open_segment :: "string option \<Rightarrow> u64 \<Rightarrow> u64 \<Rightarrow> u64 \<Rightarrow> shm_segment_t \<Rightarrow> shm_segment_t" where
  "open_segment nm mapping_addr aligned_size owner sg = sg\<lparr>seg_in_use := 1, seg_base := mapping_addr, seg_size := aligned_size,
     seg_owner_tid := owner, seg_attachments := 0, seg_attached_tids := replicate (unat SHM_MAX_ATTACHMENTS) 0,
     seg_name := shm_name_copy nm\<rparr>"

definition shm_create :: "string option \<Rightarrow> u64 \<Rightarrow> u64 \<Rightarrow> sched \<Rightarrow> shm \<times> vmm \<times> pmm \<Rightarrow> (int \<times> shm \<times> vmm \<times> pmm) option" where
  "shm_create nm sz owner_tid s st =
     (let (g, vp) = st in
      if nm = None \<or> sz = 0 then Some (- 1, g, vp)
      else case shm_resolve_tid s owner_tid of None \<Rightarrow> Some (- 1, g, vp) | Some owner \<Rightarrow>
        if ucast (shm_strnlen nm (ucast SHM_SEGMENT_NAME_MAX)) \<ge> SHM_SEGMENT_NAME_MAX then Some (- 1, g, vp)
        else
          let aligned_size = (sz + (MM_PAGE_SIZE - 1)) AND NOT (MM_PAGE_SIZE - 1);
              page_count = aligned_size div MM_PAGE_SIZE
          in if page_count = 0 then Some (- 1, g, vp)
          else if shm_find_locked nm g \<ge> 0 then Some (shm_find_locked nm g, g, vp)
          else case first_index (\<lambda>sg. seg_in_use sg = 0) (g_shm_segments g) of
              None \<Rightarrow> Some (- 2, g, vp)
            | Some free_slot \<Rightarrow>
                (case vmm_alloc_kernel_pages page_count VMM_MAP_WRITABLE vp of
                   None \<Rightarrow> None
                 | Some (mapping_addr, vp) \<Rightarrow>
                     if mapping_addr = 0 then Some (- 3, g, vp)
                     else Some (int free_slot,
                       g\<lparr>g_shm_segments := (g_shm_segments g)[free_slot :=
                            open_segment nm mapping_addr aligned_size owner (g_shm_segments g ! free_slot)],
                         g_shm_segment_count := g_shm_segment_count g + 1\<rparr>, vp)))"

definition shm_find :: "string option \<Rightarrow> shm \<Rightarrow> int" where
  "shm_find nm g = (case nm of None \<Rightarrow> - 1 | Some _ \<Rightarrow> shm_find_locked nm g)"

definition segment_index :: "int \<Rightarrow> nat" where
  "segment_index segment_id = unat (word_of_int segment_id :: u16)"

definition attach_task :: "u64 \<Rightarrow> shm_segment_t \<Rightarrow> shm_segment_t" where
  "attach_task t sg = sg\<lparr>seg_attached_tids := (seg_attached_tids sg)[unat (seg_attachments sg) := t],
     seg_attachments := seg_attachments sg + 1\<rparr>"

text \<open>The second result is the address and size written through the output pointers.\<close>

definition shm_attach :: "int \<Rightarrow> u64 \<Rightarrow> bool \<Rightarrow> sched \<Rightarrow> shm \<Rightarrow> int \<times> (u64 \<times> u64) option \<times> shm" where
  "shm_attach segment_id requester_tid has_out s g =
     (if \<not> has_out \<or> segment_id < 0 \<or> segment_index segment_id \<ge> unat SHM_MAX_SEGMENTS then (- 1, None, g)
      else case shm_resolve_tid s requester_tid of None \<Rightarrow> (- 1, None, g) | Some t \<Rightarrow>
        let i = segment_index segment_id; segment = g_shm_segments g ! i in
        if seg_in_use segment = 0 then (- 2, None, g)
        else if shm_find_attachment_locked segment t < 0 then
          if ucast (seg_attachments segment) \<ge> SHM_MAX_ATTACHMENTS then (- 3, None, g)
          else (0, Some (seg_base segment, seg_size segment), g\<lparr>g_shm_segments := (g_shm_segments g)[i := attach_task t segment]\<rparr>)
        else (0, Some (seg_base segment, seg_size segment), g))"

text \<open>\<^verbatim>\<open>for (index = at; index + 1 < attachments; index++) tids[index] = tids[index + 1]\<close>, with \<open>k\<close> rounds left.\<close>

fun shift_loop :: "nat \<Rightarrow> nat \<Rightarrow> u64 list \<Rightarrow> u64 list" where
  "shift_loop 0 i tids = tids"
| "shift_loop (Suc k) i tids = shift_loop k (Suc i) (tids[i := tids ! Suc i])"

definition detach_task :: "nat \<Rightarrow> shm_segment_t \<Rightarrow> shm_segment_t" where
  "detach_task at sg =
     (let tids = shift_loop (unat (seg_attachments sg) - 1 - at) at (seg_attached_tids sg) in
      if seg_attachments sg > 0
      then sg\<lparr>seg_attachments := seg_attachments sg - 1, seg_attached_tids := tids[unat (seg_attachments sg - 1) := 0]\<rparr>
      else sg\<lparr>seg_attached_tids := tids\<rparr>)"

definition shm_detach :: "int \<Rightarrow> u64 \<Rightarrow> sched \<Rightarrow> shm \<Rightarrow> int \<times> shm" where
  "shm_detach segment_id requester_tid s g =
     (if segment_id < 0 \<or> segment_index segment_id \<ge> unat SHM_MAX_SEGMENTS then (- 1, g)
      else case shm_resolve_tid s requester_tid of None \<Rightarrow> (- 1, g) | Some t \<Rightarrow>
        let i = segment_index segment_id; segment = g_shm_segments g ! i;
            attachment_index = shm_find_attachment_locked segment t in
        if seg_in_use segment = 0 then (- 2, g)
        else if attachment_index < 0 then (- 3, g)
        else (0, g\<lparr>g_shm_segments := (g_shm_segments g)[i := detach_task (nat attachment_index) segment]\<rparr>))"

definition shm_segment_count :: "shm \<Rightarrow> u16" where
  "shm_segment_count g = g_shm_segment_count g"

end
