(* ===== verification/Shm_Props.thy ===== *)
theory Shm_Props
  imports Shm Sched_Props
begin

text \<open>
  Properties of shared memory: the invariant of the segment table together with the page tables and
  the page allocator, the name registry, the isolation of segments and the attachment lists.
\<close>

section \<open>The invariant\<close>

abbreviation seg_used :: "shm_segment_t \<Rightarrow> bool" where
  "seg_used sg \<equiv> seg_in_use sg \<noteq> 0"

definition attached :: "shm_segment_t \<Rightarrow> u64 list" where
  "attached sg = take (unat (seg_attachments sg)) (seg_attached_tids sg)"

text \<open>The attached tasks are distinct and stand before the zeros of the array.\<close>

definition seg_ok :: "shm_segment_t \<Rightarrow> bool" where
  "seg_ok sg \<longleftrightarrow> length (seg_attached_tids sg) = 32 \<and> unat (seg_attachments sg) \<le> 32 \<and> distinct (attached sg) \<and>
     seg_attached_tids sg = attached sg @ replicate (32 - unat (seg_attachments sg)) 0"

definition table_ok :: "shm \<Rightarrow> bool" where
  "table_ok g \<longleftrightarrow> length (g_shm_segments g) = 32 \<and> (\<forall>sg\<in>set (g_shm_segments g). seg_ok sg) \<and>
     names_ok seg_used seg_name (g_shm_segments g) \<and>
     unat (g_shm_segment_count g) = card {i. i < length (g_shm_segments g) \<and> seg_used (g_shm_segments g ! i)}"

text \<open>Page \<open>j\<close> of segment \<open>i\<close>.\<close>

definition has_page :: "shm \<Rightarrow> nat \<times> nat \<Rightarrow> bool" where
  "has_page g x \<longleftrightarrow> fst x < length (g_shm_segments g) \<and> seg_used (g_shm_segments g ! fst x) \<and>
     snd x < unat (seg_size (g_shm_segments g ! fst x)) div 4096"

definition seg_page :: "shm \<Rightarrow> nat \<times> nat \<Rightarrow> u64" where
  "seg_page g x = seg_base (g_shm_segments g ! fst x) + of_nat (snd x) * MM_PAGE_SIZE"

text \<open>Every page of a segment is mapped writable to a frame in use, and no two to the same frame.\<close>

definition pages_ok :: "shm \<Rightarrow> vmm \<Rightarrow> pmm \<Rightarrow> bool" where
  "pages_ok g v p \<longleftrightarrow>
     (\<forall>x. has_page g x \<longrightarrow> (\<exists>f. mapping v (seg_page g x) = Some (f, VMM_MAP_WRITABLE) \<and> f \<in> used_frames p)) \<and>
     (\<forall>x y f fl fl'. has_page g x \<longrightarrow> has_page g y \<longrightarrow> mapping v (seg_page g x) = Some (f, fl) \<longrightarrow>
        mapping v (seg_page g y) = Some (f, fl') \<longrightarrow> x = y)"

definition shm_ok :: "shm \<times> vmm \<times> pmm \<Rightarrow> bool" where
  "shm_ok m \<longleftrightarrow> (case m of (g, v, p) \<Rightarrow> table_ok g \<and> vm_ok v p \<and> heap_ok v \<and> pages_ok g v p)"

lemma shm_consts [simp]: "unat SHM_MAX_SEGMENTS = 32" "unat SHM_SEGMENT_NAME_MAX = 32" "unat SHM_MAX_ATTACHMENTS = 32"
  by (simp_all add: SHM_MAX_SEGMENTS_def SHM_SEGMENT_NAME_MAX_def SHM_MAX_ATTACHMENTS_def)

lemma table_okD:
  assumes "table_ok g"
  shows "length (g_shm_segments g) = 32" "i < 32 \<Longrightarrow> seg_ok (g_shm_segments g ! i)"
    "names_ok seg_used seg_name (g_shm_segments g)"
  using assms by (simp_all add: table_ok_def)

lemma seg_okD:
  assumes "seg_ok sg"
  shows "length (attached sg) = unat (seg_attachments sg)" "length (seg_attached_tids sg) = 32"
  using assms by (simp_all add: seg_ok_def attached_def)

section \<open>Attachments\<close>

lemma find_attachment:
  "shm_find_attachment_locked sg t < 0 \<longleftrightarrow> t \<notin> set (attached sg)"
  "t \<in> set (attached sg) \<Longrightarrow> nat (shm_find_attachment_locked sg t) < length (attached sg) \<and>
     attached sg ! nat (shm_find_attachment_locked sg t) = t"
proof -
  show "shm_find_attachment_locked sg t < 0 \<longleftrightarrow> t \<notin> set (attached sg)"
  proof (cases "first_index (\<lambda>x. x = t) (attached sg)")
    case (Some i)
    then have "t \<in> set (attached sg)" using first_index_SomeD [OF Some] nth_mem by blast
    then show ?thesis using Some by (simp add: shm_find_attachment_locked_def attached_def)
  next
    case None
    then have "shm_find_attachment_locked sg t = - 1" by (simp add: shm_find_attachment_locked_def attached_def del: first_index_None)
    then show ?thesis using None by auto
  qed
  assume "t \<in> set (attached sg)"
  then obtain i where i: "first_index (\<lambda>x. x = t) (attached sg) = Some i"
    by (cases "first_index (\<lambda>x. x = t) (attached sg)") auto
  then show "nat (shm_find_attachment_locked sg t) < length (attached sg) \<and> attached sg ! nat (shm_find_attachment_locked sg t) = t"
    using first_index_SomeD [OF i] by (simp add: shm_find_attachment_locked_def attached_def)
qed

lemma shift_loop_eq:
  "i + k < length xs \<Longrightarrow> shift_loop k i xs = take i xs @ take k (drop (Suc i) xs) @ drop (i + k) xs"
proof (induction k arbitrary: i xs)
  case (Suc k)
  let ?ys = "xs[i := xs ! Suc i]"
  have "shift_loop (Suc k) i xs = take (Suc i) ?ys @ take k (drop (Suc (Suc i)) ?ys) @ drop (Suc i + k) ?ys"
    using Suc.IH [of "Suc i" ?ys] Suc.prems by simp
  also have "take (Suc i) ?ys = take i xs @ [xs ! Suc i]" using Suc.prems by (simp add: take_Suc_conv_app_nth)
  also have "take k (drop (Suc (Suc i)) ?ys) = take k (drop (Suc (Suc i)) xs)" by simp
  also have "drop (Suc i + k) ?ys = drop (i + Suc k) xs" by simp
  finally have "shift_loop (Suc k) i xs = take i xs @ (xs ! Suc i # take k (drop (Suc (Suc i)) xs)) @ drop (i + Suc k) xs" by simp
  moreover have "take (Suc k) (drop (Suc i) xs) = xs ! Suc i # take k (drop (Suc (Suc i)) xs)"
    using Suc.prems by (simp add: Cons_nth_drop_Suc [symmetric])
  ultimately show ?case by simp
qed simp

lemma attach_ok:
  assumes ok: "seg_ok sg" and n: "unat (seg_attachments sg) < 32" and t: "t \<notin> set (attached sg)"
  shows "attached (attach_task t sg) = attached sg @ [t]" "seg_ok (attach_task t sg)"
proof -
  let ?n = "unat (seg_attachments sg)"
  have n1: "unat (seg_attachments sg + 1) = Suc ?n" using n by (subst unat_Suc_small) simp_all
  have arr: "seg_attached_tids sg = attached sg @ replicate (32 - ?n) 0" using ok by (simp add: seg_ok_def)
  have "32 - ?n = Suc (31 - ?n)" using n by simp
  then have arr': "seg_attached_tids (attach_task t sg) = (attached sg @ [t]) @ replicate (31 - ?n) 0"
    using seg_okD [OF ok] by (simp add: attach_task_def arr list_update_append)
  show a: "attached (attach_task t sg) = attached sg @ [t]"
    unfolding attached_def [of "attach_task t sg"] arr' using seg_okD(1) [OF ok] n1 by (simp add: attach_task_def)
  show "seg_ok (attach_task t sg)" unfolding seg_ok_def a arr' using ok t n n1 seg_okD(1) [OF ok] by (simp add: seg_ok_def attach_task_def)
qed

lemma detach_ok:
  assumes ok: "seg_ok sg" and i: "i < length (attached sg)"
  shows "attached (detach_task i sg) = take i (attached sg) @ drop (Suc i) (attached sg)" "seg_ok (detach_task i sg)"
proof -
  let ?n = "unat (seg_attachments sg)" and ?a = "attached sg"
  note l = seg_okD [OF ok]
  have n: "0 < ?n" "?n \<le> 32" using i l(1) ok by (auto simp: seg_ok_def)
  have nz: "seg_attachments sg > 0" using n by (simp add: word_less_unat)
  have n1: "unat (seg_attachments sg - 1) = ?n - 1" using n by (subst unat_diff_le) (simp_all add: word_le_unat)
  have arr: "seg_attached_tids sg = ?a @ replicate (32 - ?n) 0" using ok by (simp add: seg_ok_def)
  have sh: "shift_loop (?n - 1 - i) i (seg_attached_tids sg) = (take i ?a @ drop (Suc i) ?a) @ drop (?n - 1) ?a @ replicate (32 - ?n) 0"
    using shift_loop_eq [of i "?n - 1 - i" "seg_attached_tids sg"] i l n(2) arr by simp
  have len: "length (take i ?a @ drop (Suc i) ?a) = ?n - 1" using i l(1) by simp
  have one: "drop (?n - 1) ?a = [?a ! (?n - 1)]"
    using l(1) n(1) by (metis Cons_nth_drop_Suc Suc_pred' drop_all le_refl lessI)
  have arr': "seg_attached_tids (detach_task i sg) = (take i ?a @ drop (Suc i) ?a) @ replicate (32 - (?n - 1)) 0"
  proof -
    let ?b = "take i ?a @ drop (Suc i) ?a"
    have "(?b @ drop (?n - 1) ?a @ replicate (32 - ?n) 0)[unat (seg_attachments sg - 1) := 0] = ?b @ 0 # replicate (32 - ?n) 0"
      using list_update_length [of ?b "?a ! (?n - 1)" "replicate (32 - ?n) 0" 0] unfolding one n1 len by simp
    moreover have "32 - (?n - 1) = Suc (32 - ?n)" using n by simp
    ultimately show ?thesis using nz sh by (simp add: detach_task_def Let_def)
  qed
  have at: "unat (seg_attachments (detach_task i sg)) = length (take i ?a @ drop (Suc i) ?a)"
    using len n1 nz by (simp add: detach_task_def)
  have tk: "take (length b) (b @ zs) = b" for b zs :: "u64 list" by simp
  show a: "attached (detach_task i sg) = take i ?a @ drop (Suc i) ?a"
    unfolding attached_def [of "detach_task i sg"] arr' at by (rule tk)
  have "distinct (take i ?a @ drop (Suc i) ?a)" using ok i by (simp add: seg_ok_def distinct_take set_take_disj_set_drop_if_distinct)
  then show "seg_ok (detach_task i sg)" unfolding seg_ok_def a arr' using n n1 nz len by (simp add: detach_task_def) arith
qed

section \<open>Segments and their pages\<close>

lemma pages_okD:
  assumes "pages_ok g v p" "has_page g x"
  obtains f where "mapping v (seg_page g x) = Some (f, VMM_MAP_WRITABLE)" "f \<in> used_frames p"
  using assms unfolding pages_ok_def by blast

lemma pages_ok_inj:
  assumes "pages_ok g v p" "has_page g x" "has_page g y"
    "mapping v (seg_page g x) = Some (f, fl)" "mapping v (seg_page g y) = Some (f, fl')"
  shows "x = y"
  using assms unfolding pages_ok_def by blast

lemma pages_ok_cong:
  assumes "\<And>x. has_page g' x = has_page g x" "\<And>x. has_page g x \<Longrightarrow> seg_page g' x = seg_page g x" "pages_ok g v p"
  shows "pages_ok g' v p"
proof -
  have e: "(has_page g' x \<longrightarrow> P (seg_page g' x)) \<longleftrightarrow> (has_page g x \<longrightarrow> P (seg_page g x))" for x P using assms(1,2) by auto
  show ?thesis using assms(3) unfolding pages_ok_def by (simp only: e assms(1)) (use assms(2) in auto)
qed

lemma pages_ok_keep:
  assumes "pages_ok g v p" "\<And>x. has_page g x \<Longrightarrow> mapping v' (seg_page g x) = mapping v (seg_page g x)" "used_frames p \<subseteq> used_frames p'"
  shows "pages_ok g v' p'"
proof -
  have "\<exists>f. mapping v' (seg_page g x) = Some (f, VMM_MAP_WRITABLE) \<and> f \<in> used_frames p'" if "has_page g x" for x
    using assms(1) assms(2) [OF that] assms(3) that unfolding pages_ok_def by fastforce
  moreover have "x = y" if "has_page g x" "has_page g y" "mapping v' (seg_page g x) = Some (f, fl)" "mapping v' (seg_page g y) = Some (f, fl')"
    for x y f fl fl'
    using pages_ok_inj [OF assms(1) that(1,2)] that(3,4) unfolding assms(2) [OF that(1)] assms(2) [OF that(2)] by blast
  ultimately show ?thesis unfolding pages_ok_def by blast
qed

text \<open>A change of the attachments only.\<close>

lemma upd_seg_ok:
  assumes ok: "table_ok g" and i: "i < 32" and y: "seg_ok y"
    and same: "seg_in_use y = seg_in_use (g_shm_segments g ! i)" "seg_name y = seg_name (g_shm_segments g ! i)"
      "seg_base y = seg_base (g_shm_segments g ! i)" "seg_size y = seg_size (g_shm_segments g ! i)"
  defines "g' \<equiv> g\<lparr>g_shm_segments := (g_shm_segments g)[i := y]\<rparr>"
  shows "table_ok g'" "pages_ok g v p \<Longrightarrow> pages_ok g' v p"
proof -
  note t = table_okD [OF ok]
  have k: "names_ok seg_used seg_name ((g_shm_segments g)[i := y])"
    using names_keep(2) [of seg_used y "g_shm_segments g" i seg_name] same t(3) by simp
  have c: "card {j. j < length (g_shm_segments g) \<and> seg_used ((g_shm_segments g)[i := y] ! j)} =
      card {j. j < length (g_shm_segments g) \<and> seg_used (g_shm_segments g ! j)}"
    using card_update_list_same [of i "g_shm_segments g" seg_used y] i t(1) same by simp
  have "seg_ok sg" if "sg \<in> set ((g_shm_segments g)[i := y])" for sg
    using set_update_subset_insert [of "g_shm_segments g" i y] that y ok by (auto simp: table_ok_def)
  then show "table_ok g'" using ok k c by (simp add: table_ok_def g'_def)
  have e: "has_page g' x = has_page g x" "seg_page g' x = seg_page g x" for x
    using same i t(1) by (cases "fst x = i"; simp add: has_page_def seg_page_def g'_def)+
  show "pages_ok g v p \<Longrightarrow> pages_ok g' v p" by (rule pages_ok_cong) (simp_all add: e)
qed

lemma pages_ok_new:
  assumes ok: "pages_ok g v p" and vm: "vm_ok v p" and hg: "heap_grown VMM_MAP_WRITABLE n fs (v, p) (v', p')"
    and i: "i < length (g_shm_segments g)" "\<not> seg_used (g_shm_segments g ! i)"
    and y: "seg_base y = g_kernel_heap_next v" "unat (seg_size y) div 4096 = n" "seg_used y"
  shows "pages_ok (g\<lparr>g_shm_segments := (g_shm_segments g)[i := y]\<rparr>) v' p'"
proof -
  let ?g = "g\<lparr>g_shm_segments := (g_shm_segments g)[i := y]\<rparr>" and ?start = "g_kernel_heap_next v"
  have fl: "leaf_flags (VMM_MAP_WRITABLE OR VMM_MAP_WRITABLE) = VMM_MAP_WRITABLE" by code_simp
  have len: "length fs = n" "distinct fs" "set fs \<subseteq> free_frames p" "set fs \<subseteq> used_frames p'" "used_frames p \<subseteq> used_frames p'"
    and new: "\<And>k. k < n \<Longrightarrow> mapping v' (?start + of_nat k * MM_PAGE_SIZE) = Some (fs ! k, VMM_MAP_WRITABLE)"
    and fr: "\<And>w. if in_run ?start n w then mapping v w = None else mapping v' w = mapping v w"
    using hg [unfolded heap_grown_def Let_def prod.case fl] by blast+
  have disj: "free_frames p \<inter> used_frames p = {}" using frames_disjoint [OF vm_okD(1) [OF vm]] by simp
  have hp: "has_page ?g x \<longleftrightarrow> (if fst x = i then snd x < n else has_page g x)" for x
    using i(1) y by (auto simp: has_page_def)
  have sp: "seg_page ?g x = (if fst x = i then ?start + of_nat (snd x) * MM_PAGE_SIZE else seg_page g x)" for x
    using i(1) y(1) by (auto simp: seg_page_def)
  have at: "\<exists>f. mapping v' (seg_page ?g x) = Some (f, VMM_MAP_WRITABLE) \<and> f \<in> used_frames p' \<and>
      (if fst x = i then f = fs ! snd x else mapping v (seg_page g x) = Some (f, VMM_MAP_WRITABLE) \<and> f \<in> used_frames p)" if "has_page ?g x" for x
  proof (cases "fst x = i")
    case True
    then have k: "snd x < n" using that hp by simp
    then have "fs ! snd x \<in> used_frames p'" using len(1,4) nth_mem by blast
    then show ?thesis using new [OF k] True sp by simp
  next
    case False
    then have h: "has_page g x" using that hp by simp
    obtain f where f: "mapping v (seg_page g x) = Some (f, VMM_MAP_WRITABLE)" "f \<in> used_frames p"
      using pages_okD [OF ok h] by blast
    then have "mapping v' (seg_page g x) = Some (f, VMM_MAP_WRITABLE)" using fr [of "seg_page g x"] by (auto split: if_splits)
    then show ?thesis using f len(5) False sp by auto
  qed
  have "x = y" if h: "has_page ?g x" "has_page ?g y" "mapping v' (seg_page ?g x) = Some (f, a)" "mapping v' (seg_page ?g y) = Some (f, b)" for x y f a b
  proof -
    have cx: "if fst x = i then f = fs ! snd x else mapping v (seg_page g x) = Some (f, VMM_MAP_WRITABLE) \<and> f \<in> used_frames p"
      using at [OF h(1)] h(3) by auto
    have cy: "if fst y = i then f = fs ! snd y else mapping v (seg_page g y) = Some (f, VMM_MAP_WRITABLE) \<and> f \<in> used_frames p"
      using at [OF h(2)] h(4) by auto
    have fresh: "fs ! k \<notin> used_frames p" if "k < n" for k using that len(1,3) disj nth_mem by blast
    show ?thesis
    proof (cases "fst x = i"; cases "fst y = i")
      assume b: "fst x = i" "fst y = i"
      then have "snd x = snd y" using cx cy h(1,2) hp len(1,2) by (simp add: nth_eq_iff_index_eq)
      then show ?thesis using b by (simp add: prod_eq_iff)
    next
      assume "fst x \<noteq> i" "fst y \<noteq> i"
      then show ?thesis using cx cy h(1,2) hp pages_ok_inj [OF ok, of x y f] by simp
    qed (use cx cy h(1,2) hp fresh in \<open>metis\<close>)+
  qed
  then show ?thesis unfolding pages_ok_def using at by blast
qed

section \<open>Creation\<close>

abbreviation seg_names :: "shm \<Rightarrow> nat \<Rightarrow> string option" where
  "seg_names g \<equiv> table_names seg_used seg_name (g_shm_segments g)"

lemma shm_find_scan:
  "shm_find_locked (Some nm) g = (case scan_names seg_used seg_name nm (g_shm_segments g) of None \<Rightarrow> - 1 | Some i \<Rightarrow> int i)"
  by (simp add: shm_find_locked_def shm_name_equal_def)

lemma open_segment_ok:
  fixes a sz ow :: u64
  assumes ok: "table_ok g" and nm: "cstring nm" "length nm < 32" "\<forall>i. seg_names g i \<noteq> Some nm"
    and i: "i < 32" "\<not> seg_used (g_shm_segments g ! i)"
  defines "g' \<equiv> g\<lparr>g_shm_segments := (g_shm_segments g)[i := open_segment (Some nm) a sz ow (g_shm_segments g ! i)],
      g_shm_segment_count := g_shm_segment_count g + 1\<rparr>"
  shows "table_ok g'" "seg_names g' = (seg_names g)(i := Some nm)"
proof -
  let ?y = "open_segment (Some nm) a sz ow (g_shm_segments g ! i)" and ?xs = "g_shm_segments g"
  note len = table_okD(1) [OF ok]
  have y: "seg_used ?y" "seg_name ?y = stored_name 32 nm"
    using nm(1,2) by (simp_all add: open_segment_def shm_name_copy_def name_copy_eq)
  have iy: "i < length ?xs" using i(1) len by simp
  note e = names_enter [OF table_okD(3) [OF ok] nm iy y]
  have o: "seg_ok ?y" by (simp add: open_segment_def seg_ok_def attached_def)
  have c: "card {j. j < length ?xs \<and> seg_used (?xs[i := ?y] ! j)} = Suc (card {j. j < length ?xs \<and> seg_used (?xs ! j)})"
    by (rule card_update_list_gain [OF iy]) (use i(2) y(1) in simp_all)
  have "card {j. j < length ?xs \<and> seg_used (?xs ! j)} \<le> card {..<length ?xs}" by (rule card_mono) auto
  then have "unat (g_shm_segment_count g) \<le> 32" using ok len by (simp add: table_ok_def)
  then have n: "unat (g_shm_segment_count g + 1) = unat (g_shm_segment_count g) + 1" by (subst unat_Suc_small) simp_all
  have "seg_ok sg" if "sg \<in> set (?xs[i := ?y])" for sg
    using set_update_subset_insert [of ?xs i ?y] that o ok by (auto simp: table_ok_def)
  then show "table_ok g'" using ok e(2) c n by (simp add: table_ok_def g'_def)
  show "seg_names g' = (seg_names g)(i := Some nm)" using e(1) by (simp add: g'_def)
qed

text \<open>What is left of a creation once its arguments are accepted.\<close>

definition create_accepted :: "string \<Rightarrow> u64 \<Rightarrow> u64 \<Rightarrow> shm \<times> vmm \<times> pmm \<Rightarrow> (int \<times> shm \<times> vmm \<times> pmm) option" where
  "create_accepted nm aligned_size owner m = (case m of (g, vp) \<Rightarrow>
     if shm_find_locked (Some nm) g \<ge> 0 then Some (shm_find_locked (Some nm) g, g, vp)
     else case first_index (\<lambda>sg. seg_in_use sg = 0) (g_shm_segments g) of
         None \<Rightarrow> Some (- 2, g, vp)
       | Some free_slot \<Rightarrow>
           (case vmm_alloc_kernel_pages (aligned_size div MM_PAGE_SIZE) VMM_MAP_WRITABLE vp of
              None \<Rightarrow> None
            | Some (mapping_addr, vp) \<Rightarrow>
                if mapping_addr = 0 then Some (- 3, g, vp)
                else Some (int free_slot,
                  g\<lparr>g_shm_segments := (g_shm_segments g)[free_slot :=
                       open_segment (Some nm) mapping_addr aligned_size owner (g_shm_segments g ! free_slot)],
                    g_shm_segment_count := g_shm_segment_count g + 1\<rparr>, vp)))"

lemma shm_create_accepts:
  assumes nm: "cstring nm"
  obtains "shm_create (Some nm) sz ow s (g, vp) = Some (- 1, g, vp)"
  | owner aligned_size where "length nm < 32" "shm_create (Some nm) sz ow s (g, vp) = create_accepted nm aligned_size owner (g, vp)"
proof (cases "sz = 0 \<or> shm_resolve_tid s ow = None \<or> \<not> length nm < 32 \<or>
    ((sz + (MM_PAGE_SIZE - 1)) AND NOT (MM_PAGE_SIZE - 1)) div MM_PAGE_SIZE = 0")
  case True
  have "ucast (shm_strnlen (Some nm) (ucast SHM_SEGMENT_NAME_MAX)) \<ge> SHM_SEGMENT_NAME_MAX \<longleftrightarrow> \<not> length nm < 32"
    using nm by (auto simp: shm_strnlen_def word_le_unat unat_ucast_small unat_ucast_up unat_of_nat min_def)
  then have "shm_create (Some nm) sz ow s (g, vp) = Some (- 1, g, vp)"
    using True unfolding shm_create_def by (auto simp: Let_def split: option.splits)
  then show ?thesis by (rule that(1))
next
  case False
  then obtain owner where owner: "shm_resolve_tid s ow = Some owner" by auto
  have l: "length nm < 32" using False by blast
  have "unat (shm_strnlen (Some nm) (ucast SHM_SEGMENT_NAME_MAX)) = length nm"
    using l nm by (simp add: shm_strnlen_def unat_ucast_small unat_of_nat)
  then have "\<not> SHM_SEGMENT_NAME_MAX \<le> ucast (shm_strnlen (Some nm) (ucast SHM_SEGMENT_NAME_MAX))"
    using l by (simp add: word_le_unat unat_ucast_up)
  with False owner show ?thesis by (intro that(2) [OF l]) (simp add: shm_create_def create_accepted_def Let_def)
qed

text \<open>The allocation of a new segment's pages.\<close>

lemma create_pages:
  assumes ok: "shm_ok (g, v, p)" and nm: "cstring nm" "length nm < 32" "\<forall>i. seg_names g i \<noteq> Some nm"
    and i: "i < 32" "\<not> seg_used (g_shm_segments g ! i)"
  obtains v' p' where "vmm_alloc_kernel_pages (al div MM_PAGE_SIZE) VMM_MAP_WRITABLE (v, p) = Some (0, v', p')" "shm_ok (g, v', p')"
  | a v' p' where "vmm_alloc_kernel_pages (al div MM_PAGE_SIZE) VMM_MAP_WRITABLE (v, p) = Some (a, v', p')" "a \<noteq> 0"
      "shm_ok (g\<lparr>g_shm_segments := (g_shm_segments g)[i := open_segment (Some nm) a al owner (g_shm_segments g ! i)],
         g_shm_segment_count := g_shm_segment_count g + 1\<rparr>, v', p')"
proof -
  have g: "table_ok g" "vm_ok v p" "heap_ok v" "pages_ok g v p" using ok by (simp_all add: shm_ok_def)
  obtain a v' p' where a: "vmm_alloc_kernel_pages (al div MM_PAGE_SIZE) VMM_MAP_WRITABLE (v, p) = Some (a, v', p')"
    "vm_ok v' p'" "heap_ok v'"
    "if a = 0 then (\<forall>w. mapping v' w = mapping v w) \<and> g_kernel_heap_next v' = g_kernel_heap_next v \<and> used_frames p \<subseteq> used_frames p' \<and>
       used_frames p' \<subseteq> used_frames p \<union> tables (vm_mem v') (g_pml4 v')
     else a = g_kernel_heap_next v \<and> (\<exists>fs. heap_grown VMM_MAP_WRITABLE (unat (al div MM_PAGE_SIZE)) fs (v, p) (v', p'))"
    using alloc_kernel_pages_effect [OF g(2,3), of "al div MM_PAGE_SIZE" VMM_MAP_WRITABLE] by blast
  show ?thesis
  proof (cases "a = 0")
    case True
    have "pages_ok g v' p'" using a(4) True by (intro pages_ok_keep [OF g(4)]) simp_all
    then have "shm_ok (g, v', p')" using g(1) a(2,3) by (simp add: shm_ok_def)
    then show ?thesis using that(1) a(1) True by blast
  next
    case False
    let ?y = "open_segment (Some nm) a al owner (g_shm_segments g ! i)"
    let ?g = "g\<lparr>g_shm_segments := (g_shm_segments g)[i := ?y], g_shm_segment_count := g_shm_segment_count g + 1\<rparr>"
    obtain fs where hg: "heap_grown VMM_MAP_WRITABLE (unat (al div MM_PAGE_SIZE)) fs (v, p) (v', p')" using a(4) False by auto
    have "unat al div 4096 = unat (al div MM_PAGE_SIZE)" by (simp add: unat_div MM_PAGE_SIZE_def)
    then have "pages_ok (g\<lparr>g_shm_segments := (g_shm_segments g)[i := ?y]\<rparr>) v' p'"
      using i table_okD(1) [OF g(1)] a(4) False by (intro pages_ok_new [OF g(4,2) hg]) (simp_all add: open_segment_def)
    then have "pages_ok ?g v' p'" by (rule pages_ok_cong [rotated 2]) (simp_all add: has_page_def seg_page_def)
    then have "shm_ok (?g, v', p')" using open_segment_ok(1) [OF g(1) nm i] a(2,3) by (simp add: shm_ok_def)
    then show ?thesis by (rule that(2) [OF a(1) False])
  qed
qed

text \<open>Everything a creation can do.\<close>

lemma shm_create_cases:
  assumes ok: "shm_ok (g, v, p)" and nm: "cstring nm"
  obtains r v' p' where "shm_create (Some nm) sz ow s (g, v, p) = Some (r, g, v', p')" "r < 0" "shm_ok (g, v', p')"
  | i where "seg_names g i = Some nm" "shm_create (Some nm) sz ow s (g, v, p) = Some (int i, g, v, p)"
  | i g' v' p' where "\<forall>i. seg_names g i \<noteq> Some nm" "seg_names g i = None"
      "shm_create (Some nm) sz ow s (g, v, p) = Some (int i, g', v', p')" "shm_ok (g', v', p')" "seg_names g' = (seg_names g)(i := Some nm)"
  using nm
proof (rule shm_create_accepts [where sz = sz and ow = ow and s = s and g = g and vp = "(v, p)"])
  assume "shm_create (Some nm) sz ow s (g, v, p) = Some (- 1, g, v, p)"
  then show ?thesis using that(1) ok by simp
next
  fix owner al
  assume l: "length nm < 32" and acc: "shm_create (Some nm) sz ow s (g, v, p) = create_accepted nm al owner (g, v, p)"
  have g: "table_ok g" using ok by (simp add: shm_ok_def)
  from table_okD(3) [OF g] nm show ?thesis
  proof (rule scan_names_cases)
    fix i
    assume "seg_names g i = Some nm" "scan_names seg_used seg_name nm (g_shm_segments g) = Some i"
    then show ?thesis using acc that(2) by (simp add: create_accepted_def shm_find_scan)
  next
    assume miss: "\<forall>i. seg_names g i \<noteq> Some nm" "scan_names seg_used seg_name nm (g_shm_segments g) = None"
    then have nf: "\<not> shm_find_locked (Some nm) g \<ge> 0" by (simp add: shm_find_scan del: first_index_None)
    note r = acc [unfolded create_accepted_def prod.case if_not_P [OF nf]]
    show ?thesis
    proof (cases "first_index (\<lambda>sg. seg_in_use sg = 0) (g_shm_segments g)")
      case None
      then show ?thesis using r that(1) ok by (simp del: first_index_None)
    next
      case (Some i)
      have i: "i < 32" "\<not> seg_used (g_shm_segments g ! i)" using first_index_SomeD [OF Some] table_okD(1) [OF g] by auto
      have none: "seg_names g i = None" using i(2) by (simp add: table_names_def)
      note r = r [unfolded Some option.case]
      from ok nm l miss(1) i show ?thesis
      proof (rule create_pages [where al = al and owner = owner])
        fix v' p'
        assume "vmm_alloc_kernel_pages (al div MM_PAGE_SIZE) VMM_MAP_WRITABLE (v, p) = Some (0, v', p')" "shm_ok (g, v', p')"
        then show ?thesis using r that(1) by simp
      next
        fix a v' p'
        assume a: "vmm_alloc_kernel_pages (al div MM_PAGE_SIZE) VMM_MAP_WRITABLE (v, p) = Some (a, v', p')" "a \<noteq> 0"
          and k: "shm_ok (g\<lparr>g_shm_segments := (g_shm_segments g)[i := open_segment (Some nm) a al owner (g_shm_segments g ! i)],
            g_shm_segment_count := g_shm_segment_count g + 1\<rparr>, v', p')"
        show ?thesis
          using that(3) [OF miss(1) none _ k open_segment_ok(2) [OF g nm l miss(1) i]] r a by simp
      qed
    qed
  qed
qed

section \<open>The registry of segments\<close>

abbreviation create_total :: "u64 \<Rightarrow> u64 \<Rightarrow> sched \<Rightarrow> string \<Rightarrow> shm \<times> vmm \<times> pmm \<Rightarrow> int \<times> shm \<times> vmm \<times> pmm" where
  "create_total sz ow s nm m \<equiv> (case shm_create (Some nm) sz ow s m of None \<Rightarrow> (- 1, m) | Some r \<Rightarrow> r)"

interpretation shm_reg: named_registry shm_ok "\<lambda>m. seg_names (fst m)" "\<lambda>nm m. shm_find (Some nm) (fst m)" "create_total sz ow s" for sz ow s
proof
  fix m :: "shm \<times> vmm \<times> pmm" and nm r t i j
  assume ok: "shm_ok m"
  obtain g v p where m: "m = (g, v, p)" by (cases m)
  have n: "names_ok seg_used seg_name (g_shm_segments g)" using ok unfolding m by (simp add: shm_ok_def table_ok_def)
  show "i = j" if "seg_names (fst m) i = Some nm" "seg_names (fst m) j = Some nm" using n that unfolding m names_ok_def by simp
  assume nm: "cstring nm"
  show "shm_find (Some nm) (fst m) = int i" if "seg_names (fst m) i = Some nm"
    using scan_names_hit [OF n nm] that unfolding m by (simp add: shm_find_def shm_find_scan)
  show "shm_find (Some nm) (fst m) = - 1" if "\<forall>i. seg_names (fst m) i \<noteq> Some nm"
    using scan_names_miss [OF n nm] that unfolding m by (simp add: shm_find_def shm_find_scan del: first_index_None)
  assume r: "create_total sz ow s nm m = (r, t)"
  show "r = int i \<and> t = m" if "seg_names (fst m) i = Some nm" "0 \<le> r"
    by (rule shm_create_cases [OF ok [unfolded m] nm, where sz = sz and ow = ow and s = s]) (use r that n m in \<open>auto simp: names_ok_def\<close>)
  show "seg_names (fst m) (nat r) = None \<and> seg_names (fst t) = (seg_names (fst m))(nat r := Some nm) \<and> shm_ok t"
    if "\<forall>i. seg_names (fst m) i \<noteq> Some nm" "0 \<le> r"
    by (rule shm_create_cases [OF ok [unfolded m] nm, where sz = sz and ow = ow and s = s]) (use r that m in auto)
  show "seg_names (fst t) = seg_names (fst m) \<and> shm_ok t" if "r < 0"
    by (rule shm_create_cases [OF ok [unfolded m] nm, where sz = sz and ow = ow and s = s]) (use r that m in auto)
qed

section \<open>Runs\<close>

datatype shm_op = Shm_Create string u64 u64 sched | Shm_Attach int u64 sched | Shm_Detach int u64 sched

fun shm_exec :: "shm_op \<Rightarrow> shm \<times> vmm \<times> pmm \<Rightarrow> (shm \<times> vmm \<times> pmm) option" where
  "shm_exec (Shm_Create nm sz ow s) m = map_option snd (shm_create (Some nm) sz ow s m)"
| "shm_exec (Shm_Attach i t s) m = Some (snd (snd (shm_attach i t True s (fst m))), snd m)"
| "shm_exec (Shm_Detach i t s) m = Some (snd (shm_detach i t s (fst m)), snd m)"

fun shm_run :: "shm_op list \<Rightarrow> shm \<times> vmm \<times> pmm \<Rightarrow> (shm \<times> vmm \<times> pmm) option" where
  "shm_run [] m = Some m"
| "shm_run (op # ops) m = (case shm_exec op m of None \<Rightarrow> None | Some m \<Rightarrow> shm_run ops m)"

fun op_named :: "shm_op \<Rightarrow> bool" where
  "op_named (Shm_Create nm sz ow s) = cstring nm"
| "op_named _ = True"

lemma attach_frame [simp]:
  "seg_in_use (attach_task t sg) = seg_in_use sg" "seg_name (attach_task t sg) = seg_name sg"
  "seg_base (attach_task t sg) = seg_base sg" "seg_size (attach_task t sg) = seg_size sg"
  "seg_in_use (detach_task n sg) = seg_in_use sg" "seg_name (detach_task n sg) = seg_name sg"
  "seg_base (detach_task n sg) = seg_base sg" "seg_size (detach_task n sg) = seg_size sg"
  by (simp_all add: attach_task_def detach_task_def Let_def)

text \<open>Attaching and detaching, on a table that is well formed.\<close>

lemma shm_attach_spec:
  assumes ok: "table_ok g" and t: "shm_resolve_tid s req = Some t" and i: "0 \<le> sid" "segment_index sid < 32"
    and u: "seg_used (g_shm_segments g ! segment_index sid)"
  shows "shm_attach sid req True s g = (let i = segment_index sid; sg = g_shm_segments g ! i in
      if t \<in> set (attached sg) then (0, Some (seg_base sg, seg_size sg), g)
      else if length (attached sg) = 32 then (- 3, None, g)
      else (0, Some (seg_base sg, seg_size sg), g\<lparr>g_shm_segments := (g_shm_segments g)[i := attach_task t sg]\<rparr>))"
proof -
  let ?sg = "g_shm_segments g ! segment_index sid"
  have k: "seg_ok ?sg" using table_okD(2) [OF ok i(2)] .
  have "ucast (seg_attachments ?sg) \<ge> SHM_MAX_ATTACHMENTS \<longleftrightarrow> length (attached ?sg) = 32"
    using k seg_okD(1) [OF k] by (auto simp: word_le_unat unat_ucast_up seg_ok_def)
  then show ?thesis using t i u find_attachment(1) [of ?sg t] by (simp add: shm_attach_def Let_def)
qed

lemma shm_detach_spec:
  assumes t: "shm_resolve_tid s req = Some t" and i: "0 \<le> sid" "segment_index sid < 32" and u: "seg_used (g_shm_segments g ! segment_index sid)"
  shows "shm_detach sid req s g = (let i = segment_index sid; sg = g_shm_segments g ! i in
      if t \<in> set (attached sg)
      then (0, g\<lparr>g_shm_segments := (g_shm_segments g)[i := detach_task (nat (shm_find_attachment_locked sg t)) sg]\<rparr>)
      else (- 3, g))"
  using t i u find_attachment(1) [of "g_shm_segments g ! segment_index sid" t] by (simp add: shm_detach_def Let_def)

lemma shm_attach_ok:
  assumes ok: "shm_ok (g, v, p)"
  shows "shm_ok (snd (snd (shm_attach sid req True s g)), v, p)"
proof (cases "snd (snd (shm_attach sid req True s g)) = g")
  case False
  let ?i = "segment_index sid" let ?sg = "g_shm_segments g ! ?i"
  have tk: "table_ok g" "pages_ok g v p" using ok by (simp_all add: shm_ok_def)
  obtain t where t: "shm_resolve_tid s req = Some t" and i: "0 \<le> sid" "?i < 32" and u: "seg_used ?sg"
    using False by (auto simp: shm_attach_def Let_def split: if_splits option.splits)
  note sp = shm_attach_spec [OF tk(1) t i u, unfolded Let_def]
  have c: "t \<notin> set (attached ?sg)" "length (attached ?sg) \<noteq> 32" using False sp by (auto split: if_splits)
  note k = table_okD(2) [OF tk(1) i(2)]
  have "unat (seg_attachments ?sg) < 32" using c(2) seg_okD(1) [OF k] k by (simp add: seg_ok_def)
  note a = attach_ok [OF k this c(1)]
  have "snd (snd (shm_attach sid req True s g)) = g\<lparr>g_shm_segments := (g_shm_segments g)[?i := attach_task t ?sg]\<rparr>" using sp c by simp
  then show ?thesis using upd_seg_ok [OF tk(1) i(2) a(2)] tk(2) ok by (simp add: shm_ok_def)
qed (use ok in simp)

lemma shm_detach_ok:
  assumes ok: "shm_ok (g, v, p)"
  shows "shm_ok (snd (shm_detach sid req s g), v, p)"
proof (cases "snd (shm_detach sid req s g) = g")
  case False
  let ?i = "segment_index sid" let ?sg = "g_shm_segments g ! ?i"
  have tk: "table_ok g" "pages_ok g v p" using ok by (simp_all add: shm_ok_def)
  obtain t where t: "shm_resolve_tid s req = Some t" and i: "0 \<le> sid" "?i < 32" and u: "seg_used ?sg"
    using False by (auto simp: shm_detach_def Let_def split: if_splits option.splits)
  note sp = shm_detach_spec [OF t i u, unfolded Let_def]
  have c: "t \<in> set (attached ?sg)" using False sp by (auto split: if_splits)
  note a = detach_ok [OF table_okD(2) [OF tk(1) i(2)] conjunct1 [OF find_attachment(2) [OF c]]]
  then show ?thesis using upd_seg_ok [OF tk(1) i(2) a(2)] tk(2) ok sp c by (simp add: shm_ok_def)
qed (use ok in simp)

lemma shm_exec_ok:
  assumes "shm_ok m" "op_named op"
  shows "\<exists>m'. shm_exec op m = Some m' \<and> shm_ok m'"
proof -
  obtain g v p where m: "m = (g, v, p)" by (cases m)
  note ok = assms(1) [unfolded m]
  show ?thesis
  proof (cases op)
    case (Shm_Create nm sz ow s)
    then have nm: "cstring nm" using assms(2) by simp
    show ?thesis unfolding m Shm_Create
      by (rule shm_create_cases [OF ok nm, where sz = sz and ow = ow and s = s]) (use ok in auto)
  qed (use shm_attach_ok [OF ok] shm_detach_ok [OF ok] in \<open>simp_all add: m\<close>)
qed

lemma shm_run_ok:
  assumes "shm_ok m" "\<forall>op\<in>set ops. op_named op"
  shows "\<exists>m'. shm_run ops m = Some m' \<and> shm_ok m'"
  using assms
proof (induction ops arbitrary: m)
  case (Cons op ops)
  obtain m1 where "shm_exec op m = Some m1" "shm_ok m1" using shm_exec_ok [OF Cons.prems(1), of op] Cons.prems(2) by (meson list.set_intros(1))
  then show ?case using Cons.IH [of m1] Cons.prems(2) by simp
qed simp

lemma shm_init_ok:
  assumes "length (g_shm_segments g) = 32" "vm_ok v p" "heap_ok v"
  shows "shm_ok (shm_init g, v, p)"
proof -
  have u: "\<forall>sg\<in>set (g_shm_segments (shm_init g)). \<not> seg_used sg" by (auto simp: shm_init_def)
  have "{i. i < length (g_shm_segments (shm_init g)) \<and> seg_used (g_shm_segments (shm_init g) ! i)} = {}" using u nth_mem by blast
  moreover have "names_ok seg_used seg_name (g_shm_segments (shm_init g))" by (rule names_empty(2) [OF u])
  moreover have "\<forall>sg\<in>set (g_shm_segments (shm_init g)). seg_ok sg" by (auto simp: shm_init_def seg_ok_def attached_def)
  moreover have "length (g_shm_segments (shm_init g)) = 32" "g_shm_segment_count (shm_init g) = 0" using assms(1) by (simp_all add: shm_init_def)
  ultimately have "table_ok (shm_init g)" by (simp add: table_ok_def)
  moreover have "\<not> has_page (shm_init g) x" for x unfolding has_page_def using u nth_mem by blast
  ultimately show ?thesis using assms(2,3) by (simp add: shm_ok_def pages_ok_def)
qed

section \<open>Properties\<close>

text \<open>
  C12. Segments are isolated.  After initialisation, every sequence of creations, attachments and
  detachments returns, and then every page of every segment is mapped, writable, to a frame the page
  allocator has given out, no two pages of any segments, the same or different, share a frame, each
  segment's attached tasks are distinct and at most 32, and an attachment that succeeds hands out
  exactly the address and size of a segment in use.
\<close>

theorem shm_isolation:
  assumes "length (g_shm_segments g) = 32" "vm_ok v p" "heap_ok v" "\<forall>op\<in>set ops. op_named op"
  shows "\<exists>g' v' p'. shm_run ops (shm_init g, v, p) = Some (g', v', p') \<and>
    (\<forall>x. has_page g' x \<longrightarrow> (\<exists>f. mapping v' (seg_page g' x) = Some (f, VMM_MAP_WRITABLE) \<and> f \<in> used_frames p')) \<and>
    (\<forall>x y f fl fl'. has_page g' x \<longrightarrow> has_page g' y \<longrightarrow> mapping v' (seg_page g' x) = Some (f, fl) \<longrightarrow>
       mapping v' (seg_page g' y) = Some (f, fl') \<longrightarrow> x = y) \<and>
    (\<forall>i<32. distinct (attached (g_shm_segments g' ! i)) \<and> length (attached (g_shm_segments g' ! i)) \<le> 32) \<and>
    (\<forall>sid req s a n g1. shm_attach sid req True s g' = (0, Some (a, n), g1) \<longrightarrow>
       (\<exists>i<32. seg_used (g_shm_segments g' ! i) \<and> seg_base (g_shm_segments g' ! i) = a \<and> seg_size (g_shm_segments g' ! i) = n))"
proof -
  obtain m' where m': "shm_run ops (shm_init g, v, p) = Some m'" "shm_ok m'"
    using shm_run_ok [OF shm_init_ok [OF assms(1-3)] assms(4)] by blast
  obtain g' v' p' where "m' = (g', v', p')" by (cases m')
  note r = m' [unfolded this]
  have tk: "table_ok g'" "pages_ok g' v' p'" using r(2) by (simp_all add: shm_ok_def)
  have "distinct (attached (g_shm_segments g' ! i)) \<and> length (attached (g_shm_segments g' ! i)) \<le> 32" if i: "i < 32" for i
  proof -
    have k: "seg_ok (g_shm_segments g' ! i)" by (rule table_okD(2) [OF tk(1) i])
    then show ?thesis unfolding seg_okD(1) [OF k] seg_ok_def by blast
  qed
  moreover have "\<exists>i<32. seg_used (g_shm_segments g' ! i) \<and> seg_base (g_shm_segments g' ! i) = a \<and> seg_size (g_shm_segments g' ! i) = n"
    if "shm_attach sid req True s g' = (0, Some (a, n), g1)" for sid req s a n g1
    using that by (intro exI [of _ "segment_index sid"]) (auto simp: shm_attach_def Let_def split: if_splits option.splits)
  ultimately show ?thesis using r(1) tk(2) unfolding pages_ok_def by blast
qed

definition shm_demo :: shm where
  "shm_demo = \<lparr>g_shm_segments = replicate 32 \<lparr>seg_in_use = 0, seg_name = replicate 32 NUL, seg_base = 0, seg_size = 0,
     seg_owner_tid = 0, seg_attachments = 0, seg_attached_tids = replicate 32 0\<rparr>, g_shm_segment_count = 0\<rparr>"

definition shm_demo_ops :: "shm_op list" where
  "shm_demo_ops = [Shm_Create ''frame'' 100 0 sched_bss, Shm_Attach 0 5 sched_bss]"

theorem shm_isolation_witness:
  "\<exists>g' v' p'. shm_run shm_demo_ops (shm_init shm_demo, vmm_demo, pmm_demo) = Some (g', v', p') \<and>
     seg_base (g_shm_segments g' ! 0) = 0x40000000 \<and> attached (g_shm_segments g' ! 0) = [5] \<and>
     (\<exists>f. mapping v' 0x40000000 = Some (f, VMM_MAP_WRITABLE) \<and> f \<in> used_frames p')"
proof -
  have h: "heap_ok vmm_demo" by (simp add: heap_ok_def vmm_demo_def page_aligned_def VMM_PAGE_OFFSET_MASK_def)
  have l: "length (g_shm_segments shm_demo) = 32" and n: "\<forall>op\<in>set shm_demo_ops. op_named op"
    by (simp_all add: shm_demo_def shm_demo_ops_def cstring_def)
  obtain g' v' p' where r: "shm_run shm_demo_ops (shm_init shm_demo, vmm_demo, pmm_demo) = Some (g', v', p')"
    and pg: "\<forall>x. has_page g' x \<longrightarrow> (\<exists>f. mapping v' (seg_page g' x) = Some (f, VMM_MAP_WRITABLE) \<and> f \<in> used_frames p')"
    using shm_isolation [OF l vmm_demo_ok h n] by blast
  have "map_option (\<lambda>m. let sg = g_shm_segments (fst m) ! 0 in (seg_base sg, attached sg, seg_in_use sg, seg_size sg, length (g_shm_segments (fst m))))
      (shm_run shm_demo_ops (shm_init shm_demo, vmm_demo, pmm_demo)) = Some (0x40000000, [5], 1, 4096, 32)" by code_simp
  then have e: "seg_base (g_shm_segments g' ! 0) = 0x40000000" "attached (g_shm_segments g' ! 0) = [5]" "has_page g' (0, 0)"
    unfolding r by (auto simp: Let_def has_page_def)
  then show ?thesis using r pg [rule_format, OF e(3)] by (auto simp: seg_page_def)
qed

lemma detach_attach:
  assumes ok: "seg_ok sg" and n: "unat (seg_attachments sg) < 32" and t: "t \<notin> set (attached sg)"
  shows "detach_task (nat (shm_find_attachment_locked (attach_task t sg) t)) (attach_task t sg) = sg"
proof -
  let ?a = "attach_task t sg" and ?i = "length (attached sg)"
  note a = attach_ok [OF ok n t]
  have "first_index (\<lambda>x. x = t) (attached ?a) = Some ?i"
    unfolding a(1) by (rule first_index_SomeI) (use t in \<open>auto simp: nth_append\<close>)
  then have i: "nat (shm_find_attachment_locked ?a t) = ?i" by (simp add: shm_find_attachment_locked_def attached_def [symmetric])
  note d = detach_ok [OF a(2), of ?i, unfolded a(1), simplified]
  have n1: "unat (seg_attachments sg + 1) = Suc (unat (seg_attachments sg))" using n by (subst unat_Suc_small) simp_all
  then have "0 < seg_attachments sg + 1" by (simp add: word_less_unat)
  then have c: "seg_attachments (detach_task ?i ?a) = seg_attachments sg" by (simp add: detach_task_def attach_task_def)
  then have "seg_attached_tids (detach_task ?i ?a) = seg_attached_tids sg" using d ok unfolding seg_ok_def by metis
  then show ?thesis unfolding i using c by (simp add: detach_task_def attach_task_def Let_def split: if_splits)
qed

text \<open>
  C24. Detaching undoes attaching.  When a task that is not yet attached to a segment attaches to it
  successfully and then detaches, both under its own identity, the whole table of segments is what it
  was, the unused entries of the attachment array included.
\<close>

theorem shm_attach_detach_roundtrip:
  assumes ok: "table_ok g" and t: "shm_resolve_tid s req = Some t" "t \<notin> set (attached (g_shm_segments g ! segment_index sid))"
    and a: "shm_attach sid req True s g = (0, Some r, g')"
  shows "shm_detach sid req s g' = (0, g)"
proof -
  let ?i = "segment_index sid" let ?sg = "g_shm_segments g ! ?i"
  have i: "0 \<le> sid" "?i < 32" "seg_used ?sg" using a t(1) by (auto simp: shm_attach_def Let_def split: if_splits)
  note sp = shm_attach_spec [OF ok t(1) i, unfolded Let_def a]
  have l: "length (attached ?sg) \<noteq> 32" and g': "g' = g\<lparr>g_shm_segments := (g_shm_segments g)[?i := attach_task t ?sg]\<rparr>"
    using sp t(2) by (auto split: if_splits)
  note k = table_okD(2) [OF ok i(2)]
  have n: "unat (seg_attachments ?sg) < 32" using l seg_okD(1) [OF k] k by (simp add: seg_ok_def)
  have s: "g_shm_segments g' ! ?i = attach_task t ?sg" using i(2) table_okD(1) [OF ok] by (simp add: g')
  have "t \<in> set (attached (attach_task t ?sg))" using attach_ok(1) [OF k n t(2)] by simp
  then show ?thesis
    using shm_detach_spec [OF t(1) i(1,2), of g', unfolded s Let_def] i(3) detach_attach [OF k n t(2)] by (simp add: g')
qed

theorem shm_attach_detach_roundtrip_witness:
  "\<exists>g v p g'. shm_run [Shm_Create ''frame'' 100 0 sched_bss] (shm_init shm_demo, vmm_demo, pmm_demo) = Some (g, v, p) \<and>
     shm_attach 0 9 True sched_bss g = (0, Some (0x40000000, 4096), g') \<and> shm_detach 0 9 sched_bss g' = (0, g)"
proof -
  let ?run = "shm_run [Shm_Create ''frame'' 100 0 sched_bss] (shm_init shm_demo, vmm_demo, pmm_demo)"
  have h: "heap_ok vmm_demo" by (simp add: heap_ok_def vmm_demo_def page_aligned_def VMM_PAGE_OFFSET_MASK_def)
  have l: "length (g_shm_segments shm_demo) = 32" by (simp add: shm_demo_def)
  obtain m where m: "?run = Some m" "shm_ok m"
    using shm_run_ok [OF shm_init_ok [OF l vmm_demo_ok h], of "[Shm_Create ''frame'' 100 0 sched_bss]"] by (auto simp: cstring_def)
  obtain g v p where gvp: "m = (g, v, p)" by (cases m)
  have tk: "table_ok g" using m(2) by (simp add: gvp shm_ok_def)
  have e: "map_option (\<lambda>m. let a = shm_attach 0 9 True sched_bss (fst m) in (fst a, fst (snd a), attached (g_shm_segments (fst m) ! segment_index 0)))
      ?run = Some (0, Some (0x40000000, 4096), [])" "shm_resolve_tid sched_bss 9 = Some 9" by code_simp+
  have c: "shm_attach 0 9 True sched_bss g = (0, Some (0x40000000, 4096), snd (snd (shm_attach 0 9 True sched_bss g)))"
    "9 \<notin> set (attached (g_shm_segments g ! segment_index 0))" "shm_resolve_tid sched_bss 9 = Some 9"
    using e(1) [unfolded m(1)] e(2) by (auto simp: gvp Let_def prod_eq_iff)
  show ?thesis using m(1) gvp c(1) shm_attach_detach_roundtrip [OF tk c(3,2,1)] by blast
qed

end
