(* ===== verification/Ports.thy ===== *)
theory Ports
  imports Prelude
begin

text \<open>
  Port input and output, kernel/include/gnuos/io.h.  The device behind the ports is not part of the
  kernel: it is a state of any type with four operations, a parameter of every driver.  Reading a
  port may change the device.
\<close>

record 'd io =
  in8 :: "u16 \<Rightarrow> 'd \<Rightarrow> u8 \<times> 'd"
  out8 :: "u16 \<Rightarrow> u8 \<Rightarrow> 'd \<Rightarrow> 'd"
  in32 :: "u16 \<Rightarrow> 'd \<Rightarrow> u32 \<times> 'd"
  out32 :: "u16 \<Rightarrow> u32 \<Rightarrow> 'd \<Rightarrow> 'd"

definition io_out8 :: "'d io \<Rightarrow> u16 \<Rightarrow> u8 \<Rightarrow> 'd \<Rightarrow> 'd" where
  "io_out8 io port v d = out8 io port v d"

definition io_in8 :: "'d io \<Rightarrow> u16 \<Rightarrow> 'd \<Rightarrow> u8 \<times> 'd" where
  "io_in8 io port d = in8 io port d"

definition io_out32 :: "'d io \<Rightarrow> u16 \<Rightarrow> u32 \<Rightarrow> 'd \<Rightarrow> 'd" where
  "io_out32 io port v d = out32 io port v d"

definition io_in32 :: "'d io \<Rightarrow> u16 \<Rightarrow> 'd \<Rightarrow> u32 \<times> 'd" where
  "io_in32 io port d = in32 io port d"

definition io_wait :: "'d io \<Rightarrow> 'd \<Rightarrow> 'd" where
  "io_wait io d = io_out8 io 0x80 0 d"

text \<open>A polling loop with a counter below a bound ends.\<close>

lemma spin_decreases: "(spins :: u32) < limit \<Longrightarrow> unat limit - unat (spins + 1) < unat limit - unat spins"
proof -
  assume l: "spins < limit"
  then have "unat (spins + 1) = unat spins + 1" by (rule unat_Suc_less)
  moreover have "unat spins < unat limit" using l by (simp add: word_less_unat)
  ultimately show ?thesis by simp
qed

end
