(* ===== verification/Keyboard.thy ===== *)
theory Keyboard
  imports Ports Fifo
begin

text \<open>
  The PS/2 keyboard, kernel/drivers/char/ps2_keyboard.c: the controller's handshakes over the I/O
  ports, the decoding of scan codes with their modifiers, and the buffer of characters.  A character
  is its code; the tables hold codes below 128 only, where signed and unsigned comparison agree.
\<close>

section \<open>Constants and tables\<close>

definition PS2_DATA_PORT :: u16 where "PS2_DATA_PORT = 0x60"
definition PS2_STATUS_PORT :: u16 where "PS2_STATUS_PORT = 0x64"
definition PS2_COMMAND_PORT :: u16 where "PS2_COMMAND_PORT = 0x64"
definition PS2_STATUS_OUTPUT_FULL :: u8 where "PS2_STATUS_OUTPUT_FULL = 0x01"
definition PS2_STATUS_INPUT_FULL :: u8 where "PS2_STATUS_INPUT_FULL = 0x02"
definition PS2_STATUS_AUX_DATA :: u8 where "PS2_STATUS_AUX_DATA = 0x20"
definition PS2_CMD_ENABLE_PORT1 :: u8 where "PS2_CMD_ENABLE_PORT1 = 0xAE"
definition PS2_KBD_SET_SCANCODE :: u8 where "PS2_KBD_SET_SCANCODE = 0xF0"
definition PS2_KBD_ENABLE_SCANNING :: u8 where "PS2_KBD_ENABLE_SCANNING = 0xF4"
definition PS2_KBD_DISABLE_SCANNING :: u8 where "PS2_KBD_DISABLE_SCANNING = 0xF5"
definition PS2_KBD_ACK :: u8 where "PS2_KBD_ACK = 0xFA"
definition PS2_KBD_RESEND :: u8 where "PS2_KBD_RESEND = 0xFE"
definition KBD_BUFFER_SIZE :: u64 where "KBD_BUFFER_SIZE = 128"
definition PS2_SPIN_LIMIT :: u32 where "PS2_SPIN_LIMIT = 100000"

text \<open>An array of 128 characters given by its rows: a first index and the characters from there on.\<close>

definition scancode_table :: "(nat \<times> u8 list) list \<Rightarrow> u8 list" where
  "scancode_table rows = fold (\<lambda>(i, cs) t. take i t @ cs @ drop (i + length cs) t) rows (replicate 128 0)"

definition codes :: "string \<Rightarrow> u8 list" where
  "codes s = map of_char s"

definition g_scancode_set1_plain :: "u8 list" where
  "g_scancode_set1_plain = scancode_table
     [(0x01, [27]), (0x02, codes ''1234567890-=''), (0x0E, [8, 9]), (0x10, codes ''qwertyuiop[]''), (0x1C, [10]),
      (0x1E, codes ''asdfghjkl;''), (0x28, [39, 96]), (0x2B, [92]), (0x2C, codes ''zxcvbnm,./''), (0x39, codes '' '')]"

definition g_scancode_set1_shifted :: "u8 list" where
  "g_scancode_set1_shifted = scancode_table
     [(0x01, [27]), (0x02, codes ''!@#$%^&*()_+''), (0x0E, [8, 9]), (0x10, codes ''QWERTYUIOP{}''), (0x1C, [10]),
      (0x1E, codes ''ASDFGHJKL:''), (0x28, [34, 126]), (0x2B, codes ''|''), (0x2C, codes ''ZXCVBNM<>?''), (0x39, codes '' '')]"

record kbd =
  g_ps2_irq_count :: u64
  g_ps2_last_scancode :: u8
  g_kbd_buffer :: "u8 list"
  g_kbd_head :: u64
  g_kbd_tail :: u64
  g_kbd_shift :: bool
  g_kbd_left_shift :: bool
  g_kbd_right_shift :: bool
  g_kbd_ctrl :: bool
  g_kbd_alt :: bool
  g_kbd_caps_lock :: bool
  g_kbd_extended_prefix :: bool

section \<open>The controller\<close>

function wait_write_loop :: "'d io \<Rightarrow> u32 \<Rightarrow> 'd \<Rightarrow> bool \<times> 'd" where
  "wait_write_loop io spins d =
     (if spins < PS2_SPIN_LIMIT then
        let (status, d) = io_in8 io PS2_STATUS_PORT d in
        if status AND PS2_STATUS_INPUT_FULL = 0 then (True, d) else wait_write_loop io (spins + 1) d
      else (False, d))"
  by pat_completeness auto
termination by (relation "measure (\<lambda>(io, spins, d). unat PS2_SPIN_LIMIT - unat spins)") (auto intro: spin_decreases)

declare wait_write_loop.simps [simp del]

definition ps2_wait_for_write :: "'d io \<Rightarrow> 'd \<Rightarrow> bool \<times> 'd" where
  "ps2_wait_for_write io d = wait_write_loop io 0 d"

function wait_read_loop :: "'d io \<Rightarrow> u32 \<Rightarrow> 'd \<Rightarrow> bool \<times> 'd" where
  "wait_read_loop io spins d =
     (if spins < PS2_SPIN_LIMIT then
        let (status, d) = io_in8 io PS2_STATUS_PORT d in
        if status AND PS2_STATUS_OUTPUT_FULL \<noteq> 0 then (True, d) else wait_read_loop io (spins + 1) d
      else (False, d))"
  by pat_completeness auto
termination by (relation "measure (\<lambda>(io, spins, d). unat PS2_SPIN_LIMIT - unat spins)") (auto intro: spin_decreases)

declare wait_read_loop.simps [simp del]

definition ps2_wait_for_read :: "'d io \<Rightarrow> 'd \<Rightarrow> bool \<times> 'd" where
  "ps2_wait_for_read io d = wait_read_loop io 0 d"

definition ps2_write_command :: "'d io \<Rightarrow> u8 \<Rightarrow> 'd \<Rightarrow> bool \<times> 'd" where
  "ps2_write_command io v d =
     (let (ready, d) = ps2_wait_for_write io d in if \<not> ready then (False, d) else (True, io_out8 io PS2_COMMAND_PORT v d))"

definition ps2_write_data :: "'d io \<Rightarrow> u8 \<Rightarrow> 'd \<Rightarrow> bool \<times> 'd" where
  "ps2_write_data io v d =
     (let (ready, d) = ps2_wait_for_write io d in if \<not> ready then (False, d) else (True, io_out8 io PS2_DATA_PORT v d))"

fun flush_loop :: "'d io \<Rightarrow> nat \<Rightarrow> 'd \<Rightarrow> 'd" where
  "flush_loop io 0 d = d"
| "flush_loop io (Suc k) d =
     (let (status, d) = io_in8 io PS2_STATUS_PORT d in
      if status AND PS2_STATUS_OUTPUT_FULL = 0 then d
      else flush_loop io k (io_wait io (snd (io_in8 io PS2_DATA_PORT d))))"

definition ps2_flush_output :: "'d io \<Rightarrow> 'd \<Rightarrow> 'd" where
  "ps2_flush_output io d = flush_loop io 64 d"

fun ack_loop :: "'d io \<Rightarrow> nat \<Rightarrow> 'd \<Rightarrow> bool \<times> 'd" where
  "ack_loop io 0 d = (False, d)"
| "ack_loop io (Suc k) d =
     (let (ready, d) = ps2_wait_for_read io d in
      if \<not> ready then (False, d)
      else
        let (response, d) = io_in8 io PS2_DATA_PORT d in
        if response = PS2_KBD_ACK then (True, d)
        else if response \<noteq> PS2_KBD_RESEND then (False, d)
        else ack_loop io k d)"

definition ps2_expect_ack :: "'d io \<Rightarrow> 'd \<Rightarrow> bool \<times> 'd" where
  "ps2_expect_ack io d = ack_loop io 4 d"

fun command_loop :: "'d io \<Rightarrow> nat \<Rightarrow> u8 \<Rightarrow> 'd \<Rightarrow> bool \<times> 'd" where
  "command_loop io 0 cmd d = (False, d)"
| "command_loop io (Suc k) cmd d =
     (let (written, d) = ps2_write_data io cmd d in
      if \<not> written then (False, d)
      else
        let (acked, d) = ps2_expect_ack io d in
        if acked then (True, d) else command_loop io k cmd d)"

definition ps2_send_keyboard_command :: "'d io \<Rightarrow> u8 \<Rightarrow> 'd \<Rightarrow> bool \<times> 'd" where
  "ps2_send_keyboard_command io cmd d = command_loop io 3 cmd d"

definition ps2_send_keyboard_command_with_arg :: "'d io \<Rightarrow> u8 \<Rightarrow> u8 \<Rightarrow> 'd \<Rightarrow> bool \<times> 'd" where
  "ps2_send_keyboard_command_with_arg io cmd arg d =
     (let (sent, d) = ps2_send_keyboard_command io cmd d in
      if \<not> sent then (False, d)
      else
        let (written, d) = ps2_write_data io arg d in
        if \<not> written then (False, d) else ps2_expect_ack io d)"

section \<open>The buffer\<close>

definition kbd_next :: "u64 \<Rightarrow> u64" where
  "kbd_next i = (i + 1) mod KBD_BUFFER_SIZE"

text \<open>\<open>None\<close> is the early return of a full buffer.\<close>

definition kbd_store :: "u8 \<Rightarrow> kbd \<Rightarrow> kbd option" where
  "kbd_store ch k =
     (if kbd_next (g_kbd_head k) = g_kbd_tail k then None
      else Some (k\<lparr>g_kbd_buffer := (g_kbd_buffer k)[unat (g_kbd_head k) := ch], g_kbd_head := kbd_next (g_kbd_head k)\<rparr>))"

definition kbd_buffer_push :: "u8 \<Rightarrow> kbd \<Rightarrow> kbd" where
  "kbd_buffer_push ch k = (if ch = 0 then k else case kbd_store ch k of None \<Rightarrow> k | Some k \<Rightarrow> k)"

definition kbd_buffer_pop :: "kbd \<Rightarrow> int \<times> kbd" where
  "kbd_buffer_pop k =
     (if g_kbd_head k = g_kbd_tail k then (- 1, k)
      else (int (unat (g_kbd_buffer k ! unat (g_kbd_tail k))), k\<lparr>g_kbd_tail := kbd_next (g_kbd_tail k)\<rparr>))"

section \<open>Decoding\<close>

definition kbd_is_alpha :: "u8 \<Rightarrow> bool" where
  "kbd_is_alpha ch \<longleftrightarrow> (ch \<ge> of_char CHR ''a'' \<and> ch \<le> of_char CHR ''z'') \<or> (ch \<ge> of_char CHR ''A'' \<and> ch \<le> of_char CHR ''Z'')"

definition kbd_update_modifiers :: "u8 \<Rightarrow> bool \<Rightarrow> bool \<Rightarrow> kbd \<Rightarrow> kbd" where
  "kbd_update_modifiers scancode released extended k =
     (if extended then
        if scancode = 0x1D then k\<lparr>g_kbd_ctrl := \<not> released\<rparr>
        else if scancode = 0x38 then k\<lparr>g_kbd_alt := \<not> released\<rparr>
        else k
      else if scancode = 0x2A then k\<lparr>g_kbd_left_shift := \<not> released, g_kbd_shift := \<not> released \<or> g_kbd_right_shift k\<rparr>
      else if scancode = 0x36 then k\<lparr>g_kbd_right_shift := \<not> released, g_kbd_shift := g_kbd_left_shift k \<or> \<not> released\<rparr>
      else if scancode = 0x1D then k\<lparr>g_kbd_ctrl := \<not> released\<rparr>
      else if scancode = 0x38 then k\<lparr>g_kbd_alt := \<not> released\<rparr>
      else if scancode = 0x3A then (if \<not> released then k\<lparr>g_kbd_caps_lock := \<not> g_kbd_caps_lock k\<rparr> else k)
      else k)"

definition kbd_translate_make_scancode :: "u8 \<Rightarrow> kbd \<Rightarrow> u8" where
  "kbd_translate_make_scancode scancode k =
     (let plain = g_scancode_set1_plain ! unat scancode;
          shifted = g_scancode_set1_shifted ! unat scancode;
          result = (if kbd_is_alpha plain
                    then if g_kbd_caps_lock k \<noteq> g_kbd_shift k then plain - (of_char CHR ''a'' - of_char CHR ''A'') else plain
                    else if g_kbd_shift k then shifted else plain)
      in if g_kbd_ctrl k \<and> kbd_is_alpha result
         then if result \<ge> of_char CHR ''a'' \<and> result \<le> of_char CHR ''z'' then result - of_char CHR ''a'' + 1
              else result - of_char CHR ''A'' + 1
         else result)"

definition kbd_handle_scancode :: "u8 \<Rightarrow> kbd \<Rightarrow> kbd" where
  "kbd_handle_scancode raw_scancode k =
     (if raw_scancode = 0xE0 \<or> raw_scancode = 0xE1 then k\<lparr>g_kbd_extended_prefix := True\<rparr>
      else
        let released = raw_scancode AND 0x80 \<noteq> 0;
            scancode = raw_scancode AND 0x7F;
            extended = g_kbd_extended_prefix k;
            k = kbd_update_modifiers scancode released extended (k\<lparr>g_kbd_extended_prefix := False\<rparr>)
        in if released \<or> extended then k
           else kbd_buffer_push (kbd_translate_make_scancode scancode k) k)"

section \<open>The driver's interface\<close>

text \<open>The first result says whether the controller accepted its configuration, which only the log shows.\<close>

definition ps2_keyboard_init :: "'d io \<Rightarrow> kbd \<times> 'd \<Rightarrow> bool \<times> kbd \<times> 'd" where
  "ps2_keyboard_init io kd =
     (let (k, d) = kd;
          k = k\<lparr>g_ps2_irq_count := 0, g_ps2_last_scancode := 0, g_kbd_head := 0, g_kbd_tail := 0, g_kbd_shift := False,
                g_kbd_left_shift := False, g_kbd_right_shift := False, g_kbd_ctrl := False, g_kbd_alt := False,
                g_kbd_caps_lock := False, g_kbd_extended_prefix := False\<rparr>;
          d = ps2_flush_output io d;
          (configured, d) = ps2_write_command io PS2_CMD_ENABLE_PORT1 d;
          (configured, d) = (if configured then ps2_send_keyboard_command io PS2_KBD_DISABLE_SCANNING d else (False, d));
          (configured, d) = (if configured then ps2_send_keyboard_command_with_arg io PS2_KBD_SET_SCANCODE 0x01 d else (False, d));
          (configured, d) = (if configured then ps2_send_keyboard_command io PS2_KBD_ENABLE_SCANNING d else (False, d))
      in (configured, k, d))"

definition ps2_keyboard_on_irq :: "'d io \<Rightarrow> kbd \<times> 'd \<Rightarrow> kbd \<times> 'd" where
  "ps2_keyboard_on_irq io kd =
     (let (k, d) = kd; (status, d) = io_in8 io PS2_STATUS_PORT d in
      if status AND PS2_STATUS_OUTPUT_FULL = 0 then (k, d)
      else if status AND PS2_STATUS_AUX_DATA \<noteq> 0 then (k, snd (io_in8 io PS2_DATA_PORT d))
      else
        let (scancode, d) = io_in8 io PS2_DATA_PORT d in
        (kbd_handle_scancode scancode (k\<lparr>g_ps2_irq_count := g_ps2_irq_count k + 1, g_ps2_last_scancode := scancode\<rparr>), d))"

definition ps2_keyboard_irq_count :: "kbd \<Rightarrow> u64" where
  "ps2_keyboard_irq_count k = g_ps2_irq_count k"

definition ps2_keyboard_last_scancode :: "kbd \<Rightarrow> u8" where
  "ps2_keyboard_last_scancode k = g_ps2_last_scancode k"

definition ps2_keyboard_getchar :: "kbd \<Rightarrow> int \<times> kbd" where
  "ps2_keyboard_getchar k = kbd_buffer_pop k"

text \<open>The characters written to the buffer of the caller, with \<open>n\<close> places left.\<close>

fun read_loop :: "nat \<Rightarrow> kbd \<Rightarrow> u8 list \<times> kbd" where
  "read_loop 0 k = ([], k)"
| "read_loop (Suc n) k =
     (let (v, k) = kbd_buffer_pop k in
      if v < 0 then ([], k)
      else let (cs, k) = read_loop n k in (word_of_int v # cs, k))"

definition ps2_keyboard_read :: "bool \<Rightarrow> u64 \<Rightarrow> kbd \<Rightarrow> u64 \<times> u8 list \<times> kbd" where
  "ps2_keyboard_read has_buffer max_len k =
     (if \<not> has_buffer \<or> max_len = 0 then (0, [], k)
      else let (cs, k) = read_loop (unat max_len) k in (of_nat (length cs), cs, k))"

end
