(* ===== verification/Keyboard_Props.thy ===== *)
theory Keyboard_Props
  imports Keyboard
begin

text \<open>
  Properties of the keyboard: the buffer is a bounded queue of 127 characters, what a reader gets is
  what the scan codes decode to, in order, and every character is a 7-bit code.
\<close>

section \<open>The buffer is a queue\<close>

definition kbd_wf :: "kbd \<Rightarrow> bool" where
  "kbd_wf k \<longleftrightarrow> length (g_kbd_buffer k) = 128 \<and> unat (g_kbd_head k) < 128 \<and> unat (g_kbd_tail k) < 128"

definition kbd_count :: "kbd \<Rightarrow> nat" where
  "kbd_count k = (unat (g_kbd_head k) + 128 - unat (g_kbd_tail k)) mod 128"

definition kbd_chars :: "kbd \<Rightarrow> u8 list" where
  "kbd_chars k = ring_list (g_kbd_buffer k) (unat (g_kbd_tail k)) (kbd_count k)"

definition kbd_take :: "kbd \<Rightarrow> (u8 \<times> kbd) option" where
  "kbd_take k = (case kbd_buffer_pop k of (v, k') \<Rightarrow> if v < 0 then None else Some (word_of_int v, k'))"

lemma unat_kbd_next: "unat i < 128 \<Longrightarrow> unat (kbd_next i) = (unat i + 1) mod 128"
proof -
  assume "unat i < 128"
  then have "unat (i + 1) = unat i + 1" by (intro unat_Suc_small) simp
  then show ?thesis by (simp add: kbd_next_def unat_mod KBD_BUFFER_SIZE_def)
qed

lemma kbd_ring:
  assumes "kbd_wf k"
  shows "ring_ok (g_kbd_buffer k) (unat (g_kbd_tail k)) (unat (g_kbd_head k)) (kbd_count k)" "kbd_count k < 128"
proof -
  have b: "unat (g_kbd_head k) < 128" "unat (g_kbd_tail k) < 128" using assms by (simp_all add: kbd_wf_def)
  have "unat (g_kbd_head k) = (unat (g_kbd_tail k) + kbd_count k) mod 128"
  proof -
    have "(unat (g_kbd_tail k) + kbd_count k) mod 128 = (unat (g_kbd_tail k) + (unat (g_kbd_head k) + 128 - unat (g_kbd_tail k))) mod 128"
      unfolding kbd_count_def by (rule mod_add_right_eq)
    also have "\<dots> = (unat (g_kbd_head k) + 128) mod 128" using b by simp
    also have "\<dots> = unat (g_kbd_head k)" using b by simp
    finally show ?thesis by simp
  qed
  then show "ring_ok (g_kbd_buffer k) (unat (g_kbd_tail k)) (unat (g_kbd_head k)) (kbd_count k)" "kbd_count k < 128"
    using assms by (simp_all add: ring_ok_def kbd_wf_def kbd_count_def)
qed

lemma kbd_count_cases:
  assumes "kbd_wf k"
  shows "kbd_count k = (if unat (g_kbd_tail k) \<le> unat (g_kbd_head k) then unat (g_kbd_head k) - unat (g_kbd_tail k)
    else unat (g_kbd_head k) + 128 - unat (g_kbd_tail k))"
proof (cases "unat (g_kbd_tail k) \<le> unat (g_kbd_head k)")
  case True
  then have "unat (g_kbd_head k) + 128 - unat (g_kbd_tail k) = (unat (g_kbd_head k) - unat (g_kbd_tail k)) + 128" by simp
  then have "kbd_count k = (unat (g_kbd_head k) - unat (g_kbd_tail k)) mod 128" unfolding kbd_count_def by (metis mod_add_self2)
  moreover have "unat (g_kbd_head k) - unat (g_kbd_tail k) < 128" using assms by (auto simp: kbd_wf_def)
  ultimately show ?thesis using True by simp
next
  case False
  then have "unat (g_kbd_head k) + 128 - unat (g_kbd_tail k) < 128" by simp
  then show ?thesis using False by (simp add: kbd_count_def)
qed

lemma kbd_full: "kbd_wf k \<Longrightarrow> kbd_next (g_kbd_head k) = g_kbd_tail k \<longleftrightarrow> kbd_count k = 127"
  using unat_kbd_next [of "g_kbd_head k"] kbd_count_cases [of k]
  by (auto simp: word_eq_unat kbd_wf_def mod_Suc split: if_splits)

lemma kbd_empty: "kbd_wf k \<Longrightarrow> g_kbd_head k = g_kbd_tail k \<longleftrightarrow> kbd_count k = 0"
  using kbd_count_cases [of k] by (auto simp: word_eq_unat kbd_wf_def)

lemma kbd_store_ok:
  assumes wf: "kbd_wf k" and s: "kbd_store ch k = Some k'"
  shows "kbd_wf k'" "kbd_chars k' = kbd_chars k @ [ch]"
proof -
  note r = kbd_ring [OF wf]
  have nf: "kbd_next (g_kbd_head k) \<noteq> g_kbd_tail k"
    and k': "k' = k\<lparr>g_kbd_buffer := (g_kbd_buffer k)[unat (g_kbd_head k) := ch], g_kbd_head := kbd_next (g_kbd_head k)\<rparr>"
    using s by (auto simp: kbd_store_def split: if_splits)
  have n: "kbd_count k < 127" using nf kbd_full [OF wf] r(2) by simp
  have h: "unat (g_kbd_head k') = (unat (g_kbd_head k) + 1) mod 128" using wf unat_kbd_next by (simp add: k' kbd_wf_def)
  then show wf': "kbd_wf k'" using wf by (simp add: kbd_wf_def k')
  have len: "length (g_kbd_buffer k) = 128" using wf by (simp add: kbd_wf_def)
  have "kbd_count k' = Suc (kbd_count k)"
    using kbd_count_cases [OF wf'] kbd_count_cases [OF wf] h n wf by (auto simp: k' kbd_wf_def mod_Suc split: if_splits)
  then show "kbd_chars k' = kbd_chars k @ [ch]"
    using ring_push_list [OF r(1), of ch] n len by (simp add: kbd_chars_def k')
qed

lemma kbd_take_ok:
  assumes wf: "kbd_wf k" and t: "kbd_take k = Some (ch, k')"
  shows "kbd_wf k'" "kbd_chars k = ch # kbd_chars k'"
proof -
  note r = kbd_ring [OF wf]
  have ne: "g_kbd_head k \<noteq> g_kbd_tail k" and k': "k' = k\<lparr>g_kbd_tail := kbd_next (g_kbd_tail k)\<rparr>" "ch = g_kbd_buffer k ! unat (g_kbd_tail k)"
    using t by (auto simp: kbd_take_def kbd_buffer_pop_def split: if_splits)
  have n: "0 < kbd_count k" using ne kbd_empty [OF wf] by simp
  have h: "unat (g_kbd_tail k') = (unat (g_kbd_tail k) + 1) mod 128" using wf unat_kbd_next by (simp add: k' kbd_wf_def)
  then show wf': "kbd_wf k'" using wf by (simp add: kbd_wf_def k')
  have len: "length (g_kbd_buffer k) = 128" using wf by (simp add: kbd_wf_def)
  have "kbd_count k' = kbd_count k - 1"
    using kbd_count_cases [OF wf'] kbd_count_cases [OF wf] h n wf by (auto simp: k' kbd_wf_def mod_Suc split: if_splits)
  then show "kbd_chars k = ch # kbd_chars k'"
    using ring_pop_list [OF r(1) n] len h by (simp add: kbd_chars_def k')
qed

interpretation kq: bounded_fifo kbd_wf kbd_chars kbd_store kbd_take 127
proof
  show "length (kbd_chars k) \<le> 127" if "kbd_wf k" for k using kbd_ring(2) [OF that] by (simp add: kbd_chars_def)
  show "kbd_store ch k = None \<longleftrightarrow> length (kbd_chars k) = 127" if "kbd_wf k" for k ch
    using kbd_full [OF that] by (simp add: kbd_store_def kbd_chars_def)
  show "kbd_take k = None \<longleftrightarrow> kbd_chars k = []" if "kbd_wf k" for k
    using kbd_empty [OF that] by (simp add: kbd_take_def kbd_buffer_pop_def kbd_chars_def)
qed (use kbd_store_ok kbd_take_ok in blast)+

section \<open>Decoding without the buffer\<close>

text \<open>The state of the modifier keys, and what a scan code does to it and types.\<close>

record mods =
  m_left :: bool
  m_right :: bool
  m_ctrl :: bool
  m_caps :: bool
  m_ext :: bool

definition mods_of :: "kbd \<Rightarrow> mods" where
  "mods_of k = \<lparr>m_left = g_kbd_left_shift k, m_right = g_kbd_right_shift k, m_ctrl = g_kbd_ctrl k, m_caps = g_kbd_caps_lock k,
     m_ext = g_kbd_extended_prefix k\<rparr>"

text \<open>
  A key with its code: upper case under exactly one of shift and caps lock for letters, the shifted
  legend under shift otherwise, and control characters for letters under control.
\<close>

definition legend :: "u8 \<Rightarrow> bool \<Rightarrow> bool \<Rightarrow> bool \<Rightarrow> u8" where
  "legend sc caps shift ctrl =
     (let plain = g_scancode_set1_plain ! unat sc;
          letter = 97 \<le> plain \<and> plain \<le> 122
      in if letter \<and> ctrl then plain - 96
         else if letter \<and> caps \<noteq> shift then plain - 32
         else if \<not> letter \<and> shift then g_scancode_set1_shifted ! unat sc
         else plain)"

definition press :: "u8 \<Rightarrow> mods \<Rightarrow> mods \<times> u8" where
  "press raw m =
     (if raw = 0xE0 \<or> raw = 0xE1 then (m\<lparr>m_ext := True\<rparr>, 0)
      else
        let down = raw < 0x80; sc = raw AND 0x7F; m1 = m\<lparr>m_ext := False\<rparr>;
            m2 = (if sc = 0x1D then m1\<lparr>m_ctrl := down\<rparr>
                  else if m_ext m then m1
                  else if sc = 0x2A then m1\<lparr>m_left := down\<rparr>
                  else if sc = 0x36 then m1\<lparr>m_right := down\<rparr>
                  else if sc = 0x3A \<and> down then m1\<lparr>m_caps := \<not> m_caps m\<rparr>
                  else m1)
        in (m2, if down \<and> \<not> m_ext m then legend sc (m_caps m2) (m_left m2 \<or> m_right m2) (m_ctrl m2) else 0))"

definition shift_ok :: "kbd \<Rightarrow> bool" where
  "shift_ok k \<longleftrightarrow> g_kbd_shift k = (g_kbd_left_shift k \<or> g_kbd_right_shift k)"

lemma chars_of: "(of_char CHR ''a'' :: u8) = 97" "(of_char CHR ''z'' :: u8) = 122" "(of_char CHR ''A'' :: u8) = 65" "(of_char CHR ''Z'' :: u8) = 90"
  by code_simp+

text \<open>The tables, letter by letter and code by code.\<close>

lemma plain_table:
  assumes "i < 128"
  shows "g_scancode_set1_plain ! i < 128 \<and> g_scancode_set1_shifted ! i < 128 \<and>
    \<not> (65 \<le> g_scancode_set1_plain ! i \<and> g_scancode_set1_plain ! i \<le> 90) \<and>
    (97 \<le> g_scancode_set1_plain ! i \<and> g_scancode_set1_plain ! i \<le> 122 \<or> \<not> kbd_is_alpha (g_scancode_set1_shifted ! i))"
proof -
  have c: "list_all (\<lambda>(p, q). p < 128 \<and> q < 128 \<and> \<not> (65 \<le> p \<and> p \<le> 90) \<and> (97 \<le> p \<and> p \<le> 122 \<or> \<not> kbd_is_alpha q))
      (zip g_scancode_set1_plain g_scancode_set1_shifted)"
    and l: "length g_scancode_set1_plain = 128" "length g_scancode_set1_shifted = 128" by code_simp+
  have "zip g_scancode_set1_plain g_scancode_set1_shifted ! i \<in> set (zip g_scancode_set1_plain g_scancode_set1_shifted)"
    using assms l by (intro nth_mem) simp
  then show ?thesis using c assms l unfolding list_all_iff by fastforce
qed

lemma release_bit: "(raw :: u8) AND 0x80 = 0 \<longleftrightarrow> raw < 0x80" "unat (raw AND 0x7F) < 128"
proof -
  have "list_all (\<lambda>n. ((of_nat n :: u8) AND 0x80 = 0 \<longleftrightarrow> (of_nat n :: u8) < 0x80) \<and> unat ((of_nat n :: u8) AND 0x7F) < 128) [0..<256]"
    by code_simp
  moreover have "unat raw \<in> set [0..<256]" using unsigned_less [of raw] by simp
  ultimately have "((of_nat (unat raw) :: u8) AND 0x80 = 0 \<longleftrightarrow> (of_nat (unat raw) :: u8) < 0x80) \<and> unat ((of_nat (unat raw) :: u8) AND 0x7F) < 128"
    unfolding list_all_iff by blast
  then show "raw AND 0x80 = 0 \<longleftrightarrow> raw < 0x80" "unat (raw AND 0x7F) < 128" by simp_all
qed

lemma upper_case:
  fixes p :: u8
  assumes "97 \<le> p" "p \<le> 122"
  shows "65 \<le> p - 32" "p - 32 \<le> 90"
proof -
  have "unat (p - 32) = unat p - 32" using assms by (subst unat_diff_le) (simp_all add: word_le_unat)
  then show "65 \<le> p - 32" "p - 32 \<le> 90" using assms by (simp_all add: word_le_unat)
qed

lemma translate_legend:
  assumes "unat sc < 128"
  shows "kbd_translate_make_scancode sc k = legend sc (g_kbd_caps_lock k) (g_kbd_shift k) (g_kbd_ctrl k)"
proof -
  let ?p = "g_scancode_set1_plain ! unat sc" and ?q = "g_scancode_set1_shifted ! unat sc"
  note t = plain_table [OF assms]
  show ?thesis
  proof (cases "97 \<le> ?p \<and> ?p \<le> 122")
    case True
    then have u: "65 \<le> ?p - 32" "?p - 32 \<le> 90" using upper_case by blast+
    then have "\<not> 97 \<le> ?p - 32" by (auto simp: word_le_unat)
    then show ?thesis using True u by (simp add: kbd_translate_make_scancode_def legend_def Let_def kbd_is_alpha_def chars_of)
  next
    case False
    then have "\<not> kbd_is_alpha ?p" "\<not> kbd_is_alpha ?q" using t by (auto simp: kbd_is_alpha_def chars_of)
    then show ?thesis using False unfolding kbd_translate_make_scancode_def legend_def Let_def by (auto split: if_splits)
  qed
qed

text \<open>One scan code: modifiers and character are those of \<open>press\<close>, and the rest is a push.\<close>

lemma handle_press:
  assumes "shift_ok k" and pr: "press raw (mods_of k) = (m, c)"
  obtains k1 where "kbd_handle_scancode raw k = kbd_buffer_push c k1" "mods_of k1 = m" "shift_ok k1"
    "g_kbd_buffer k1 = g_kbd_buffer k" "g_kbd_head k1 = g_kbd_head k" "g_kbd_tail k1 = g_kbd_tail k"
proof (cases "raw = 0xE0 \<or> raw = 0xE1")
  case True
  then have "kbd_handle_scancode raw k = kbd_buffer_push c (k\<lparr>g_kbd_extended_prefix := True\<rparr>)"
    "mods_of (k\<lparr>g_kbd_extended_prefix := True\<rparr>) = m"
    using pr by (auto simp: kbd_handle_scancode_def press_def kbd_buffer_push_def mods_of_def)
  then show ?thesis by (rule that) (use assms(1) in \<open>simp_all add: shift_ok_def\<close>)
next
  case False
  let ?sc = "raw AND 0x7F" and ?rel = "\<not> raw < 0x80" and ?ext = "g_kbd_extended_prefix k"
  let ?k = "kbd_update_modifiers ?sc ?rel ?ext (k\<lparr>g_kbd_extended_prefix := False\<rparr>)"
  have f: "g_kbd_buffer ?k = g_kbd_buffer k" "g_kbd_head ?k = g_kbd_head k" "g_kbd_tail ?k = g_kbd_tail k" "shift_ok ?k"
    using assms(1) by (auto simp: kbd_update_modifiers_def shift_ok_def)
  have m: "mods_of ?k = m" using pr False by (auto simp: press_def Let_def mods_of_def kbd_update_modifiers_def split: if_splits)
  have c: "c = (if ?rel \<or> ?ext then 0 else kbd_translate_make_scancode ?sc ?k)"
  proof -
    have "c = (if raw < 0x80 \<and> \<not> ?ext then legend ?sc (m_caps m) (m_left m \<or> m_right m) (m_ctrl m) else 0)"
      using pr False by (auto simp: press_def Let_def mods_of_def)
    then show ?thesis using translate_legend [OF release_bit(2), of raw ?k] f(4) unfolding m [symmetric] by (auto simp: mods_of_def shift_ok_def)
  qed
  have h: "kbd_handle_scancode raw k = (if ?rel \<or> ?ext then ?k else kbd_buffer_push (kbd_translate_make_scancode ?sc ?k) ?k)"
    unfolding kbd_handle_scancode_def if_not_P [OF False] Let_def release_bit(1) by (rule refl)
  have "kbd_handle_scancode raw k = kbd_buffer_push c ?k"
  proof (cases "?rel \<or> ?ext")
    case True
    then show ?thesis unfolding h c if_P [OF True] by (simp add: kbd_buffer_push_def)
  next
    case False
    show ?thesis unfolding h c if_not_P [OF False] by (rule refl)
  qed
  then show ?thesis using m f(4,1-3) by (rule that)
qed

section \<open>Events\<close>

text \<open>A key is an interrupt at which the controller reports keyboard data and delivers a scan code.\<close>

datatype kbd_event = Key u8 | Getchar

definition key_port :: "u8 \<Rightarrow> unit io" where
  "key_port raw = \<lparr>in8 = (\<lambda>port d. (if port = PS2_STATUS_PORT then PS2_STATUS_OUTPUT_FULL else raw, d)), out8 = (\<lambda>_ _ d. d),
     in32 = (\<lambda>_ d. (0, d)), out32 = (\<lambda>_ _ d. d)\<rparr>"

fun kbd_run :: "kbd_event list \<Rightarrow> kbd \<Rightarrow> int list" where
  "kbd_run [] k = []"
| "kbd_run (Key raw # es) k = kbd_run es (fst (ps2_keyboard_on_irq (key_port raw) (k, ())))"
| "kbd_run (Getchar # es) k = (case ps2_keyboard_getchar k of (v, k) \<Rightarrow> v # kbd_run es k)"

text \<open>The same events on an unbounded reading of the keys: a list of characters of which at most 127 are kept.\<close>

fun typed :: "kbd_event list \<Rightarrow> mods \<Rightarrow> u8 list \<Rightarrow> int list" where
  "typed [] m cs = []"
| "typed (Key raw # es) m cs =
     (case press raw m of (m, c) \<Rightarrow> typed es m (if c = 0 \<or> length cs = 127 then cs else cs @ [c]))"
| "typed (Getchar # es) m [] = - 1 # typed es m []"
| "typed (Getchar # es) m (c # cs) = int (unat c) # typed es m cs"

lemma push_chars:
  assumes wf: "kbd_wf k"
  shows "kbd_wf (kbd_buffer_push c k)"
    "kbd_chars (kbd_buffer_push c k) = (if c = 0 \<or> length (kbd_chars k) = 127 then kbd_chars k else kbd_chars k @ [c])"
proof -
  have "kbd_wf (kbd_buffer_push c k) \<and>
    kbd_chars (kbd_buffer_push c k) = (if c = 0 \<or> length (kbd_chars k) = 127 then kbd_chars k else kbd_chars k @ [c])"
  proof (cases "kbd_store c k")
    case None
    then show ?thesis using kq.enq_None [OF wf, of c] wf by (auto simp: kbd_buffer_push_def)
  next
    case (Some k')
    have "length (kbd_chars k) \<noteq> 127" using kq.enq_None [OF wf, of c] Some by simp
    then show ?thesis using kq.enq_Some [OF wf Some] wf Some by (auto simp: kbd_buffer_push_def)
  qed
  then show "kbd_wf (kbd_buffer_push c k)"
    "kbd_chars (kbd_buffer_push c k) = (if c = 0 \<or> length (kbd_chars k) = 127 then kbd_chars k else kbd_chars k @ [c])" by blast+
qed

lemma push_mods: "mods_of (kbd_buffer_push c k) = mods_of k" "shift_ok (kbd_buffer_push c k) = shift_ok k"
  by (auto simp: kbd_buffer_push_def kbd_store_def mods_of_def shift_ok_def)

lemma getchar_cases:
  assumes wf: "kbd_wf k"
  obtains "ps2_keyboard_getchar k = (- 1, k)" "kbd_chars k = []"
  | c k' where "ps2_keyboard_getchar k = (int (unat c), k')" "kbd_chars k = c # kbd_chars k'" "kbd_wf k'" "mods_of k' = mods_of k" "shift_ok k' = shift_ok k"
proof (cases "kbd_take k")
  case None
  then have "kbd_chars k = []" "ps2_keyboard_getchar k = (- 1, k)" using kq.deq_None [OF wf]
    by (auto simp: kbd_take_def kbd_buffer_pop_def ps2_keyboard_getchar_def split: if_splits)
  then show ?thesis using that(1) by blast
next
  case (Some r)
  obtain c k' where r: "r = (c, k')" by (cases r)
  have d: "kbd_wf k'" "kbd_chars k = c # kbd_chars k'" using kq.deq_Some [OF wf] Some r by blast+
  have "ps2_keyboard_getchar k = (int (unat c), k')" "mods_of k' = mods_of k" "shift_ok k' = shift_ok k"
    using Some r by (auto simp: kbd_take_def kbd_buffer_pop_def ps2_keyboard_getchar_def mods_of_def shift_ok_def split: if_splits)
  then show ?thesis using that(2) d by blast
qed

lemma irq_key:
  "fst (ps2_keyboard_on_irq (key_port raw) (k, ())) =
     kbd_handle_scancode raw (k\<lparr>g_ps2_irq_count := g_ps2_irq_count k + 1, g_ps2_last_scancode := raw\<rparr>)"
  by (simp add: ps2_keyboard_on_irq_def key_port_def io_in8_def PS2_STATUS_OUTPUT_FULL_def PS2_STATUS_AUX_DATA_def PS2_STATUS_PORT_def
      PS2_DATA_PORT_def)

lemma run_typed:
  assumes "kbd_wf k" "shift_ok k"
  shows "kbd_run es k = typed es (mods_of k) (kbd_chars k)"
  using assms
proof (induction es arbitrary: k)
  case (Cons e es)
  show ?case
  proof (cases e)
    case (Key raw)
    let ?k = "k\<lparr>g_ps2_irq_count := g_ps2_irq_count k + 1, g_ps2_last_scancode := raw\<rparr>"
    have k: "shift_ok ?k" "mods_of ?k = mods_of k" using Cons.prems(2) by (simp_all add: shift_ok_def mods_of_def)
    obtain m c where pr: "press raw (mods_of k) = (m, c)" by (cases "press raw (mods_of k)")
    from k(1) pr [folded k(2)] show ?thesis
    proof (rule handle_press)
      fix k1
      assume h: "kbd_handle_scancode raw ?k = kbd_buffer_push c k1" "mods_of k1 = m" "shift_ok k1"
        "g_kbd_buffer k1 = g_kbd_buffer ?k" "g_kbd_head k1 = g_kbd_head ?k" "g_kbd_tail k1 = g_kbd_tail ?k"
      have b: "kbd_wf k1" "kbd_chars k1 = kbd_chars k" using Cons.prems(1) h(4-6) by (simp_all add: kbd_wf_def kbd_chars_def kbd_count_def)
      show ?thesis using Cons.IH [of "kbd_buffer_push c k1"] push_chars [OF b(1), of c] push_mods [of c k1] h b(2) pr by (simp add: Key irq_key)
    qed
  next
    case Getchar
    from Cons.prems(1) show ?thesis
      by (rule getchar_cases) (use Cons.IH Cons.prems in \<open>simp_all add: Getchar\<close>)
  qed
qed simp

lemma init_kbd:
  assumes "length (g_kbd_buffer k) = 128"
  shows "kbd_wf (fst (snd (ps2_keyboard_init io (k, d))))" "shift_ok (fst (snd (ps2_keyboard_init io (k, d))))"
    "kbd_chars (fst (snd (ps2_keyboard_init io (k, d)))) = []"
    "mods_of (fst (snd (ps2_keyboard_init io (k, d)))) = \<lparr>m_left = False, m_right = False, m_ctrl = False, m_caps = False, m_ext = False\<rparr>"
  using assms
  by (simp_all add: ps2_keyboard_init_def kbd_wf_def shift_ok_def kbd_chars_def kbd_count_def mods_of_def split_beta Let_def)

lemma init_typed:
  assumes "length (g_kbd_buffer k) = 128"
  shows "kbd_run es (fst (snd (ps2_keyboard_init io (k, d)))) =
    typed es \<lparr>m_left = False, m_right = False, m_ctrl = False, m_caps = False, m_ext = False\<rparr> []"
  using run_typed [OF init_kbd(1,2) [OF assms]] by (simp only: init_kbd(3,4) [OF assms])

lemma legend_bound: "unat sc < 128 \<Longrightarrow> legend sc caps shift ctrl < 128"
proof -
  assume sc: "unat sc < 128"
  let ?p = "g_scancode_set1_plain ! unat sc"
  have t: "?p < 128" "g_scancode_set1_shifted ! unat sc < 128" using plain_table [OF sc] by blast+
  have "?p - 96 < 128" "?p - 32 < 128" if "97 \<le> ?p"
  proof -
    have "96 \<le> ?p" "32 \<le> ?p" using that by (auto simp: word_le_unat)
    then show "?p - 96 < 128" "?p - 32 < 128" using t(1) by (auto simp: word_less_unat unat_diff_le)
  qed
  then show ?thesis using t by (auto simp: legend_def Let_def)
qed

lemma press_bound: "press raw m = (m', c) \<Longrightarrow> c < 128"
  using legend_bound [OF release_bit(2) [of raw]] by (auto simp: press_def Let_def split: if_splits)

lemma typed_bound:
  assumes "\<forall>c\<in>set cs. 0 < c \<and> c < 128" "v \<in> set (typed es m cs)"
  shows "v = - 1 \<or> 1 \<le> v \<and> v \<le> 127"
  using assms
proof (induction es m cs rule: typed.induct)
  case (2 raw es m cs)
  obtain m' c where p: "press raw m = (m', c)" by (cases "press raw m")
  have "\<forall>x\<in>set (if c = 0 \<or> length cs = 127 then cs else cs @ [c]). 0 < x \<and> x < 128"
    using 2(2) press_bound [OF p] by (auto simp: word_neq_0_conv)
  then show ?case using 2(1) [OF p [symmetric]] 2(3) p by simp
next
  case (4 es m c cs)
  then have "1 \<le> unat c" "unat c \<le> 127" by (auto simp: word_less_unat)
  then have "1 \<le> int (unat c)" "int (unat c) \<le> 127" by linarith+
  then show ?case using 4 by auto
qed auto

section \<open>Properties\<close>

text \<open>
  C13. What is typed is what is read.  After initialisation, whatever the controller answered, any
  sequence of key interrupts and reads gives the readers the characters the keys stand for, in the
  order they were pressed: letters in upper case under exactly one of shift and caps lock, control
  characters under control, the shifted legend of other keys under shift, nothing for releases, for
  extended codes and for keys without a character; when 127 characters wait, further ones are lost
  and none is damaged; a read with nothing waiting gives -1.
\<close>

theorem keyboard_reads_typed:
  assumes "length (g_kbd_buffer k) = 128"
  shows "kbd_run es (fst (snd (ps2_keyboard_init io (k, d)))) =
    typed es \<lparr>m_left = False, m_right = False, m_ctrl = False, m_caps = False, m_ext = False\<rparr> []"
  using run_typed [OF init_kbd(1,2) [OF assms]] by (simp only: init_kbd(3,4) [OF assms])

definition kbd_demo :: kbd where
  "kbd_demo = \<lparr>g_ps2_irq_count = 0, g_ps2_last_scancode = 0, g_kbd_buffer = replicate 128 0, g_kbd_head = 0, g_kbd_tail = 0,
     g_kbd_shift = False, g_kbd_left_shift = False, g_kbd_right_shift = False, g_kbd_ctrl = False, g_kbd_alt = False,
     g_kbd_caps_lock = False, g_kbd_extended_prefix = False\<rparr>"

definition kbd_demo_events :: "kbd_event list" where
  "kbd_demo_events = [Key 0x2A, Key 0x23, Key 0xAA, Key 0x17, Key 0x1D, Key 0x2E, Getchar, Getchar, Getchar, Getchar]"

theorem keyboard_reads_typed_witness:
  "kbd_run kbd_demo_events (fst (snd (ps2_keyboard_init (key_port 0xFA) (kbd_demo, ())))) = [72, 105, 3, - 1]"
proof -
  have l: "length (g_kbd_buffer kbd_demo) = 128" by (simp add: kbd_demo_def)
  have "typed kbd_demo_events \<lparr>m_left = False, m_right = False, m_ctrl = False, m_caps = False, m_ext = False\<rparr> [] = [72, 105, 3, - 1]"
    by code_simp
  then show ?thesis using keyboard_reads_typed [OF l, of kbd_demo_events "key_port 0xFA" "()"] by simp
qed

text \<open>
  C25. Characters are 7-bit codes.  Whatever scan codes arrive, every character a reader gets lies
  between 1 and 127, and the only other answer is -1.
\<close>

theorem keyboard_char_bounds:
  assumes "length (g_kbd_buffer k) = 128" "v \<in> set (kbd_run es (fst (snd (ps2_keyboard_init io (k, d)))))"
  shows "v = - 1 \<or> 1 \<le> v \<and> v \<le> 127"
proof (rule typed_bound)
  show "v \<in> set (typed es \<lparr>m_left = False, m_right = False, m_ctrl = False, m_caps = False, m_ext = False\<rparr> [])"
    using assms(2) unfolding init_typed [OF assms(1)] .
qed simp

theorem keyboard_char_bounds_witness:
  "3 \<in> set (kbd_run kbd_demo_events (fst (snd (ps2_keyboard_init (key_port 0xFA) (kbd_demo, ()))))) \<and> ((3::int) = - 1 \<or> 1 \<le> (3::int) \<and> (3::int) \<le> 127)"
proof -
  have l: "length (g_kbd_buffer kbd_demo) = 128" by (simp add: kbd_demo_def)
  have "3 \<in> set (typed kbd_demo_events \<lparr>m_left = False, m_right = False, m_ctrl = False, m_caps = False, m_ext = False\<rparr> [])" by code_simp
  then have m: "3 \<in> set (kbd_run kbd_demo_events (fst (snd (ps2_keyboard_init (key_port 0xFA) (kbd_demo, ())))))"
    unfolding init_typed [OF l] .
  show ?thesis using m keyboard_char_bounds [OF l m] by (rule conjI)
qed

end
