(* ===== verification/Spec2Isabelle.thy ===== *)
theory Spec2Isabelle
  imports Prelude Fifo Locks Pmm_Props Sched_Props Workqueue Rcu Capability Seccomp Vmm_Heap Syscall Ipc_Rendezvous
    Shm_Props Keyboard_Props
begin

text \<open>
  GNU OS verification.
\<close>

end
